(* ===== verification/Prelude.thy ===== *)
theory Prelude
  imports Main "HOL-Library.Word" "HOL-Library.Char_ord" "HOL-Library.List_Lexorder"
begin

text \<open>
  The part of the Rust language and of its standard library that the components share.

  A Rust \<open>str\<close> is its UTF-8 byte sequence, a \<^typ>\<open>string\<close>: one \<^typ>\<open>char\<close> per byte, so that
  \<open>str::len\<close>, byte positions and byte-wise comparison are \<^const>\<open>length\<close>, list positions and the
  lexicographic order on lists. A \<open>Result\<close> is a sum with the error on the left. The lemmas on
  splitting, joining, trimming and searching are the ones the parsers and printers of the
  components rest on.
\<close>

named_theorems str_simps \<open>splitting, joining, trimming and searching strings\<close>

type_synonym u64 = "64 word"
type_synonym ('e, 'a) result = "'e + 'a"

section \<open>Results\<close>

text \<open>The question-mark operator: the first error ends the computation.\<close>

definition and_then :: "('e, 'a) result \<Rightarrow> ('a \<Rightarrow> ('e, 'b) result) \<Rightarrow> ('e, 'b) result" where
  "and_then r f = (case r of Inl e \<Rightarrow> Inl e | Inr x \<Rightarrow> f x)"

definition is_ok :: "('e, 'a) result \<Rightarrow> bool" where
  "is_ok r = (case r of Inl _ \<Rightarrow> False | Inr _ \<Rightarrow> True)"

definition ok_or :: "'e \<Rightarrow> 'a option \<Rightarrow> ('e, 'a) result" where
  "ok_or e x = (case x of None \<Rightarrow> Inl e | Some v \<Rightarrow> Inr v)"

lemma and_then_simps [simp]:
  "and_then (Inl e) f = Inl e"
  "and_then (Inr x) f = f x"
  by (simp_all add: and_then_def)

lemma is_ok_simps [simp]: "\<not> is_ok (Inl e)" "is_ok (Inr x)"
  by (simp_all add: is_ok_def)

lemma ok_or_simps [simp]: "ok_or e None = Inl e" "ok_or e (Some x) = Inr x"
  by (simp_all add: ok_or_def)

lemma and_then_eq_Inr: "and_then r f = Inr y \<longleftrightarrow> (\<exists>x. r = Inr x \<and> f x = Inr y)"
  by (cases r) auto

lemma is_ok_iff: "is_ok r \<longleftrightarrow> (\<exists>x. r = Inr x)"
  by (cases r) auto

section \<open>Splitting and joining\<close>

text \<open>\<open>str::split(char)\<close>: always at least one piece.\<close>

fun split_on :: "char \<Rightarrow> string \<Rightarrow> string list" where
  "split_on c [] = [[]]"
| "split_on c (x # xs) =
     (if x = c then [] # split_on c xs
      else (case split_on c xs of [] \<Rightarrow> [[x]] | p # ps \<Rightarrow> (x # p) # ps))"

text \<open>\<open>[str]::join(sep)\<close>.\<close>

fun join :: "string \<Rightarrow> string list \<Rightarrow> string" where
  "join sep [] = []"
| "join sep [p] = p"
| "join sep (p # q # ps) = p @ sep @ join sep (q # ps)"

lemma split_on_not_Nil [simp]: "split_on c s \<noteq> []"
  by (cases s) (auto split: list.splits)

lemma split_on_pieces: "p \<in> set (split_on c s) \<Longrightarrow> c \<notin> set p"
  by (induction s arbitrary: p) (auto split: list.splits if_splits)

lemma split_on_no_sep [simp]: "c \<notin> set s \<Longrightarrow> split_on c s = [s]"
  by (induction s) auto

lemma split_on_append: "c \<notin> set p \<Longrightarrow> split_on c (p @ c # s) = p # split_on c s"
  by (induction p) auto

lemma split_on_join [str_simps]:
  "ps \<noteq> [] \<Longrightarrow> (\<And>p. p \<in> set ps \<Longrightarrow> c \<notin> set p) \<Longrightarrow> split_on c (join [c] ps) = ps"
  by (induction "[c]" ps rule: join.induct) (auto simp: split_on_append)

lemma join_Cons: "ps \<noteq> [] \<Longrightarrow> join sep (p # ps) = p @ sep @ join sep ps"
  by (cases ps) auto

lemma join_split_on [str_simps]: "join [c] (split_on c s) = s"
proof (induction s)
  case (Cons x xs)
  then show ?case
    by (cases "split_on c xs") (auto simp: join_Cons, metis append_Cons join.simps(2) join_Cons)
qed simp

text \<open>Joining and splitting all pieces of a list of paths is splitting each of them.\<close>

definition split_all :: "char \<Rightarrow> string list \<Rightarrow> string list" where
  "split_all c ps = concat (map (split_on c) ps)"

lemma split_all_Nil_iff [simp]: "split_all c ps = [] \<longleftrightarrow> ps = []"
  by (cases ps) (auto simp: split_all_def)

lemma split_all_append: "split_all c (ps @ qs) = split_all c ps @ split_all c qs"
  by (simp add: split_all_def)

lemma split_on_append_general:
  "split_on c (p @ c # s) = split_on c p @ split_on c s"
  by (induction p) (auto split: list.splits simp: append_eq_Cons_conv Cons_eq_append_conv)

lemma split_on_join_all: "ps \<noteq> [] \<Longrightarrow> split_on c (join [c] ps) = split_all c ps"
  by (induction "[c]" ps rule: join.induct) (auto simp: split_all_def split_on_append_general)

lemma split_all_clean: "(\<And>p. p \<in> set ps \<Longrightarrow> c \<notin> set p) \<Longrightarrow> split_all c ps = ps"
  by (induction ps) (auto simp: split_all_def)

section \<open>Searching\<close>

text \<open>\<open>Iterator::rposition\<close>: the index of the last match.\<close>

fun rposition :: "('a \<Rightarrow> bool) \<Rightarrow> 'a list \<Rightarrow> nat option" where
  "rposition P [] = None"
| "rposition P (x # xs) =
     (case rposition P xs of Some i \<Rightarrow> Some (Suc i) | None \<Rightarrow> if P x then Some 0 else None)"

lemma rposition_None_iff: "rposition P xs = None \<longleftrightarrow> (\<forall>x \<in> set xs. \<not> P x)"
  by (induction xs) (auto split: option.splits)

lemma rposition_Some:
  "rposition P xs = Some i \<Longrightarrow>
     i < length xs \<and> P (xs ! i) \<and> (\<forall>y \<in> set (drop (Suc i) xs). \<not> P y)"
  by (induction xs arbitrary: i)
     (auto simp: rposition_None_iff split: option.splits if_splits)

lemma rposition_append_last:
  "P x \<Longrightarrow> (\<And>y. y \<in> set ys \<Longrightarrow> \<not> P y) \<Longrightarrow> rposition P (xs @ x # ys) = Some (length xs)"
  by (induction xs) (auto simp: rposition_None_iff split: option.splits)

lemma rposition_append_none:
  "(\<And>y. y \<in> set ys \<Longrightarrow> \<not> P y) \<Longrightarrow> rposition P (xs @ ys) = rposition P xs"
  by (induction xs) (auto simp: rposition_None_iff split: option.splits)

lemma rposition_split:
  assumes "rposition (\<lambda>x. x = c) xs = Some i"
  shows "xs = take i xs @ c # drop (Suc i) xs" and "c \<notin> set (drop (Suc i) xs)" and "i < length xs"
  using rposition_Some [OF assms] by (auto simp: id_take_nth_drop)

text \<open>\<open>str::strip_prefix\<close> for a character and for a string.\<close>

definition strip_prefix_char :: "char \<Rightarrow> string \<Rightarrow> string option" where
  "strip_prefix_char c s = (case s of [] \<Rightarrow> None | x # xs \<Rightarrow> if x = c then Some xs else None)"

fun strip_prefix :: "string \<Rightarrow> string \<Rightarrow> string option" where
  "strip_prefix [] s = Some s"
| "strip_prefix (p # ps) [] = None"
| "strip_prefix (p # ps) (x # xs) = (if p = x then strip_prefix ps xs else None)"

lemma strip_prefix_eq_Some [str_simps]: "strip_prefix p s = Some r \<longleftrightarrow> s = p @ r"
  by (induction p s rule: strip_prefix.induct) auto

section \<open>Trimming and lines\<close>

text \<open>
  \<open>str::trim\<close> removes leading and trailing \<open>White_Space\<close> code points. Their UTF-8 encodings,
  shortest first: tab, line feed, vertical tab, form feed, carriage return, space; then U+0085,
  U+00A0, U+1680, U+2000 to U+200A, U+2028, U+2029, U+202F, U+205F and U+3000. UTF-8 is
  self-synchronising, so a byte prefix that is one of these encodings is that code point.
\<close>

definition white_space :: "string list" where
  "white_space = map (map char_of)
     ([[9], [10], [11], [12], [13], [32], [194, 133], [194, 160], [225, 154, 128]]
      @ map (\<lambda>i. [226, 128, i]) [128, 129, 130, 131, 132, 133, 134, 135, 136, 137, 138, 168, 169, 175]
      @ [[226, 129, 159], [227, 128, 128 :: nat]])"

lemma white_space_code [code]:
  "white_space =
     [[CHR 0x09], [CHR 0x0A], [CHR 0x0B], [CHR 0x0C], [CHR 0x0D], [CHR 0x20], [CHR 0xC2, CHR 0x85],
      [CHR 0xC2, CHR 0xA0], [CHR 0xE1, CHR 0x9A, CHR 0x80]]
     @ map (\<lambda>c. [CHR 0xE2, CHR 0x80, c])
        [CHR 0x80, CHR 0x81, CHR 0x82, CHR 0x83, CHR 0x84, CHR 0x85, CHR 0x86, CHR 0x87, CHR 0x88, CHR 0x89,
         CHR 0x8A, CHR 0xA8, CHR 0xA9, CHR 0xAF]
     @ [[CHR 0xE2, CHR 0x81, CHR 0x9F], [CHR 0xE3, CHR 0x80, CHR 0x80]]"
  by (simp add: white_space_def char_of_def bit_0)

definition find_prefix :: "string list \<Rightarrow> string \<Rightarrow> string option" where
  "find_prefix ps s = List.find (\<lambda>p. take (length p) s = p) ps"

function strip_all :: "string list \<Rightarrow> string \<Rightarrow> string" where
  "strip_all ps s =
     (case find_prefix ps s of
        None \<Rightarrow> s
      | Some p \<Rightarrow> if p = [] \<or> s = [] then s else strip_all ps (drop (length p) s))"
  by pat_completeness auto
termination
  by (relation "measure (\<lambda>(ps, s). length s)") auto

declare strip_all.simps [simp del]

definition trim_start :: "string \<Rightarrow> string" where
  "trim_start s = strip_all white_space s"

definition trim_end :: "string \<Rightarrow> string" where
  "trim_end s = rev (strip_all (map rev white_space) (rev s))"

definition trim :: "string \<Rightarrow> string" where
  "trim s = trim_end (trim_start s)"

text \<open>\<open>str::lines\<close>: split at line feeds, a trailing carriage return of each line removed, no
  empty last line.\<close>

definition strip_cr :: "string \<Rightarrow> string" where
  "strip_cr l = (if l \<noteq> [] \<and> last l = char_of (13 :: nat) then butlast l else l)"

definition lines :: "string \<Rightarrow> string list" where
  "lines s = (let ls = split_on (char_of (10 :: nat)) s
     in map strip_cr (if last ls = [] then butlast ls else ls))"

lemma strip_all_unchanged: "find_prefix ps s = None \<Longrightarrow> strip_all ps s = s"
  by (simp add: strip_all.simps [of ps s])

lemma strip_all_Nil [simp]: "strip_all ps [] = []"
  by (simp add: strip_all.simps [of ps "[]"] split: option.splits)

lemma find_prefix_None_iff:
  "find_prefix ps s = None \<longleftrightarrow> (\<forall>p \<in> set ps. take (length p) s \<noteq> p)"
  by (auto simp: find_prefix_def find_None_iff)

lemma strip_all_suffix: "\<exists>n. strip_all ps s = drop n s"
proof (induction ps s rule: strip_all.induct)
  case (1 ps s)
  show ?case
  proof (cases "find_prefix ps s")
    case None
    then show ?thesis by (metis drop0 strip_all_unchanged)
  next
    case (Some p)
    show ?thesis
    proof (cases "p = [] \<or> s = []")
      case True
      then have "strip_all ps s = drop 0 s" using Some by (simp add: strip_all.simps [of ps s])
      then show ?thesis by blast
    next
      case False
      with 1 Some obtain n where "strip_all ps (drop (length p) s) = drop n (drop (length p) s)"
        by auto
      with False Some show ?thesis
        by (auto simp: strip_all.simps [of ps s])
    qed
  qed
qed

text \<open>Trimming keeps a text that starts and ends with plain bytes: printable ASCII other than the
  space is no prefix and no suffix of a white-space encoding.\<close>

definition plain_byte :: "char \<Rightarrow> bool" where
  "plain_byte c = (32 < (of_char c :: nat) \<and> (of_char c :: nat) < 127)"

lemma white_space_ends:
  "\<forall>w \<in> set white_space. w \<noteq> [] \<and> \<not> plain_byte (hd w) \<and> \<not> plain_byte (last w)"
  by (simp add: white_space_def plain_byte_def)

lemma find_prefix_plain:
  assumes "\<forall>w \<in> set ps. w \<noteq> [] \<and> \<not> plain_byte (hd w)" and "s = [] \<or> plain_byte (hd s)"
  shows "find_prefix ps s = None"
  unfolding find_prefix_None_iff
proof (intro ballI notI)
  fix w assume w: "w \<in> set ps" and eq: "take (length w) s = w"
  from w assms(1) have "w \<noteq> []" and "\<not> plain_byte (hd w)" by auto
  moreover have "s = w @ drop (length w) s" using append_take_drop_id [of "length w" s] eq by simp
  with \<open>w \<noteq> []\<close> have "hd w = hd s" and "s \<noteq> []"
    by (metis hd_append2, auto)
  ultimately show False using assms(2) by simp
qed

lemma trim_start_plain: "s = [] \<or> plain_byte (hd s) \<Longrightarrow> trim_start s = s"
  unfolding trim_start_def using white_space_ends
  by (blast intro: strip_all_unchanged find_prefix_plain)

lemma trim_end_plain: "s = [] \<or> plain_byte (last s) \<Longrightarrow> trim_end s = s"
proof -
  assume s: "s = [] \<or> plain_byte (last s)"
  have "\<forall>w \<in> set (map rev white_space). w \<noteq> [] \<and> \<not> plain_byte (hd w)"
    using white_space_ends by (auto simp: hd_rev)
  with s show ?thesis
    by (simp add: trim_end_def strip_all_unchanged find_prefix_plain hd_rev)
qed

lemma trim_plain [str_simps]:
  "s = [] \<or> (plain_byte (hd s) \<and> plain_byte (last s)) \<Longrightarrow> trim s = s"
  by (auto simp: trim_def trim_start_plain trim_end_plain)

lemma trim_plain_all: "(\<And>c. c \<in> set s \<Longrightarrow> plain_byte c) \<Longrightarrow> trim s = s"
  by (rule trim_plain) auto

lemma lines_join_newline:
  assumes "\<And>l. l \<in> set ls \<Longrightarrow> char_of (10 :: nat) \<notin> set l"
  shows "lines (concat (map (\<lambda>l. l @ [char_of (10 :: nat)]) ls)) = map strip_cr ls"
proof -
  let ?nl = "char_of (10 :: nat) :: char"
  have "split_on ?nl (concat (map (\<lambda>l. l @ [?nl]) ls)) = ls @ [[]]"
    using assms by (induction ls) (auto simp: split_on_append)
  then show ?thesis by (simp add: lines_def)
qed

section \<open>Numbers, characters and binary search\<close>

text \<open>\<open>i64::from_str\<close>: an optional sign, at least one decimal digit, no overflow.\<close>

definition digit_val :: "char \<Rightarrow> nat option" where
  "digit_val c = (let n = of_char c :: nat in if 48 \<le> n \<and> n \<le> 57 then Some (n - 48) else None)"

fun parse_digits :: "nat \<Rightarrow> string \<Rightarrow> nat option" where
  "parse_digits acc [] = Some acc"
| "parse_digits acc (c # cs) =
     (case digit_val c of None \<Rightarrow> None | Some d \<Rightarrow> parse_digits (10 * acc + d) cs)"

definition parse_nat :: "string \<Rightarrow> nat option" where
  "parse_nat s = (if s = [] then None else parse_digits 0 s)"

definition parse_i64 :: "string \<Rightarrow> int option" where
  "parse_i64 s =
     (let n = (case s of
                 [] \<Rightarrow> None
               | c # cs \<Rightarrow>
                   if c = CHR ''-'' then map_option (\<lambda>n. - int n) (parse_nat cs)
                   else if c = CHR ''+'' then map_option int (parse_nat cs)
                   else map_option int (parse_nat s))
      in case n of
           None \<Rightarrow> None
         | Some i \<Rightarrow> if - (2 ^ 63) \<le> i \<and> i < 2 ^ 63 then Some i else None)"

text \<open>\<open>str::chars().count()\<close>: the bytes of a UTF-8 text that are not continuation bytes.\<close>

definition chars_count :: "string \<Rightarrow> nat" where
  "chars_count s = length (filter (\<lambda>c. \<not> (128 \<le> (of_char c :: nat) \<and> (of_char c :: nat) < 192)) s)"

text \<open>Lower case of the ASCII letters.\<close>

definition ascii_lower :: "char \<Rightarrow> char" where
  "ascii_lower c = (let n = of_char c :: nat in if 65 \<le> n \<and> n \<le> 90 then char_of (n + 32) else c)"

text \<open>\<open>slice::binary_search_by_key\<close>: the loop of the standard library.\<close>

function binary_search_loop :: "'k::linorder list \<Rightarrow> 'k \<Rightarrow> nat \<Rightarrow> nat \<Rightarrow> nat" where
  "binary_search_loop ks k base sz =
     (if sz \<le> 1 then base
      else let half = sz div 2; mid = base + half
           in binary_search_loop ks k (if k < ks ! mid then base else mid) (sz - half))"
  by pat_completeness auto
termination
  by (relation "measure (\<lambda>(ks, k, base, sz). sz)") auto

declare binary_search_loop.simps [simp del]

definition binary_search :: "'k::linorder list \<Rightarrow> 'k \<Rightarrow> nat option" where
  "binary_search ks k =
     (if ks = [] then None
      else let i = binary_search_loop ks k 0 (length ks) in if ks ! i = k then Some i else None)"

definition find_by_key :: "'k::linorder \<Rightarrow> ('k \<times> 'v) list \<Rightarrow> 'v option" where
  "find_by_key k xs = map_option (\<lambda>i. snd (xs ! i)) (binary_search (map fst xs) k)"

lemma binary_search_loop_bounds:
  "1 \<le> sz \<Longrightarrow> base \<le> binary_search_loop ks k base sz \<and> binary_search_loop ks k base sz < base + sz"
proof (induction ks k base sz rule: binary_search_loop.induct)
  case (1 ks k base sz)
  show ?case
  proof (cases "sz \<le> 1")
    case True
    then have "binary_search_loop ks k base sz = base"
      by (simp add: binary_search_loop.simps [of ks k base sz])
    with "1.prems" show ?thesis by simp
  next
    case False
    let ?b = "if k < ks ! (base + sz div 2) then base else base + sz div 2"
    have "?b \<le> binary_search_loop ks k ?b (sz - sz div 2) \<and>
          binary_search_loop ks k ?b (sz - sz div 2) < ?b + (sz - sz div 2)"
      using "1.IH" False by auto
    then show ?thesis
      using False by (auto simp: binary_search_loop.simps [of ks k base sz] Let_def split: if_splits)
  qed
qed

lemma binary_search_loop_finds:
  assumes "sorted_wrt (<) ks" and "base + sz \<le> length ks" and "base \<le> j" and "j < base + sz"
    and "ks ! j = k"
  shows "binary_search_loop ks k base sz = j"
  using assms
proof (induction ks k base sz rule: binary_search_loop.induct)
  case (1 ks k base sz)
  show ?case
  proof (cases "sz \<le> 1")
    case True
    with "1.prems" show ?thesis by (simp add: binary_search_loop.simps [of ks k base sz])
  next
    case False
    let ?mid = "base + sz div 2"
    have mid: "?mid < length ks" using False "1.prems"(2) by auto
    have "k < ks ! ?mid \<longleftrightarrow> j < ?mid"
    proof
      assume "k < ks ! ?mid"
      then show "j < ?mid"
        using "1.prems" mid by (metis linorder_neqE_nat not_less_iff_gr_or_eq order.asym sorted_wrt_nth_less
            le_less_trans less_le_trans)
    next
      assume "j < ?mid"
      then show "k < ks ! ?mid"
        using "1.prems"(1,5) mid by (auto simp: sorted_wrt_nth_less)
    qed
    with "1.IH" "1.prems" False
    have "binary_search_loop ks k (if k < ks ! ?mid then base else ?mid) (sz - sz div 2) = j"
      by auto
    then show ?thesis
      using False by (simp add: binary_search_loop.simps [of ks k base sz] Let_def)
  qed
qed

lemma binary_search_iff:
  assumes "sorted_wrt (<) ks"
  shows "binary_search ks k = Some i \<longleftrightarrow> i < length ks \<and> ks ! i = k"
proof
  assume "binary_search ks k = Some i"
  then show "i < length ks \<and> ks ! i = k"
    using binary_search_loop_bounds [of "length ks" 0 ks k]
    by (auto simp: binary_search_def Let_def Suc_le_eq split: if_splits)
next
  assume i: "i < length ks \<and> ks ! i = k"
  then have "binary_search_loop ks k 0 (length ks) = i"
    using binary_search_loop_finds [OF assms, of 0 "length ks" i k] by simp
  with i show "binary_search ks k = Some i"
    by (auto simp: binary_search_def Let_def)
qed

text \<open>On a strictly sorted table the binary search is the lookup of the key.\<close>

lemma find_by_key_map_of:
  assumes "sorted_wrt (<) (map fst xs)"
  shows "find_by_key k xs = map_of xs k"
proof (cases "binary_search (map fst xs) k")
  case None
  have "k \<notin> fst ` set xs"
  proof
    assume "k \<in> fst ` set xs"
    then obtain i where "i < length (map fst xs)" and "map fst xs ! i = k"
      by (metis in_set_conv_nth list.set_map)
    then show False
      using None binary_search_iff [OF assms] by (metis option.distinct(1))
  qed
  then have "map_of xs k = None" by (simp add: map_of_eq_None_iff)
  then show ?thesis using None by (simp add: find_by_key_def)
next
  case (Some i)
  then have i: "i < length xs" "fst (xs ! i) = k"
    using binary_search_iff [OF assms, of k i] by auto
  have "distinct (map fst xs)" using assms by (simp add: strict_sorted_iff)
  with i have "map_of xs k = Some (snd (xs ! i))"
    by (metis map_of_is_SomeI nth_mem prod.collapse)
  then show ?thesis using Some by (simp add: find_by_key_def)
qed

lemma find_by_key_Some_in: "find_by_key k xs = Some v \<Longrightarrow> v \<in> snd ` set xs"
  using binary_search_loop_bounds [of "length xs" 0 "map fst xs" k]
  by (auto simp: find_by_key_def binary_search_def Let_def Suc_le_eq split: if_splits intro!: imageI)

lemma parse_digits_bound: "parse_digits acc s = Some n \<Longrightarrow> acc \<le> n"
  by (induction acc s rule: parse_digits.induct) (force split: option.splits)+

lemma parse_i64_range: "parse_i64 s = Some i \<Longrightarrow> - (2 ^ 63) \<le> i \<and> i < 2 ^ 63"
  by (auto simp: parse_i64_def Let_def split: option.splits if_splits)

text \<open>The decimal text of a number, as \<open>Display\<close> prints it.\<close>

definition digit_char :: "nat \<Rightarrow> char" where
  "digit_char d = char_of (48 + d)"

fun show_nat :: "nat \<Rightarrow> string" where
  "show_nat n = (if n < 10 then [digit_char n] else show_nat (n div 10) @ [digit_char (n mod 10)])"

declare show_nat.simps [simp del]

definition show_int :: "int \<Rightarrow> string" where
  "show_int i = (if i < 0 then CHR ''-'' # show_nat (nat (- i)) else show_nat (nat i))"

lemma digit_val_digit_char [simp]: "d < 10 \<Longrightarrow> digit_val (digit_char d) = Some d"
  by (simp add: digit_val_def digit_char_def)

lemma parse_digits_append:
  "parse_digits acc (s @ t) = (case parse_digits acc s of None \<Rightarrow> None | Some n \<Rightarrow> parse_digits n t)"
  by (induction acc s rule: parse_digits.induct) (auto split: option.splits)

lemma show_nat_not_Nil [simp]: "show_nat n \<noteq> []"
  by (subst show_nat.simps) simp

lemma parse_digits_show_nat: "parse_digits 0 (show_nat n) = Some n"
proof (induction n rule: show_nat.induct)
  case (1 n)
  show ?case
  proof (cases "n < 10")
    case True
    then show ?thesis by (simp add: show_nat.simps [of n])
  next
    case False
    with 1 have "parse_digits 0 (show_nat (n div 10)) = Some (n div 10)" by simp
    with False show ?thesis
      by (simp add: show_nat.simps [of n] parse_digits_append)
  qed
qed

lemma parse_nat_show_nat [str_simps]: "parse_nat (show_nat n) = Some n"
  by (simp add: parse_nat_def parse_digits_show_nat)

lemma show_nat_digits: "c \<in> set (show_nat n) \<Longrightarrow> \<exists>d < 10. c = digit_char d"
proof (induction n rule: show_nat.induct)
  case (1 n)
  then show ?case
    by (cases "n < 10") (auto simp: show_nat.simps [of n] intro: exI [of _ "n mod 10"])
qed

end
