(* ===== verification/Rust_Maps.thy ===== *)
theory Rust_Maps
  imports Prelude "HOL-Library.AList"
begin

text \<open>
  The two dictionaries of Rust's standard library, and the contract the components use them by.

  A \<open>HashMap\<close> iterates in an order the program must not depend on: its model is an association
  list with distinct keys, whose order stands for any order, so a fact about a \<^const>\<open>map_of\<close> of
  such a list holds for every iteration order. A \<open>BTreeMap\<close> iterates in key order: its model is
  an association list sorted by key. The locale \<open>rust_map\<close> is the contract of \<open>get\<close>, \<open>insert\<close>,
  \<open>remove\<close> and iteration; both dictionaries interpret it.
\<close>

type_synonym ('k, 'v) hash_map = "('k \<times> 'v) list"
type_synonym ('k, 'v) btree_map = "('k \<times> 'v) list"

section \<open>The contract\<close>

locale rust_map =
  fixes empty :: "'m"
    and get :: "'m \<Rightarrow> 'k \<Rightarrow> 'v option"
    and put :: "'k \<Rightarrow> 'v \<Rightarrow> 'm \<Rightarrow> 'm"
    and del :: "'k \<Rightarrow> 'm \<Rightarrow> 'm"
    and entries :: "'m \<Rightarrow> ('k \<times> 'v) list"
    and invar :: "'m \<Rightarrow> bool"
  assumes get_empty: "get empty k = None"
    and get_put: "invar m \<Longrightarrow> get (put k v m) k' = (if k' = k then Some v else get m k')"
    and get_del: "invar m \<Longrightarrow> get (del k m) k' = (if k' = k then None else get m k')"
    and invar_empty: "invar empty"
    and invar_put: "invar m \<Longrightarrow> invar (put k v m)"
    and invar_del: "invar m \<Longrightarrow> invar (del k m)"
    and entries_get: "invar m \<Longrightarrow> map_of (entries m) k = get m k"
    and entries_distinct: "invar m \<Longrightarrow> distinct (map fst (entries m))"
begin

lemma entries_iff: "invar m \<Longrightarrow> (k, v) \<in> set (entries m) \<longleftrightarrow> get m k = Some v"
  using entries_get [of m k] entries_distinct [of m] by (metis map_of_eq_Some_iff)

lemma entries_Nil_iff: "invar m \<Longrightarrow> entries m = [] \<longleftrightarrow> (\<forall>k. get m k = None)"
  using entries_get [of m] by (cases "entries m") (auto split: if_splits, metis option.distinct(1))

text \<open>Collecting an iterator of pairs: a later pair replaces an earlier one of the same key.\<close>

lemma invar_collect: "invar m \<Longrightarrow> invar (fold (\<lambda>(k, v). put k v) kvs m)"
  by (induction kvs arbitrary: m) (auto simp: invar_put)

lemma get_collect:
  "invar m \<Longrightarrow>
     get (fold (\<lambda>(k, v). put k v) kvs m) k =
       (case map_of (rev kvs) k of None \<Rightarrow> get m k | Some v \<Rightarrow> Some v)"
proof (induction kvs arbitrary: m)
  case (Cons kv kvs)
  then show ?case
    by (cases kv) (auto simp: invar_put get_put map_add_def split: option.splits)
qed simp

lemma get_collect_distinct:
  assumes "invar m" and "distinct (map fst kvs)"
  shows "get (fold (\<lambda>(k, v). put k v) kvs m) k =
           (case map_of kvs k of None \<Rightarrow> get m k | Some v \<Rightarrow> Some v)"
proof -
  have "map_of (rev kvs) = map_of kvs"
    using assms(2) by (intro map_of_inject_set [THEN iffD2]) (auto simp: rev_map [symmetric])
  then show ?thesis using get_collect [OF assms(1), of kvs k] by simp
qed

lemma del_absent: "invar m \<Longrightarrow> get m k = None \<Longrightarrow> get (del k m) k' = get m k'"
  by (simp add: get_del)

end

section \<open>\<open>HashMap\<close>\<close>

definition hm_get :: "('k, 'v) hash_map \<Rightarrow> 'k \<Rightarrow> 'v option" where
  "hm_get m k = map_of m k"

definition hm_insert :: "'k \<Rightarrow> 'v \<Rightarrow> ('k, 'v) hash_map \<Rightarrow> ('k, 'v) hash_map" where
  "hm_insert k v m = AList.update k v m"

definition hm_remove :: "'k \<Rightarrow> ('k, 'v) hash_map \<Rightarrow> ('k, 'v) hash_map" where
  "hm_remove k m = AList.delete k m"

definition hm_contains_key :: "('k, 'v) hash_map \<Rightarrow> 'k \<Rightarrow> bool" where
  "hm_contains_key m k = (hm_get m k \<noteq> None)"

definition hm_wf :: "('k, 'v) hash_map \<Rightarrow> bool" where
  "hm_wf m = distinct (map fst m)"

text \<open>\<open>entry(k).or_default()\<close> followed by a change \<open>f\<close> of the value, and \<open>get_mut(k)\<close> followed
  by one.\<close>

definition hm_entry :: "'k \<Rightarrow> 'v \<Rightarrow> ('v \<Rightarrow> 'v) \<Rightarrow> ('k, 'v) hash_map \<Rightarrow> ('k, 'v) hash_map" where
  "hm_entry k d f m = hm_insert k (f (case hm_get m k of None \<Rightarrow> d | Some v \<Rightarrow> v)) m"

definition hm_get_mut :: "'k \<Rightarrow> ('v \<Rightarrow> 'v) \<Rightarrow> ('k, 'v) hash_map \<Rightarrow> ('k, 'v) hash_map" where
  "hm_get_mut k f m = (case hm_get m k of None \<Rightarrow> m | Some v \<Rightarrow> hm_insert k (f v) m)"

interpretation hm: rust_map "[]" hm_get hm_insert hm_remove "\<lambda>m. m" hm_wf
  by unfold_locales
     (auto simp: hm_get_def hm_insert_def hm_remove_def hm_wf_def update_conv' delete_conv'
        distinct_update distinct_delete)

lemma hm_wf_Nil [simp]: "hm_wf []"
  by (simp add: hm_wf_def)

lemma hm_get_Nil [simp]: "hm_get [] k = None"
  by (simp add: hm_get_def)

lemma hm_get_hm_insert [simp]: "hm_get (hm_insert k v m) k' = (if k' = k then Some v else hm_get m k')"
  by (simp add: hm_get_def hm_insert_def update_conv')

lemma hm_get_hm_remove [simp]: "hm_get (hm_remove k m) k' = (if k' = k then None else hm_get m k')"
  by (simp add: hm_get_def hm_remove_def delete_conv')

lemma hm_get_hm_entry [simp]:
  "hm_get (hm_entry k d f m) k' =
     (if k' = k then Some (f (case hm_get m k of None \<Rightarrow> d | Some v \<Rightarrow> v)) else hm_get m k')"
  by (simp add: hm_entry_def)

lemma hm_get_hm_get_mut [simp]:
  "hm_get (hm_get_mut k f m) k' = (if k' = k then map_option f (hm_get m k) else hm_get m k')"
  by (auto simp: hm_get_mut_def split: option.splits)

lemma hm_get_Some_iff: "hm_wf m \<Longrightarrow> hm_get m k = Some v \<longleftrightarrow> (k, v) \<in> set m"
  by (simp add: hm.entries_iff)

lemma hm_get_SomeD: "hm_get m k = Some v \<Longrightarrow> (k, v) \<in> set m"
  by (simp add: hm_get_def map_of_SomeD)

lemma hm_get_None_iff: "hm_get m k = None \<longleftrightarrow> k \<notin> fst ` set m"
  by (simp add: hm_get_def map_of_eq_None_iff)

lemma hm_wf_intros [intro]:
  "hm_wf m \<Longrightarrow> hm_wf (hm_insert k v m)"
  "hm_wf m \<Longrightarrow> hm_wf (hm_remove k m)"
  "hm_wf m \<Longrightarrow> hm_wf (hm_entry k d f m)"
  "hm_wf m \<Longrightarrow> hm_wf (hm_get_mut k f m)"
  by (auto simp: hm_entry_def hm_get_mut_def hm.invar_put hm.invar_del split: option.splits)

lemma set_hm_insert: "x \<in> set (hm_insert k v m) \<Longrightarrow> x = (k, v) \<or> x \<in> set m"
  by (induction m) (auto simp: hm_insert_def split: if_splits)

lemma set_hm_remove: "x \<in> set (hm_remove k m) \<Longrightarrow> x \<in> set m"
  by (auto simp: hm_remove_def AList.delete_eq)

section \<open>\<open>BTreeMap\<close>\<close>

fun bm_insert :: "'k::linorder \<Rightarrow> 'v \<Rightarrow> ('k, 'v) btree_map \<Rightarrow> ('k, 'v) btree_map" where
  "bm_insert k v [] = [(k, v)]"
| "bm_insert k v ((k', v') # m) =
     (if k < k' then (k, v) # (k', v') # m
      else if k = k' then (k, v) # m
      else (k', v') # bm_insert k v m)"

definition bm_get :: "('k, 'v) btree_map \<Rightarrow> 'k \<Rightarrow> 'v option" where
  "bm_get m k = map_of m k"

definition bm_remove :: "'k \<Rightarrow> ('k, 'v) btree_map \<Rightarrow> ('k, 'v) btree_map" where
  "bm_remove k m = filter (\<lambda>(k', _). k' \<noteq> k) m"

definition bm_wf :: "('k::linorder, 'v) btree_map \<Rightarrow> bool" where
  "bm_wf m = sorted_wrt (<) (map fst m)"

lemma bm_wf_Nil [simp]: "bm_wf []"
  by (simp add: bm_wf_def)

lemma bm_get_Nil [simp]: "bm_get [] k = None"
  by (simp add: bm_get_def)

lemma bm_get_Cons: "bm_get ((k, v) # m) k' = (if k' = k then Some v else bm_get m k')"
  by (simp add: bm_get_def)

lemma set_bm_insert: "set (map fst (bm_insert k v m)) = insert k (set (map fst m))"
  by (induction k v m rule: bm_insert.induct) auto

lemma bm_get_bm_insert [simp]:
  "bm_get (bm_insert k v m) k' = (if k' = k then Some v else bm_get m k')"
  by (induction k v m rule: bm_insert.induct) (auto simp: bm_get_Cons)

lemma bm_get_bm_remove [simp]:
  "bm_get (bm_remove k m) k' = (if k' = k then None else bm_get m k')"
  by (induction m) (auto simp: bm_get_Cons bm_remove_def bm_get_def)

lemma bm_wf_bm_insert [intro]: "bm_wf m \<Longrightarrow> bm_wf (bm_insert k v m)"
proof (induction k v m rule: bm_insert.induct)
  case (2 k v k' v' m)
  then show ?case
    using set_bm_insert [of k v m] by (auto simp: bm_wf_def)
qed (simp add: bm_wf_def)

lemma bm_wf_bm_remove [intro]: "bm_wf m \<Longrightarrow> bm_wf (bm_remove k m)"
  by (auto simp: bm_wf_def bm_remove_def sorted_wrt_map intro: sorted_wrt_filter)

lemma bm_wf_distinct: "bm_wf m \<Longrightarrow> distinct (map fst m)"
  by (auto simp: bm_wf_def strict_sorted_iff)

interpretation bm: rust_map "[]" bm_get bm_insert bm_remove "\<lambda>m. m" bm_wf
  by unfold_locales (auto simp: bm_wf_distinct, simp add: bm_get_def)

lemma bm_get_SomeD: "bm_get m k = Some v \<Longrightarrow> (k, v) \<in> set m"
  by (simp add: bm_get_def map_of_SomeD)

lemma set_bm_insert_subset: "x \<in> set (bm_insert k v m) \<Longrightarrow> x = (k, v) \<or> x \<in> set m"
  by (induction k v m rule: bm_insert.induct) (auto split: if_splits)

lemma bm_wf_map_values [simp]: "bm_wf (map (\<lambda>(k, v). (k, f v)) m) = bm_wf m"
  by (simp add: bm_wf_def comp_def case_prod_unfold)

lemma bm_get_map_values [simp]: "bm_get (map (\<lambda>(k, v). (k, f v)) m) k = map_option f (bm_get m k)"
  by (induction m) (auto simp: bm_get_Cons bm_get_def)

end
