(* ===== verification/Schema.thy ===== *)
theory Schema
  imports Complex_Main Rust_Maps
begin

text \<open>
  The schema language of \<open>proxmox-schema/src/schema.rs\<close>: the types that describe API parameters,
  the lookup of a property through aliases, \<open>allOf\<close> and \<open>oneOf\<close>, the property iterators and the
  verification of a JSON value. Descriptions and the documentation-only fields are left out.

  The regular expression engine, the conversions between text, integers and \<open>f64\<close>, and the
  property-string deserializer (\<open>de::verify\<close>) are the fields of the record \<open>schema_env\<close>.
\<close>

section \<open>Values and errors\<close>

text \<open>A finite \<open>f64\<close> is a rational; \<open>Infinity True\<close> is the negative one.\<close>

datatype f64 = NaN | Infinity bool | Finite rat

fun f64_less :: "f64 \<Rightarrow> f64 \<Rightarrow> bool" where
  "f64_less NaN _ = False"
| "f64_less _ NaN = False"
| "f64_less (Infinity a) (Infinity b) = (a \<and> \<not> b)"
| "f64_less (Infinity a) (Finite y) = a"
| "f64_less (Finite x) (Infinity b) = (\<not> b)"
| "f64_less (Finite x) (Finite y) = (x < y)"

text \<open>\<open>serde_json::Value\<close>; the map of an object iterates in key order.\<close>

datatype json =
    JNull
  | JBool bool
  | JInt int
  | JFloat f64
  | JString string
  | JArray "json list"
  | JObject "(string \<times> json) list"

definition as_i64 :: "json \<Rightarrow> int option" where
  "as_i64 v = (case v of JInt i \<Rightarrow> if - (2 ^ 63) \<le> i \<and> i < 2 ^ 63 then Some i else None | _ \<Rightarrow> None)"

definition as_str :: "json \<Rightarrow> string option" where
  "as_str v = (case v of JString s \<Rightarrow> Some s | _ \<Rightarrow> None)"

text \<open>\<open>anyhow::Error\<close>: a message, or a \<open>ParameterError\<close> with its list of paths.\<close>

datatype error =
    Msg string
  | MinimumValue int int
  | MaximumValue int int
  | MinimumNumber f64 f64
  | MaximumNumber f64 f64
  | MinLength nat
  | MaxLength nat
  | ArrayMinLength nat
  | ArrayMaxLength nat
  | NotInEnumeration string
  | MissingType string
  | TypeNotString string
  | InvalidType string string
  | InvalidVariant string
  | CannotSetBoth string string
  | CannotSetBothAliases string string
  | ArrayElement error
  | ParameterError "(string \<times> error) list"

type_synonym param_errors = "(string \<times> error) list"

fun join_path :: "string \<Rightarrow> string \<Rightarrow> string" where
  "join_path [] b = b"
| "join_path a [] = a"
| "join_path a b = a @ ''/'' @ b"

fun add_errors :: "string \<Rightarrow> error \<Rightarrow> param_errors \<Rightarrow> param_errors" where
  "add_errors prefix (ParameterError es) errs = errs @ map (\<lambda>(k, e). (join_path prefix k, e)) es"
| "add_errors prefix e errs = errs @ [(prefix, e)]"

fun extend_unreported :: "param_errors \<Rightarrow> param_errors \<Rightarrow> param_errors" where
  "extend_unreported errs [] = errs"
| "extend_unreported errs ((path, e) # other) =
     extend_unreported (if path \<in> fst ` set errs then errs else errs @ [(path, e)]) other"

definition errors_result :: "param_errors \<Rightarrow> 'a \<Rightarrow> (error, 'a) result" where
  "errors_result errs x = (if errs = [] then Inr x else Inl (ParameterError errs))"

section \<open>Schemas\<close>

datatype schema =
    NullSchema
  | BooleanSchema "bool option"
  | IntegerSchema "int option" "int option" "int option"
  | NumberSchema "f64 option" "f64 option" "f64 option"
  | StringSchema "nat option" "nat option" "api_string_format option" bool
  | ObjectSchema "(string \<times> bool \<times> schema) list" bool "string option" "(string \<times> string) list"
  | ArraySchema schema "nat option" "nat option"
  | AllOfSchema "schema list"
  | OneOfSchema "string \<times> bool \<times> schema" "(string \<times> schema) list"
and api_string_format =
    Enum "string list"
  | Pattern string
  | PropertyString schema
  | VerifyFn "string \<Rightarrow> error option"

type_synonym property_entry = "string \<times> bool \<times> schema"
type_synonym with_type_field = "string \<Rightarrow> string option"

record schema_env =
  is_match :: "string \<Rightarrow> string \<Rightarrow> bool"
  parse_f64 :: "string \<Rightarrow> f64 option"
  int_as_f64 :: "int \<Rightarrow> f64"
  de_verify :: "schema \<Rightarrow> string \<Rightarrow> error option"

text \<open>The assertions of the constructors: sorted tables without duplicates, aliases that point to
  a property and shadow none, only objects below \<open>allOf\<close> and \<open>oneOf\<close>, no variant with the type
  property of its \<open>oneOf\<close>.\<close>

fun is_object_schema :: "schema \<Rightarrow> bool" where
  "is_object_schema (ObjectSchema _ _ _ _) = True"
| "is_object_schema (AllOfSchema _) = True"
| "is_object_schema (OneOfSchema _ _) = True"
| "is_object_schema _ = False"

definition properties_sorted :: "(string \<times> 'a) list \<Rightarrow> bool" where
  "properties_sorted ps = sorted_wrt (<) (map fst ps)"

definition property_aliases_valid :: "(string \<times> string) list \<Rightarrow> (string \<times> 'a) list \<Rightarrow> bool" where
  "property_aliases_valid al ps =
     (properties_sorted al \<and>
      (\<forall>(alias, target) \<in> set al. alias \<notin> fst ` set ps \<and> target \<in> fst ` set ps))"

lemma size_property [termination_simp]:
  "(n, opt, s) \<in> set ps \<Longrightarrow>
     size s < Suc (size_list (size_prod (\<lambda>_. 0) (size_prod (\<lambda>_. 0) size)) ps)"
  by (induction ps) auto

lemma size_variant [termination_simp]:
  "(n, s) \<in> set vs \<Longrightarrow> size s < Suc (Suc (size_list (size_prod (\<lambda>_. 0) size) vs))"
  by (induction vs) auto

fun const_has_parameter :: "string \<Rightarrow> bool \<Rightarrow> schema \<Rightarrow> bool" where
  "const_has_parameter name addp (ObjectSchema ps ap dk al) =
     ((addp \<and> ap) \<or> list_ex (\<lambda>p. fst p = name) ps)"
| "const_has_parameter name addp (AllOfSchema list) = list_ex (const_has_parameter name addp) list"
| "const_has_parameter name addp (OneOfSchema te list) =
     (fst te = name \<or> list_ex (\<lambda>(_, s). const_has_parameter name addp s) list)"
| "const_has_parameter name addp _ = False"

section \<open>Lookup\<close>

text \<open>\<open>Iterator::find_map\<close>.\<close>

fun find_map :: "('a \<Rightarrow> 'b option) \<Rightarrow> 'a list \<Rightarrow> 'b option" where
  "find_map f [] = None"
| "find_map f (x # xs) = (case f x of None \<Rightarrow> find_map f xs | Some y \<Rightarrow> Some y)"

lemma find_map_cong [fundef_cong]:
  "xs = ys \<Longrightarrow> (\<And>x. x \<in> set ys \<Longrightarrow> f x = g x) \<Longrightarrow> find_map f xs = find_map g ys"
  by (induction xs arbitrary: ys) (auto split: option.splits)

lemma find_map_None_iff: "find_map f xs = None \<longleftrightarrow> (\<forall>x \<in> set xs. f x = None)"
  by (induction xs) (auto split: option.splits)

lemma find_map_Some: "find_map f xs = Some y \<Longrightarrow> \<exists>x \<in> set xs. f x = Some y"
  by (induction xs) (auto split: option.splits)

text \<open>A schema below \<open>allOf\<close> or \<open>oneOf\<close> that is no object is refused by the constructors; the
  lookups find nothing in it.\<close>

fun lookup_alias :: "schema \<Rightarrow> string \<Rightarrow> string option" where
  "lookup_alias (ObjectSchema ps ap dk al) key = find_by_key key al"
| "lookup_alias (AllOfSchema list) key = find_map (\<lambda>s. lookup_alias s key) list"
| "lookup_alias (OneOfSchema te list) key = find_map (\<lambda>(_, s). lookup_alias s key) list"
| "lookup_alias _ key = None"

definition lookup_with_canonical_name ::
  "property_entry list \<Rightarrow> (string \<times> string) list \<Rightarrow> string \<Rightarrow> property_entry option" where
  "lookup_with_canonical_name ps al key =
     (let key' = (case find_by_key key al of Some c \<Rightarrow> c | None \<Rightarrow> key)
      in map_option (\<lambda>e. (key', e)) (find_by_key key' ps))"

definition object_lookup ::
  "property_entry list \<Rightarrow> (string \<times> string) list \<Rightarrow> string \<Rightarrow> (bool \<times> schema) option" where
  "object_lookup ps al key = map_option snd (lookup_with_canonical_name ps al key)"

definition lookup_variant :: "(string \<times> schema) list \<Rightarrow> string \<Rightarrow> schema option" where
  "lookup_variant list name = find_by_key name list"

lemma lookup_variant_in: "lookup_variant list name = Some s \<Longrightarrow> \<exists>v. (v, s) \<in> set list"
  unfolding lookup_variant_def by (drule find_by_key_Some_in) auto

lemma size_variant_snd: "(n, s) \<in> set vs \<Longrightarrow> size s < size_list (\<lambda>x. Suc (size (snd x))) vs"
  by (induction vs) auto

lemma size_lookup_variant [termination_simp]:
  assumes "lookup_variant list name = Some s"
  shows "size s < Suc (Suc (Suc (n + size_list (\<lambda>x. Suc (size (snd x))) list)))"
  using lookup_variant_in [OF assms] size_variant_snd [of _ s list] by (meson le_add2 less_SucI less_le_trans)

function (sequential) lookup_schema ::
  "schema \<Rightarrow> string \<Rightarrow> with_type_field \<Rightarrow> (bool \<times> schema) option" where
  "lookup_schema (ObjectSchema ps ap dk al) key gt = object_lookup ps al key"
| "lookup_schema (AllOfSchema list) key gt = find_map (\<lambda>s. lookup_schema s key gt) list"
| "lookup_schema (OneOfSchema te list) key gt =
     (if key = fst te then Some (snd te)
      else case gt (fst te) of
             None \<Rightarrow> None
           | Some variant \<Rightarrow>
               (case lookup_variant list variant of
                  None \<Rightarrow> None
                | Some s \<Rightarrow> lookup_schema s key gt))"
| "lookup_schema _ key gt = None"
  by pat_completeness auto
termination
  by (relation "measure (\<lambda>(s, _, _). size s)") (auto simp: termination_simp)

fun additional_properties :: "schema \<Rightarrow> bool" where
  "additional_properties (ObjectSchema ps ap dk al) = ap"
| "additional_properties (AllOfSchema list) = list_ex additional_properties list"
| "additional_properties (OneOfSchema te list) = list_ex (\<lambda>(_, s). additional_properties s) list"
| "additional_properties _ = False"

fun default_key :: "schema \<Rightarrow> string option" where
  "default_key (ObjectSchema ps ap dk al) = dk"
| "default_key (AllOfSchema list) = find_map default_key list"
| "default_key _ = None"

function (sequential) verify_type_fields :: "schema \<Rightarrow> with_type_field \<Rightarrow> param_errors" where
  "verify_type_fields (AllOfSchema list) gt = concat (map (\<lambda>s. verify_type_fields s gt) list)"
| "verify_type_fields (OneOfSchema te list) gt =
     (case gt (fst te) of
        None \<Rightarrow> []
      | Some variant \<Rightarrow>
          (case lookup_variant list variant of
             Some s \<Rightarrow> verify_type_fields s gt
           | None \<Rightarrow> [(fst te, InvalidVariant variant)]))"
| "verify_type_fields _ gt = []"
  by pat_completeness auto
termination
  by (relation "measure (\<lambda>(s, _). size s)") (auto simp: termination_simp)

section \<open>The property iterators\<close>

type_synonym conditions = "(string \<times> string) list"
type_synonym property_item = "property_entry \<times> conditions"

text \<open>An iterator is a stack, the innermost schema first: \<open>PropertiesIter\<close> with the items that
  are left, and the two states of \<open>PropertiesIterOneOf\<close>.\<close>

datatype properties_iter =
    IObject "property_entry list"
  | IAllOf "schema list"
  | ITypeProperty property_entry "(string \<times> schema) list"
  | IVariants "(string \<times> schema) list"

text \<open>\<open>PropertyConditions::enter_condition\<close>: the variants to go through.\<close>

definition active_variants ::
  "with_type_field option \<Rightarrow> string \<Rightarrow> (string \<times> schema) list \<Rightarrow> (string \<times> schema) list" where
  "active_variants get_type tp list =
     (case get_type of
        None \<Rightarrow> list
      | Some gt \<Rightarrow>
          (case gt tp of
             None \<Rightarrow> []
           | Some variant \<Rightarrow>
               (case binary_search (map fst list) variant of
                  None \<Rightarrow> []
                | Some i \<Rightarrow> [list ! i])))"

definition update_condition :: "string \<Rightarrow> conditions \<Rightarrow> string option \<Rightarrow> conditions" where
  "update_condition v cs new =
     (case new of
        Some tp \<Rightarrow> cs @ [(tp, v)]
      | None \<Rightarrow> butlast cs @ [(fst (last cs), v)])"

definition pop_condition :: "conditions \<Rightarrow> string option \<Rightarrow> conditions" where
  "pop_condition cs new = (case new of Some _ \<Rightarrow> cs | None \<Rightarrow> butlast cs)"

fun push_iter :: "schema \<Rightarrow> properties_iter list" where
  "push_iter (ObjectSchema ps ap dk al) = [IObject ps]"
| "push_iter (AllOfSchema list) = [IAllOf list]"
| "push_iter (OneOfSchema te list) = [ITypeProperty te list]"
| "push_iter _ = []"

text \<open>What is left to do in a schema and in an iterator: every step makes it smaller.\<close>

fun weight :: "schema \<Rightarrow> nat" where
  "weight (ObjectSchema ps ap dk al) = 2 + length ps"
| "weight (AllOfSchema list) = 2 + sum_list (map (\<lambda>s. Suc (weight s)) list)"
| "weight (OneOfSchema te list) = 3 + sum_list (map (\<lambda>(_, s). Suc (weight s)) list)"
| "weight _ = 1"

fun iter_weight :: "properties_iter \<Rightarrow> nat" where
  "iter_weight (IObject ps) = 1 + length ps"
| "iter_weight (IAllOf list) = 1 + sum_list (map (\<lambda>s. Suc (weight s)) list)"
| "iter_weight (ITypeProperty te list) = 2 + sum_list (map (\<lambda>(_, s). Suc (weight s)) list)"
| "iter_weight (IVariants list) = 1 + sum_list (map (\<lambda>(_, s). Suc (weight s)) list)"

lemma push_iter_weight: "sum_list (map iter_weight (push_iter s)) < Suc (weight s)"
  by (cases s) auto

lemma active_variants_subset: "set (active_variants get_type tp list) \<subseteq> set list"
  using binary_search_loop_bounds [of "length list" 0 "map fst list"]
  by (auto simp: active_variants_def binary_search_def Let_def Suc_le_eq
      split: option.splits if_splits)

lemma active_variants_cases:
  "active_variants get_type tp list = list \<or>
   (\<exists>x \<in> set list. active_variants get_type tp list = [x]) \<or>
   active_variants get_type tp list = []"
  using active_variants_subset [of get_type tp list]
  by (auto simp: active_variants_def split: option.splits)

lemma active_variants_weight:
  "sum_list (map (\<lambda>(_, s). Suc (weight s)) (active_variants get_type tp list)) \<le>
   sum_list (map (\<lambda>(_, s). Suc (weight s)) list)"
  using active_variants_cases [of get_type tp list]
proof (elim disjE bexE)
  fix x assume x: "x \<in> set list" and act: "active_variants get_type tp list = [x]"
  have "(case x of (_, s) \<Rightarrow> Suc (weight s)) \<in> set (map (\<lambda>(_, s). Suc (weight s)) list)"
    using x by (simp add: rev_image_eqI)
  from member_le_sum_list [OF this] show ?thesis by (simp add: act)
qed simp_all

text \<open>\<open>AllProperties::next\<close> until it returns \<open>None\<close>.\<close>

function (sequential) all_properties_loop ::
  "with_type_field option \<Rightarrow> properties_iter list \<Rightarrow> conditions \<Rightarrow> string option \<Rightarrow>
   property_item list" where
  "all_properties_loop gt [] cs new = []"
| "all_properties_loop gt (IObject [] # st) cs new = all_properties_loop gt st cs new"
| "all_properties_loop gt (IObject (e # es) # st) cs new =
     (e, cs) # all_properties_loop gt (IObject es # st) cs new"
| "all_properties_loop gt (IAllOf [] # st) cs new = all_properties_loop gt st cs new"
| "all_properties_loop gt (IAllOf (s # ss) # st) cs new =
     all_properties_loop gt (push_iter s @ IAllOf ss # st) cs new"
| "all_properties_loop gt (ITypeProperty e list # st) cs new =
     (e, cs) # all_properties_loop gt (IVariants (active_variants gt (fst e) list) # st) cs (Some (fst e))"
| "all_properties_loop gt (IVariants [] # st) cs new =
     all_properties_loop gt st (pop_condition cs new) None"
| "all_properties_loop gt (IVariants ((v, s) # vs) # st) cs new =
     all_properties_loop gt (push_iter s @ IVariants vs # st) (update_condition v cs new) None"
  by pat_completeness auto
termination
proof (relation "measure (\<lambda>(gt, st, cs, new). sum_list (map iter_weight st))", goal_cases)
  case (5 gt s ss st cs new)
  then show ?case using push_iter_weight [of s] by simp
next
  case (6 gt e list st cs new)
  then show ?case using active_variants_weight [of gt "fst e" list] by simp
next
  case (8 gt v s vs st cs new)
  then show ?case using push_iter_weight [of s] by simp
qed auto

definition all_properties :: "with_type_field option \<Rightarrow> schema \<Rightarrow> property_item list" where
  "all_properties gt s = all_properties_loop gt (push_iter s) [] None"

text \<open>The reference: the properties of a schema by recursion on the schema, each with the type
  properties and variants it was reached through.\<close>

function (sequential) properties_of ::
  "with_type_field option \<Rightarrow> conditions \<Rightarrow> schema \<Rightarrow> property_item list" where
  "properties_of gt cs (ObjectSchema ps ap dk al) = map (\<lambda>e. (e, cs)) ps"
| "properties_of gt cs (AllOfSchema list) = concat (map (properties_of gt cs) list)"
| "properties_of gt cs (OneOfSchema te list) =
     (te, cs) #
     concat (map (\<lambda>(v, s). properties_of gt (cs @ [(fst te, v)]) s) (active_variants gt (fst te) list))"
| "properties_of gt cs _ = []"
  by pat_completeness auto
termination
proof (relation "measure (\<lambda>(gt, cs, s). size s)", goal_cases)
  case (3 gt cs te list x v s)
  then have "(v, s) \<in> set list" using active_variants_subset by blast
  then show ?case using size_variant [of v s list] by (cases te) simp
qed (auto simp: termination_simp)

section \<open>Verification of JSON values\<close>

definition integer_check :: "int option \<Rightarrow> int option \<Rightarrow> int \<Rightarrow> (error, unit) result" where
  "integer_check mn mx v =
     (case mn of
        Some m \<Rightarrow> if v < m then Inl (MinimumValue m v)
                  else (case mx of Some x \<Rightarrow> if v > x then Inl (MaximumValue x v) else Inr () | None \<Rightarrow> Inr ())
      | None \<Rightarrow> (case mx of Some x \<Rightarrow> if v > x then Inl (MaximumValue x v) else Inr () | None \<Rightarrow> Inr ()))"

definition number_check :: "f64 option \<Rightarrow> f64 option \<Rightarrow> f64 \<Rightarrow> (error, unit) result" where
  "number_check mn mx v =
     and_then (case mn of Some m \<Rightarrow> if f64_less v m then Inl (MinimumNumber m v) else Inr () | None \<Rightarrow> Inr ())
       (\<lambda>_. case mx of Some x \<Rightarrow> if f64_less x v then Inl (MaximumNumber x v) else Inr () | None \<Rightarrow> Inr ())"

definition check_length ::
  "(nat \<Rightarrow> error) \<Rightarrow> (nat \<Rightarrow> error) \<Rightarrow> nat option \<Rightarrow> nat option \<Rightarrow> nat \<Rightarrow> (error, unit) result" where
  "check_length too_short too_long mn mx len =
     and_then (case mn of Some m \<Rightarrow> if len < m then Inl (too_short m) else Inr () | None \<Rightarrow> Inr ())
       (\<lambda>_. case mx of Some x \<Rightarrow> if len > x then Inl (too_long x) else Inr () | None \<Rightarrow> Inr ())"

definition string_check ::
  "schema_env \<Rightarrow> nat option \<Rightarrow> nat option \<Rightarrow> api_string_format option \<Rightarrow> bool \<Rightarrow> string \<Rightarrow>
   (error, unit) result" where
  "string_check env mn mx format format_is_optional v =
     and_then (check_length MinLength MaxLength mn mx (chars_count v))
       (\<lambda>_. if format_is_optional then Inr ()
            else case format of
                None \<Rightarrow> Inr ()
              | Some (Pattern regex) \<Rightarrow>
                  if is_match env regex v then Inr ()
                  else Inl (Msg ''value does not match the regex pattern'')
              | Some (Enum variants) \<Rightarrow>
                  if v \<in> set variants then Inr () else Inl (NotInEnumeration v)
              | Some (PropertyString sub) \<Rightarrow>
                  (case de_verify env sub v of None \<Rightarrow> Inr () | Some e \<Rightarrow> Inl e)
              | Some (VerifyFn f) \<Rightarrow> (case f v of None \<Rightarrow> Inr () | Some e \<Rightarrow> Inl e))"

definition type_field :: "(string \<times> json) list \<Rightarrow> with_type_field" where
  "type_field m name = Option.bind (bm_get m name) as_str"

text \<open>One entry of the object, after the alias checks.\<close>

definition verify_entry ::
  "schema \<Rightarrow> string \<Rightarrow> (error, unit) result option \<Rightarrow> param_errors \<Rightarrow> param_errors" where
  "verify_entry s key r errs =
     (case r of
        Some (Inl e) \<Rightarrow> add_errors key e errs
      | Some (Inr _) \<Rightarrow> errs
      | None \<Rightarrow> if additional_properties s then errs
                else errs @ [(key, Msg ''schema does not allow additional properties'')])"

text \<open>The loop over the entries: each comes with the verification of its value by the schema that
  is found for its key, if there is one.\<close>

fun verify_entries ::
  "schema \<Rightarrow> (string \<times> json) list \<Rightarrow> (string \<times> (error, unit) result option) list \<Rightarrow>
   string list \<Rightarrow> param_errors \<Rightarrow> param_errors" where
  "verify_entries s m [] seen errs = errs"
| "verify_entries s m ((key, r) # rest) seen errs =
     (case lookup_alias s key of
        Some c \<Rightarrow>
          if bm_get m c \<noteq> None then verify_entries s m rest seen (errs @ [(key, CannotSetBoth c key)])
          else if c \<in> set seen then
            verify_entries s m rest seen (errs @ [(key, CannotSetBothAliases key c)])
          else verify_entries s m rest (c # seen) (verify_entry s key r errs)
      | None \<Rightarrow> verify_entries s m rest seen (verify_entry s key r errs))"

definition missing_property :: "schema \<Rightarrow> (string \<times> json) list \<Rightarrow> property_entry \<Rightarrow> bool" where
  "missing_property s m e =
     (case e of (name, opt, _) \<Rightarrow>
        \<not> opt \<and> (bm_get m name = None \<or> bm_get m name = Some JNull) \<and>
        \<not> list_ex (\<lambda>(k, _). lookup_alias s k = Some name) m)"

definition missing_properties :: "schema \<Rightarrow> (string \<times> json) list \<Rightarrow> param_errors" where
  "missing_properties s m =
     map (\<lambda>e. (fst e, Msg ''property is missing and it is not optional''))
       (filter (missing_property s m) (map fst (all_properties (Some (type_field m)) s)))"

definition object_errors ::
  "schema \<Rightarrow> (string \<times> json) list \<Rightarrow> (string \<times> (error, unit) result option) list \<Rightarrow> param_errors" where
  "object_errors s m checks =
     extend_unreported (verify_entries s m checks [] [] @ missing_properties s m)
       (verify_type_fields s (type_field m))"

fun array_result :: "nat \<Rightarrow> (error, unit) result list \<Rightarrow> (error, unit) result" where
  "array_result i [] = Inr ()"
| "array_result i (Inl e # rs) =
     Inl (ParameterError [(''['' @ show_nat i @ '']'', e)])"
| "array_result i (Inr _ # rs) = array_result (Suc i) rs"

lemma size_json_entry: "(k, v) \<in> set m \<Longrightarrow> size v < Suc (size_list (size_prod (\<lambda>_. 0) size) m)"
  by (induction m) auto

lemma size_json_element: "v \<in> set list \<Longrightarrow> size v < Suc (size_list size (list :: json list))"
  by (induction list) auto

function (sequential) verify_json :: "schema_env \<Rightarrow> schema \<Rightarrow> json \<Rightarrow> (error, unit) result" where
  "verify_json env NullSchema data =
     (if data = JNull then Inr () else Inl (Msg ''Expected Null, but value is not Null.''))"
| "verify_json env (BooleanSchema d) data =
     (case data of JBool _ \<Rightarrow> Inr () | _ \<Rightarrow> Inl (Msg ''Expected boolean value.''))"
| "verify_json env (IntegerSchema mn mx d) data =
     (case as_i64 data of
        Some v \<Rightarrow> integer_check mn mx v
      | None \<Rightarrow> Inl (Msg ''Expected integer value.''))"
| "verify_json env (NumberSchema mn mx d) data =
     (case data of
        JInt i \<Rightarrow> number_check mn mx (int_as_f64 env i)
      | JFloat f \<Rightarrow> number_check mn mx f
      | _ \<Rightarrow> Inl (Msg ''Expected number value.''))"
| "verify_json env (StringSchema mn mx format fopt) data =
     (case as_str data of
        Some v \<Rightarrow> string_check env mn mx format fopt v
      | None \<Rightarrow> Inl (Msg ''Expected string value.''))"
| "verify_json env (ArraySchema items mn mx) data =
     (case data of
        JArray list \<Rightarrow>
          and_then (check_length ArrayMinLength ArrayMaxLength mn mx (length list))
            (\<lambda>_. array_result 0 (map (verify_json env items) list))
      | JObject _ \<Rightarrow> Inl (Msg ''Expected array - got object.'')
      | _ \<Rightarrow> Inl (Msg ''Expected array - got scalar value.''))"
| "verify_json env (OneOfSchema te list) data =
     (case data of
        JObject m \<Rightarrow>
          (case bm_get m (fst te) of
             None \<Rightarrow> Inl (MissingType (fst te))
           | Some (JString variant) \<Rightarrow>
               (case lookup_variant list variant of
                  None \<Rightarrow> Inl (InvalidType (fst te) variant)
                | Some s \<Rightarrow> verify_json env s data)
           | Some _ \<Rightarrow> Inl (TypeNotString (fst te)))
      | JArray _ \<Rightarrow> Inl (Msg ''Expected object - got array.'')
      | _ \<Rightarrow> Inl (Msg ''Expected object - got scalar value.''))"
| "verify_json env s data =
     (case data of
        JObject m \<Rightarrow>
          errors_result
            (object_errors s m
               (map (\<lambda>(k, v). (k, case lookup_schema s k (type_field m) of
                                   None \<Rightarrow> None
                                 | Some (_, sub) \<Rightarrow> Some (verify_json env sub v))) m)) ()
      | JArray _ \<Rightarrow> Inl (Msg ''Expected object - got array.'')
      | _ \<Rightarrow> Inl (Msg ''Expected object - got scalar value.''))"
  by pat_completeness auto
termination
  by (relation "measures [\<lambda>(env, s, data). size data, \<lambda>(env, s, data). size s]")
     (auto simp: termination_simp dest: size_json_entry size_json_element)

section \<open>The iterator enumerates the schema\<close>

lemma all_properties_loop_push:
  "all_properties_loop gt (push_iter s @ st) cs None =
     properties_of gt cs s @ all_properties_loop gt st cs None"
proof (induction gt cs s arbitrary: st rule: properties_of.induct)
  case (1 gt cs ps ap dk al)
  then show ?case by (induction ps) auto
next
  case (2 gt cs list)
  have "all_properties_loop gt (IAllOf ss # st) cs None =
          concat (map (properties_of gt cs) ss) @ all_properties_loop gt st cs None"
    if "set ss \<subseteq> set list" for ss
    using that 2 by (induction ss) auto
  then show ?case by simp
next
  case (3 gt cs te list)
  let ?act = "active_variants gt (fst te) list"
  let ?sub = "\<lambda>(v, s). properties_of gt (cs @ [(fst te, v)]) s"
  have later: "all_properties_loop gt (IVariants vs # st) (cs @ [(fst te, v0)]) None =
          concat (map ?sub vs) @ all_properties_loop gt st cs None"
    if "set vs \<subseteq> set ?act" for vs v0
    using that
  proof (induction vs arbitrary: v0)
    case (Cons x vs)
    obtain v s where x: "x = (v, s)" by fastforce
    with Cons.prems have "(v, s) \<in> set ?act" by auto
    from 3 [OF this refl, of "IVariants vs # st"] Cons x show ?case
      by (simp add: update_condition_def)
  qed (simp add: pop_condition_def)
  have "all_properties_loop gt (IVariants vs # st) cs (Some (fst te)) =
          concat (map ?sub vs) @ all_properties_loop gt st cs None"
    if "set vs \<subseteq> set ?act" for vs
  proof (cases vs)
    case (Cons x vs')
    obtain v s where x: "x = (v, s)" by fastforce
    with that Cons have "(v, s) \<in> set ?act" "set vs' \<subseteq> set ?act" by auto
    with 3 [OF this(1) refl, of "IVariants vs' # st"] later [of vs' v] Cons x show ?thesis
      by (simp add: update_condition_def)
  qed (simp add: pop_condition_def)
  then show ?case by simp
qed auto

text \<open>C21: The explicit-stack iterator of \<open>AllProperties\<close>, with its staged conditions, terminates
  and yields exactly the properties of the schema in order: those of an object, of every member of
  an \<open>allOf\<close>, the type property of a \<open>oneOf\<close> and then the properties of the variants the type data
  selects (all variants without type data), each with the type values it was reached through.\<close>

theorem all_properties_enumerates: "all_properties gt s = properties_of gt [] s"
  using all_properties_loop_push [of gt s "[]" "[]"] by (simp add: all_properties_def)

end
