(* ===== verification/Schema_Lookup.thy ===== *)
theory Schema_Lookup
  imports Schema
begin

text \<open>
  \<open>LookupAll\<close> of \<open>proxmox-schema/src/schema.rs\<close>: every property of one name in a schema, with the
  conditions it exists under. The iterator is an explicit stack like \<open>AllProperties\<close>; it is proved
  equal to a recursion over the schema, and its conditions to be the ones \<open>lookup_schema\<close> decides by.
\<close>

section \<open>The iterator\<close>

datatype lookup_iter =
    LObject property_entry
  | LAllOf "schema list"
  | LTypeProperty property_entry "(string \<times> schema) list"
  | LVariants "(string \<times> schema) list"

fun lookup_push :: "string \<Rightarrow> schema \<Rightarrow> lookup_iter list" where
  "lookup_push name (ObjectSchema ps ap dk al) =
     (case lookup_with_canonical_name ps al name of Some e \<Rightarrow> [LObject e] | None \<Rightarrow> [])"
| "lookup_push name (AllOfSchema list) = [LAllOf list]"
| "lookup_push name (OneOfSchema te list) = [LTypeProperty te list]"
| "lookup_push name _ = []"

fun lookup_weight :: "lookup_iter \<Rightarrow> nat" where
  "lookup_weight (LObject e) = 1"
| "lookup_weight (LAllOf list) = 1 + sum_list (map (\<lambda>s. Suc (weight s)) list)"
| "lookup_weight (LTypeProperty te list) = 2 + sum_list (map (\<lambda>(_, s). Suc (weight s)) list)"
| "lookup_weight (LVariants list) = 1 + sum_list (map (\<lambda>(_, s). Suc (weight s)) list)"

lemma lookup_push_weight: "sum_list (map lookup_weight (lookup_push name s)) < Suc (weight s)"
  by (cases s) (auto split: option.splits)

function (sequential) lookup_all_loop ::
  "string \<Rightarrow> lookup_iter list \<Rightarrow> conditions \<Rightarrow> string option \<Rightarrow> property_item list" where
  "lookup_all_loop name [] cs new = []"
| "lookup_all_loop name (LObject e # st) cs new = (e, cs) # lookup_all_loop name st cs new"
| "lookup_all_loop name (LAllOf [] # st) cs new = lookup_all_loop name st cs new"
| "lookup_all_loop name (LAllOf (s # ss) # st) cs new =
     lookup_all_loop name (lookup_push name s @ LAllOf ss # st) cs new"
| "lookup_all_loop name (LTypeProperty e list # st) cs new =
     (if name = fst e
      then (e, pop_condition cs (Some (fst e))) #
             lookup_all_loop name st (pop_condition cs (Some (fst e))) None
      else lookup_all_loop name (LVariants (active_variants None (fst e) list) # st) cs (Some (fst e)))"
| "lookup_all_loop name (LVariants [] # st) cs new =
     lookup_all_loop name st (pop_condition cs new) None"
| "lookup_all_loop name (LVariants ((v, s) # vs) # st) cs new =
     lookup_all_loop name (lookup_push name s @ LVariants vs # st) (update_condition v cs new) None"
  by pat_completeness auto
termination
proof (relation "measure (\<lambda>(name, st, cs, new). sum_list (map lookup_weight st))", goal_cases)
  case (4 name s ss st cs new)
  then show ?case using lookup_push_weight [of name s] by simp
next
  case (6 name e list st cs new)
  then show ?case using active_variants_weight [of None "fst e" list] by simp
next
  case (8 name v s vs st cs new)
  then show ?case using lookup_push_weight [of name s] by simp
qed auto

definition lookup_all :: "schema \<Rightarrow> string \<Rightarrow> property_item list" where
  "lookup_all s name = lookup_all_loop name (lookup_push name s) [] None"

text \<open>The reference: by recursion on the schema.\<close>

fun lookup_in :: "string \<Rightarrow> conditions \<Rightarrow> schema \<Rightarrow> property_item list" where
  "lookup_in name cs (ObjectSchema ps ap dk al) =
     (case lookup_with_canonical_name ps al name of Some e \<Rightarrow> [(e, cs)] | None \<Rightarrow> [])"
| "lookup_in name cs (AllOfSchema list) = concat (map (lookup_in name cs) list)"
| "lookup_in name cs (OneOfSchema te list) =
     (if name = fst te then [(te, cs)]
      else concat (map (\<lambda>(v, s). lookup_in name (cs @ [(fst te, v)]) s) list))"
| "lookup_in name cs _ = []"

lemma lookup_all_loop_push:
  "lookup_all_loop name (lookup_push name s @ st) cs None =
     lookup_in name cs s @ lookup_all_loop name st cs None"
proof (induction name cs s arbitrary: st rule: lookup_in.induct)
  case (1 name cs ps ap dk al)
  then show ?case by (auto split: option.splits)
next
  case (2 name cs list)
  have "lookup_all_loop name (LAllOf ss # st) cs None =
          concat (map (lookup_in name cs) ss) @ lookup_all_loop name st cs None"
    if "set ss \<subseteq> set list" for ss
    using that 2 by (induction ss) auto
  then show ?case by simp
next
  case (3 name cs te list)
  let ?sub = "\<lambda>(v, s). lookup_in name (cs @ [(fst te, v)]) s"
  have later: "lookup_all_loop name (LVariants vs # st) (cs @ [(fst te, v0)]) None =
          concat (map ?sub vs) @ lookup_all_loop name st cs None"
    if "set vs \<subseteq> set list" and "name \<noteq> fst te" for vs v0
    using that
  proof (induction vs arbitrary: v0)
    case (Cons x vs)
    obtain v s where x: "x = (v, s)" by fastforce
    with Cons.prems have "(v, s) \<in> set list" by auto
    from 3 [OF that(2) this refl, of "LVariants vs # st"] Cons x show ?case
      by (simp add: update_condition_def)
  qed (simp add: pop_condition_def)
  have "lookup_all_loop name (LVariants vs # st) cs (Some (fst te)) =
          concat (map ?sub vs) @ lookup_all_loop name st cs None"
    if "set vs \<subseteq> set list" and "name \<noteq> fst te" for vs
  proof (cases vs)
    case (Cons x vs')
    obtain v s where x: "x = (v, s)" by fastforce
    with that Cons have "(v, s) \<in> set list" "set vs' \<subseteq> set list" by auto
    with 3 [OF that(2) this(1) refl, of "LVariants vs' # st"] later [of vs' v] that(2) Cons x show ?thesis
      by (simp add: update_condition_def)
  qed (simp add: pop_condition_def)
  then show ?case by (simp add: active_variants_def pop_condition_def)
qed auto

lemma lookup_all_eq: "lookup_all s name = lookup_in name [] s"
  using lookup_all_loop_push [of name s "[]" "[]"] by (simp add: lookup_all_def)

section \<open>Conditions\<close>

definition conditions_hold :: "with_type_field \<Rightarrow> conditions \<Rightarrow> bool" where
  "conditions_hold gt cs = list_all (\<lambda>(tp, v). gt tp = Some v) cs"

fun variants_sorted :: "schema \<Rightarrow> bool" where
  "variants_sorted (AllOfSchema list) = list_all variants_sorted list"
| "variants_sorted (OneOfSchema te list) =
     (properties_sorted list \<and> list_all (\<lambda>(_, s). variants_sorted s) list)"
| "variants_sorted _ = True"

lemma lookup_in_conditions: "(e, ds) \<in> set (lookup_in name cs s) \<Longrightarrow> \<exists>es. ds = cs @ es"
proof (induction name cs s rule: lookup_in.induct)
  case (3 name cs te list)
  then show ?case by (cases "name = fst te") fastforce+
qed (auto split: option.splits)

lemma find_append: "List.find Q (xs @ ys) = (case List.find Q xs of Some x \<Rightarrow> Some x | None \<Rightarrow> List.find Q ys)"
  by (induction xs) auto

lemma find_concat_map:
  "map_option g (List.find Q (concat (map f xs))) = find_map (\<lambda>x. map_option g (List.find Q (f x))) xs"
  by (induction xs) (auto simp: find_append split: option.splits)

text \<open>Only the variant named by the type data contributes.\<close>

lemma find_map_variant:
  assumes "properties_sorted list" and "\<And>v s. (v, s) \<in> set list \<Longrightarrow> gt \<noteq> Some v \<Longrightarrow> f v s = None"
  shows "find_map (\<lambda>(v, s). f v s) list =
           (case gt of None \<Rightarrow> None
            | Some v \<Rightarrow> (case lookup_variant list v of None \<Rightarrow> None | Some s \<Rightarrow> f v s))"
proof -
  have sorted: "sorted_wrt (<) (map fst list)" using assms(1) by (simp add: properties_sorted_def)
  have "find_map (\<lambda>(v, s). f v s) list =
          (case gt of None \<Rightarrow> None | Some v \<Rightarrow> (case map_of list v of None \<Rightarrow> None | Some s \<Rightarrow> f v s))"
    using sorted assms(2)
  proof (induction list)
    case (Cons x list)
    obtain v s where x: "x = (v, s)" by fastforce
    have IH: "find_map (\<lambda>(v, s). f v s) list =
        (case gt of None \<Rightarrow> None | Some v \<Rightarrow> (case map_of list v of None \<Rightarrow> None | Some s \<Rightarrow> f v s))"
      using Cons by (auto simp: x)
    show ?case
    proof (cases "gt = Some v")
      case True
      moreover have "map_of list v = None"
        using Cons.prems(1) by (auto simp: x map_of_eq_None_iff)
      ultimately show ?thesis using IH by (auto simp: x split: option.splits)
    next
      case False
      with Cons.prems(2) [of v s] IH show ?thesis by (auto simp: x split: option.splits)
    qed
  qed (simp split: option.splits)
  then show ?thesis unfolding lookup_variant_def find_by_key_map_of [OF sorted] .
qed

lemma lookup_in_fails: "\<not> conditions_hold gt cs \<Longrightarrow> List.find (\<lambda>(e, ds). conditions_hold gt ds) (lookup_in name cs s) = None"
  by (auto simp: find_None_iff conditions_hold_def dest!: lookup_in_conditions)

lemma lookup_schema_find:
  "variants_sorted s \<Longrightarrow> conditions_hold gt cs \<Longrightarrow>
     lookup_schema s name gt =
       map_option (snd \<circ> fst) (List.find (\<lambda>(e, ds). conditions_hold gt ds) (lookup_in name cs s))"
proof (induction name cs s rule: lookup_in.induct)
  case (1 name cs ps ap dk al)
  then show ?case by (auto simp: object_lookup_def split: option.splits)
next
  case (2 name cs list)
  then show ?case
    by (simp add: find_concat_map) (rule find_map_cong, auto simp: list_all_iff)
next
  case (3 name cs te list)
  show ?case
  proof (cases "name = fst te")
    case False
    let ?f = "\<lambda>v s. map_option (snd \<circ> fst)
      (List.find (\<lambda>(e, ds). conditions_hold gt ds) (lookup_in name (cs @ [(fst te, v)]) s))"
    have miss: "?f v s = None" if "(v, s) \<in> set list" "gt (fst te) \<noteq> Some v" for v s
      using that lookup_in_fails [of gt "cs @ [(fst te, v)]" name s] by (simp add: conditions_hold_def)
    have hit: "lookup_schema s name gt = ?f v s" if "(v, s) \<in> set list" "gt (fst te) = Some v" for v s
    proof -
      have "variants_sorted s" and "conditions_hold gt (cs @ [(fst te, v)])"
        using "3.prems" that by (auto simp: conditions_hold_def list_all_iff)
      then show ?thesis by (rule "3.IH" [OF False that(1) refl])
    qed
    have found: "(v, s) \<in> set list" if "lookup_variant list v = Some s" for v s
      using that "3.prems"(1) by (auto simp: lookup_variant_def find_by_key_map_of properties_sorted_def dest: map_of_SomeD)
    have "map_option (snd \<circ> fst) (List.find (\<lambda>(e, ds). conditions_hold gt ds) (lookup_in name cs (OneOfSchema te list)))
        = find_map (\<lambda>(v, s). ?f v s) list"
      using False by (simp add: find_concat_map case_prod_unfold)
    also have "\<dots> = (case gt (fst te) of None \<Rightarrow> None
        | Some v \<Rightarrow> (case lookup_variant list v of None \<Rightarrow> None | Some s \<Rightarrow> ?f v s))"
      using "3.prems"(1) miss by (intro find_map_variant) auto
    also have "\<dots> = lookup_schema (OneOfSchema te list) name gt"
      using False hit [OF found] by (simp split: option.split)
    finally show ?thesis by (rule sym)
  qed (use 3 in simp)
qed simp_all

text \<open>C26: \<open>lookup_all\<close> yields the properties of a name together with the exact conditions under which
  \<open>lookup_schema\<close> finds them: for any type data, \<open>lookup_schema\<close> returns the first item of
  \<open>lookup_all\<close> whose conditions (type property and variant) hold in that data, and nothing if there is
  none.\<close>

theorem lookup_all_decides_lookup_schema:
  assumes "variants_sorted s"
  shows "lookup_schema s name gt =
           map_option (snd \<circ> fst) (List.find (\<lambda>(e, ds). conditions_hold gt ds) (lookup_all s name))"
  using lookup_schema_find [OF assms, of gt "[]"] by (simp add: lookup_all_eq conditions_hold_def)

theorem lookup_all_decides_lookup_schema_witness:
  "lookup_schema
     (OneOfSchema (''type'', False, StringSchema None None None False)
        [(''a'', ObjectSchema [(''x'', False, IntegerSchema None None None)] False None []),
         (''b'', ObjectSchema [(''x'', True, NullSchema)] False None [(''y'', ''x'')])])
     ''y'' [''type'' \<mapsto> ''b''] = Some (True, NullSchema)"
proof -
  let ?s = "OneOfSchema (''type'', False, StringSchema None None None False)
        [(''a'', ObjectSchema [(''x'', False, IntegerSchema None None None)] False None []),
         (''b'', ObjectSchema [(''x'', True, NullSchema)] False None [(''y'', ''x'')])]"
  have "''a'' < ''b''" by code_simp
  then have wf: "variants_sorted ?s" by (simp add: properties_sorted_def)
  have "lookup_all ?s ''y'' = [((''x'', True, NullSchema), [(''type'', ''b'')])]"
    by (simp add: lookup_all_def lookup_with_canonical_name_def find_by_key_map_of active_variants_def
        update_condition_def pop_condition_def)
  then show ?thesis
    unfolding lookup_all_decides_lookup_schema [OF wf] by (simp add: conditions_hold_def)
qed

end
