(* ===== verification/Schema_Verify.thy ===== *)
theory Schema_Verify
  imports Schema
begin

text \<open>
  What \<open>verify_json\<close> accepts, stated without its error bookkeeping: the inductive relation
  \<open>conforms\<close> between a schema and a value, and the proof that the code accepts a value exactly
  when it conforms. A last section is about \<open>oneOf\<close> schemas used on their own.

  The hypotheses on a schema and its environment exclude one degenerate error: a verification
  function that fails with a \<open>ParameterError\<close> without entries, which the caller would drop.
\<close>

section \<open>Conformance\<close>

definition in_bounds :: "nat option \<Rightarrow> nat option \<Rightarrow> nat \<Rightarrow> bool" where
  "in_bounds mn mx n = ((\<forall>m. mn = Some m \<longrightarrow> m \<le> n) \<and> (\<forall>m. mx = Some m \<longrightarrow> n \<le> m))"

definition format_accepts :: "schema_env \<Rightarrow> api_string_format option \<Rightarrow> string \<Rightarrow> bool" where
  "format_accepts env format v =
     (case format of
        None \<Rightarrow> True
      | Some (Pattern regex) \<Rightarrow> is_match env regex v
      | Some (Enum variants) \<Rightarrow> v \<in> set variants
      | Some (PropertyString sub) \<Rightarrow> de_verify env sub v = None
      | Some (VerifyFn f) \<Rightarrow> f v = None)"

definition keys_consistent :: "schema \<Rightarrow> (string \<times> json) list \<Rightarrow> bool" where
  "keys_consistent s m =
     ((\<forall>k \<in> fst ` set m. \<forall>c. lookup_alias s k = Some c \<longrightarrow> c \<notin> fst ` set m) \<and>
      (\<forall>k \<in> fst ` set m. \<forall>k' \<in> fst ` set m. k \<noteq> k' \<and> lookup_alias s k \<noteq> None \<longrightarrow>
          lookup_alias s k \<noteq> lookup_alias s k'))"

definition required_present :: "schema \<Rightarrow> (string \<times> json) list \<Rightarrow> bool" where
  "required_present s m =
     (\<forall>((name, opt, sub), cs) \<in> set (properties_of (Some (type_field m)) [] s).
        opt \<or> (\<exists>v. bm_get m name = Some v \<and> v \<noteq> JNull) \<or>
        (\<exists>k \<in> fst ` set m. lookup_alias s k = Some name))"

text \<open>The schemas that verify an object by the default method of the trait.\<close>

fun plain_object :: "schema \<Rightarrow> bool" where
  "plain_object (ObjectSchema _ _ _ _) = True"
| "plain_object (AllOfSchema _) = True"
| "plain_object _ = False"

inductive conforms :: "schema_env \<Rightarrow> schema \<Rightarrow> json \<Rightarrow> bool" for env where
  null: "conforms env NullSchema JNull"
| boolean: "conforms env (BooleanSchema d) (JBool b)"
| integer: "as_i64 v = Some i \<Longrightarrow> (\<And>m. mn = Some m \<Longrightarrow> m \<le> i) \<Longrightarrow> (\<And>m. mx = Some m \<Longrightarrow> i \<le> m) \<Longrightarrow>
     conforms env (IntegerSchema mn mx d) v"
| number: "v = JInt i \<and> f = int_as_f64 env i \<or> v = JFloat f \<Longrightarrow>
     (\<And>m. mn = Some m \<Longrightarrow> \<not> f64_less f m) \<Longrightarrow> (\<And>m. mx = Some m \<Longrightarrow> \<not> f64_less m f) \<Longrightarrow>
     conforms env (NumberSchema mn mx d) v"
| string: "in_bounds mn mx (chars_count v) \<Longrightarrow> fopt \<or> format_accepts env format v \<Longrightarrow>
     conforms env (StringSchema mn mx format fopt) (JString v)"
| array: "in_bounds mn mx (length list) \<Longrightarrow> (\<And>x. x \<in> set list \<Longrightarrow> conforms env items x) \<Longrightarrow>
     conforms env (ArraySchema items mn mx) (JArray list)"
| one_of: "bm_get m (fst te) = Some (JString variant) \<Longrightarrow> lookup_variant list variant = Some s \<Longrightarrow>
     conforms env s (JObject m) \<Longrightarrow> conforms env (OneOfSchema te list) (JObject m)"
| object: "plain_object s \<Longrightarrow>
     (\<And>k v opt sub. (k, v) \<in> set m \<Longrightarrow> lookup_schema s k (type_field m) = Some (opt, sub) \<Longrightarrow>
        conforms env sub v) \<Longrightarrow>
     (\<And>k v. (k, v) \<in> set m \<Longrightarrow> lookup_schema s k (type_field m) = None \<Longrightarrow> additional_properties s) \<Longrightarrow>
     keys_consistent s m \<Longrightarrow> required_present s m \<Longrightarrow> verify_type_fields s (type_field m) = [] \<Longrightarrow>
     conforms env s (JObject m)"

inductive_simps conforms_simps:
  "conforms env NullSchema v"
  "conforms env (BooleanSchema d) v"
  "conforms env (IntegerSchema mn mx d) v"
  "conforms env (NumberSchema mn mx d) v"
  "conforms env (StringSchema mn mx format fopt) v"
  "conforms env (ArraySchema items mn mx) v"
  "conforms env (OneOfSchema te list) v"

inductive_simps conforms_object_simps:
  "conforms env (ObjectSchema ps ap dk al) v"
  "conforms env (AllOfSchema list) v"

fun json_wf :: "json \<Rightarrow> bool" where
  "json_wf (JArray list) = list_all json_wf list"
| "json_wf (JObject m) = (bm_wf m \<and> list_all (\<lambda>(_, v). json_wf v) m)"
| "json_wf _ = True"

fun fns_proper :: "schema \<Rightarrow> bool" where
  "fns_proper (StringSchema mn mx (Some (VerifyFn f)) fopt) = (\<forall>v. f v \<noteq> Some (ParameterError []))"
| "fns_proper (ObjectSchema ps ap dk al) = list_all (\<lambda>(_, _, s). fns_proper s) ps"
| "fns_proper (ArraySchema items mn mx) = fns_proper items"
| "fns_proper (AllOfSchema list) = list_all fns_proper list"
| "fns_proper (OneOfSchema te list) = (fns_proper (snd (snd te)) \<and> list_all (\<lambda>(_, s). fns_proper s) list)"
| "fns_proper _ = True"

definition env_proper :: "schema_env \<Rightarrow> bool" where
  "env_proper env = (\<forall>s v. de_verify env s v \<noteq> Some (ParameterError []))"

lemma lookup_variant_all:
  "list_all (\<lambda>(_, s). P s) list \<Longrightarrow> lookup_variant list v = Some s \<Longrightarrow> P s"
  by (auto simp: list_all_iff dest!: lookup_variant_in)

lemma lookup_schema_proper:
  "fns_proper s \<Longrightarrow> lookup_schema s k gt = Some (opt, sub) \<Longrightarrow> fns_proper sub"
proof (induction s k gt rule: lookup_schema.induct)
  case (1 ps ap dk al key gt)
  then show ?case
    by (auto simp: object_lookup_def lookup_with_canonical_name_def Let_def list_all_iff
        dest!: find_by_key_Some_in)
next
  case (2 list key gt)
  then show ?case by (auto simp: list_all_iff dest!: find_map_Some)
next
  case (3 te list key gt)
  then show ?case
    by (fastforce simp: list_all_iff split: if_splits option.splits dest: lookup_variant_in)
qed auto


lemma distinct_map_filter_iff:
  "distinct xs \<Longrightarrow>
     distinct (List.map_filter f xs) \<longleftrightarrow>
       (\<forall>x \<in> set xs. \<forall>y \<in> set xs. x \<noteq> y \<and> f x \<noteq> None \<longrightarrow> f x \<noteq> f y)"
proof (induction xs)
  case (Cons x xs)
  have "set (List.map_filter f xs) = {y. \<exists>z \<in> set xs. f z = Some y}"
    by (force simp: map_filter_def)
  with Cons show ?case by (cases "f x") (auto simp: map_filter_simps, metis+)
qed (simp add: map_filter_simps)

lemma add_errors_Nil_iff: "add_errors k e errs = [] \<longleftrightarrow> errs = [] \<and> e = ParameterError []"
  by (cases e) auto

lemma extend_unreported_Nil_iff: "extend_unreported errs other = [] \<longleftrightarrow> errs = [] \<and> other = []"
  by (induction errs other rule: extend_unreported.induct) auto

lemma verify_entry_Nil_iff:
  "r \<noteq> Some (Inl (ParameterError [])) \<Longrightarrow>
     verify_entry s k r errs = [] \<longleftrightarrow>
       errs = [] \<and> (case r of None \<Rightarrow> additional_properties s | Some x \<Rightarrow> is_ok x)"
  by (auto simp: verify_entry_def add_errors_Nil_iff split: option.splits sum.splits)

lemma verify_entries_Nil_iff:
  assumes "\<And>k r. (k, r) \<in> set es \<Longrightarrow> r \<noteq> Some (Inl (ParameterError []))"
  shows "verify_entries s m es seen errs = [] \<longleftrightarrow>
           errs = [] \<and>
           (\<forall>(k, r) \<in> set es. (case r of None \<Rightarrow> additional_properties s | Some x \<Rightarrow> is_ok x) \<and>
              (\<forall>c. lookup_alias s k = Some c \<longrightarrow> bm_get m c = None \<and> c \<notin> set seen)) \<and>
           distinct (List.map_filter (\<lambda>(k, _). lookup_alias s k) es)"
  using assms
proof (induction es arbitrary: seen errs)
  case (Cons kr es)
  obtain k r where kr: "kr = (k, r)" by fastforce
  have r: "r \<noteq> Some (Inl (ParameterError []))" using Cons.prems kr by auto
  have set: "set (List.map_filter (\<lambda>(k, _). lookup_alias s k) es) =
               {c. \<exists>(k, r) \<in> set es. lookup_alias s k = Some c}"
    by (force simp: map_filter_def)
  note IH = Cons.IH [OF Cons.prems [OF list.set_intros(2)]]
  show ?case
    by (cases "lookup_alias s k") (auto simp: kr map_filter_simps verify_entry_Nil_iff [OF r] set IH)
qed (simp add: map_filter_simps)


lemma string_check_ok:
  "string_check env mn mx format fopt v = Inr () \<longleftrightarrow>
     in_bounds mn mx (chars_count v) \<and> (fopt \<or> format_accepts env format v)"
  by (auto simp: string_check_def check_length_def in_bounds_def format_accepts_def
      split: option.splits api_string_format.splits)

lemma check_length_ok: "check_length f g mn mx n = Inr () \<longleftrightarrow> in_bounds mn mx n"
  by (auto simp: check_length_def in_bounds_def split: option.splits)

lemma array_result_ok: "array_result i rs = Inr () \<longleftrightarrow> (\<forall>r \<in> set rs. is_ok r)"
  by (induction i rs rule: array_result.induct) auto

lemma array_result_proper: "array_result i rs \<noteq> Inl (ParameterError [])"
  by (induction i rs rule: array_result.induct) auto

lemma verify_json_proper:
  "env_proper env \<Longrightarrow> fns_proper s \<Longrightarrow> verify_json env s v \<noteq> Inl (ParameterError [])"
proof (induction env s v rule: verify_json.induct)
  case (5 env mn mx format fopt data)
  then show ?case
    by (cases format)
       (auto simp: string_check_def check_length_def and_then_def env_proper_def
         split: option.splits api_string_format.splits if_splits sum.splits)
next
  case (6 env items mn mx data)
  then show ?case
    by (auto simp: check_length_def and_then_def array_result_proper split: option.splits json.splits sum.splits if_splits)
next
  case (7 env te list data)
  then show ?case
    by (fastforce simp: list_all_iff split: json.splits option.splits dest: lookup_variant_in)
qed (auto simp: integer_check_def number_check_def and_then_def errors_result_def
      split: json.splits option.splits if_splits sum.splits)


definition entry_checks ::
  "schema_env \<Rightarrow> schema \<Rightarrow> (string \<times> json) list \<Rightarrow> (string \<times> (error, unit) result option) list" where
  "entry_checks env s m =
     map (\<lambda>(k, v). (k, case lookup_schema s k (type_field m) of
                         None \<Rightarrow> None
                       | Some (_, sub) \<Rightarrow> Some (verify_json env sub v))) m"

lemma missing_properties_Nil_iff: "missing_properties s m = [] \<longleftrightarrow> required_present s m"
  by (force simp: missing_properties_def required_present_def missing_property_def list_ex_iff
      filter_empty_conv all_properties_def all_properties_loop_push [of _ _ "[]", simplified])

lemma bm_get_None_iff: "bm_get m c = None \<longleftrightarrow> c \<notin> fst ` set m"
  by (simp add: bm_get_def map_of_eq_None_iff)

lemma map_filter_keys:
  "List.map_filter (\<lambda>(k, _). f k) (map (\<lambda>(k, v). (k, g k v)) m) = List.map_filter f (map fst m)"
  by (induction m) (auto simp: map_filter_simps split: option.splits)

lemma object_errors_Nil_iff:
  assumes "bm_wf m" and "env_proper env" and "fns_proper s"
  shows "object_errors s m (entry_checks env s m) = [] \<longleftrightarrow>
           (\<forall>(k, v) \<in> set m.
              (case lookup_schema s k (type_field m) of
                 None \<Rightarrow> additional_properties s
               | Some (_, sub) \<Rightarrow> verify_json env sub v = Inr ())) \<and>
           keys_consistent s m \<and> required_present s m \<and> verify_type_fields s (type_field m) = []"
proof -
  have proper: "r \<noteq> Some (Inl (ParameterError []))" if "(k, r) \<in> set (entry_checks env s m)" for k r
    using that assms(2,3) lookup_schema_proper [of s k "type_field m"] verify_json_proper
    by (fastforce simp: entry_checks_def split: option.splits)
  have filter: "List.map_filter (\<lambda>(k, _). lookup_alias s k) (entry_checks env s m) =
                List.map_filter (lookup_alias s) (map fst m)"
    unfolding entry_checks_def by (rule map_filter_keys)
  have ok: "is_ok r \<longleftrightarrow> r = Inr ()" for r :: "(error, unit) result"
    by (cases r) auto
  let ?good = "\<lambda>k v. case lookup_schema s k (type_field m) of
      None \<Rightarrow> additional_properties s | Some (_, sub) \<Rightarrow> verify_json env sub v = Inr ()"
  have "(\<forall>(k, r) \<in> set (entry_checks env s m).
            (case r of None \<Rightarrow> additional_properties s | Some x \<Rightarrow> is_ok x) \<and> Q k) \<longleftrightarrow>
        (\<forall>(k, v) \<in> set m. ?good k v) \<and> (\<forall>k \<in> fst ` set m. Q k)" for Q
    unfolding entry_checks_def set_map ball_simps case_prod_unfold fst_conv snd_conv ball_conj_distrib
    by (intro conj_cong ball_cong refl) (simp_all add: ok case_prod_unfold split: option.split)
  note entries = this [of "\<lambda>k. \<forall>c. lookup_alias s k = Some c \<longrightarrow> c \<notin> fst ` set m"]
  have "verify_entries s m (entry_checks env s m) [] [] = [] \<longleftrightarrow>
          (\<forall>(k, v) \<in> set m. ?good k v) \<and> keys_consistent s m"
    by (subst verify_entries_Nil_iff, erule proper)
       (simp add: entries filter distinct_map_filter_iff [OF bm_wf_distinct [OF assms(1)]]
         keys_consistent_def bm_get_None_iff)
  then show ?thesis
    by (auto simp: object_errors_def extend_unreported_Nil_iff missing_properties_Nil_iff)
qed


lemma errors_result_Inr_iff: "errors_result errs x = Inr y \<longleftrightarrow> errs = [] \<and> x = y"
  by (auto simp: errors_result_def)

lemma verify_json_object_iff:
  "plain_object s \<Longrightarrow>
     verify_json env s (JObject m) = Inr () \<longleftrightarrow> object_errors s m (entry_checks env s m) = []"
  unfolding entry_checks_def
  by (cases s) (simp_all add: errors_result_Inr_iff del: lookup_schema.simps)

lemma conforms_object_iff:
  assumes "plain_object s"
  shows "conforms env s (JObject m) \<longleftrightarrow>
       (\<forall>(k, v) \<in> set m.
          (case lookup_schema s k (type_field m) of
             None \<Rightarrow> additional_properties s
           | Some (_, sub) \<Rightarrow> conforms env sub v)) \<and>
       keys_consistent s m \<and> required_present s m \<and> verify_type_fields s (type_field m) = []"
    (is "_ \<longleftrightarrow> ?R")
proof
  assume "conforms env s (JObject m)"
  then show ?R
  proof cases
    case object
    then show ?thesis by (auto split: option.splits)
  qed (use assms in simp_all)
next
  assume R: ?R
  show "conforms env s (JObject m)"
  proof (rule conforms.object [OF assms])
    fix k v opt sub assume "(k, v) \<in> set m" "lookup_schema s k (type_field m) = Some (opt, sub)"
    with R show "conforms env sub v" by fastforce
  next
    fix k v assume "(k, v) \<in> set m" "lookup_schema s k (type_field m) = None"
    with R show "additional_properties s" by fastforce
  qed (use R in simp_all)
qed

lemma verify_json_object_conforms:
  assumes "plain_object s" and "env_proper env" and "fns_proper s" and "bm_wf m"
    and IH: "\<And>k v opt sub. (k, v) \<in> set m \<Longrightarrow> lookup_schema s k (type_field m) = Some (opt, sub) \<Longrightarrow>
              verify_json env sub v = Inr () \<longleftrightarrow> conforms env sub v"
  shows "verify_json env s (JObject m) = Inr () \<longleftrightarrow> conforms env s (JObject m)"
proof -
  have "(\<forall>(k, v) \<in> set m.
            (case lookup_schema s k (type_field m) of
               None \<Rightarrow> additional_properties s | Some (_, sub) \<Rightarrow> verify_json env sub v = Inr ())) \<longleftrightarrow>
        (\<forall>(k, v) \<in> set m.
            (case lookup_schema s k (type_field m) of
               None \<Rightarrow> additional_properties s | Some (_, sub) \<Rightarrow> conforms env sub v))"
    using IH by (intro ball_cong refl) (auto split: option.splits)
  then show ?thesis
    unfolding verify_json_object_iff [OF assms(1)] conforms_object_iff [OF assms(1)]
      object_errors_Nil_iff [OF assms(4,2,3)]
    by simp
qed

lemmas verify_json_cases = verify_json.induct
  [case_names null boolean integer number string array one_of object all_of]

lemma verify_json_iff_conforms:
  assumes "env_proper env" and "fns_proper s" and "json_wf v"
  shows "verify_json env s v = Inr () \<longleftrightarrow> conforms env s v"
  using assms
proof (induction env s v rule: verify_json_cases)
  case (integer env mn mx d data)
  then show ?case
    by (auto simp: conforms_simps integer_check_def split: option.splits)
next
  case (number env mn mx d data)
  then show ?case
    by (cases data) (auto simp: conforms_simps number_check_def and_then_def split: option.splits if_splits)
next
  case (string env mn mx format fopt data)
  then show ?case
    by (cases data) (auto simp: conforms_simps as_str_def string_check_ok)
next
  case (array env items mn mx data)
  then show ?case
    by (cases data)
       (auto simp: conforms_simps check_length_ok and_then_eq_Inr array_result_ok is_ok_iff list_all_iff)
next
  case (one_of env te list data)
  show ?case
  proof (cases data)
    case (JObject m)
    have "verify_json env s data = Inr () \<longleftrightarrow> conforms env s data"
      if "bm_get m (fst te) = Some (JString variant)" and "lookup_variant list variant = Some s"
      for variant s
      using one_of.IH [OF JObject that(1) refl that(2) one_of.prems(1) _ one_of.prems(3)] one_of.prems(2)
        lookup_variant_all [OF _ that(2), of fns_proper] by auto
    with JObject show ?thesis
      by (auto simp: conforms_simps split: option.splits json.splits)
  qed (auto simp: conforms_simps)
next
  case (object env ps ap dk al data)
  let ?s = "ObjectSchema ps ap dk al"
  show ?case
  proof (cases data)
    case (JObject m)
    with object have "bm_wf m" by simp
    moreover have "verify_json env sub v = Inr () \<longleftrightarrow> conforms env sub v"
      if "(k, v) \<in> set m" and "lookup_schema ?s k (type_field m) = Some (opt, sub)" for k v opt sub
    proof -
      have "fns_proper sub" using lookup_schema_proper [OF _ that(2)] object.prems(2) by blast
      moreover have "json_wf v" using object.prems(3) JObject that(1) by (auto simp: list_all_iff)
      ultimately show ?thesis
        using object.IH [OF JObject that(1) refl that(2) refl object.prems(1)] by blast
    qed
    ultimately show ?thesis
      using object.prems(1,2) JObject verify_json_object_conforms [of ?s env m] by simp
  qed (auto simp: conforms_object_simps)
next
  case (all_of env list data)
  let ?s = "AllOfSchema list"
  show ?case
  proof (cases data)
    case (JObject m)
    with all_of have "bm_wf m" by simp
    moreover have "verify_json env sub v = Inr () \<longleftrightarrow> conforms env sub v"
      if "(k, v) \<in> set m" and "lookup_schema ?s k (type_field m) = Some (opt, sub)" for k v opt sub
    proof -
      have "fns_proper sub" using lookup_schema_proper [OF _ that(2)] all_of.prems(2) by blast
      moreover have "json_wf v" using all_of.prems(3) JObject that(1) by (auto simp: list_all_iff)
      ultimately show ?thesis
        using all_of.IH [OF JObject that(1) refl that(2) refl all_of.prems(1)] by blast
    qed
    ultimately show ?thesis
      using all_of.prems(1,2) JObject verify_json_object_conforms [of ?s env m] by simp
  qed (auto simp: conforms_object_simps)
qed (auto simp: conforms_simps split: json.splits)

section \<open>Properties\<close>

text \<open>C22: For every schema and every JSON value with distinct sorted object keys, \<open>verify_json\<close>
  succeeds if and only if the value conforms to the schema: scalars within their limits and
  formats, arrays element by element, objects with every known property conforming, no unknown one
  unless allowed, no property set twice through an alias, every required property of the active
  variants present, and type properties that name a variant.\<close>

theorem verify_json_conforms:
  assumes "env_proper env" and "fns_proper s" and "json_wf v"
  shows "verify_json env s v = Inr () \<longleftrightarrow> conforms env s v"
  using assms by (rule verify_json_iff_conforms)

text \<open>Environments for concrete runs: no regular expression matches, numbers have no text.\<close>

definition plain_env :: schema_env where
  "plain_env = \<lparr>is_match = (\<lambda>_ _. False), parse_f64 = (\<lambda>_. None),
     int_as_f64 = (\<lambda>i. Finite (of_int i)), de_verify = (\<lambda>_ _. None)\<rparr>"

lemma env_proper_plain [simp]: "env_proper plain_env"
  by (simp add: env_proper_def plain_env_def)

theorem verify_json_conforms_witness:
  "conforms plain_env
     (ObjectSchema [(''n'', False, IntegerSchema (Some 0) None None)] False None [(''old'', ''n'')])
     (JObject [(''old'', JInt 5)])"
proof -
  let ?s = "ObjectSchema [(''n'', False, IntegerSchema (Some 0) None None)] False None [(''old'', ''n'')]"
  let ?v = "JObject [(''old'', JInt 5)]"
  have "verify_json plain_env ?s ?v = Inr ()"
    by code_simp
  moreover have "fns_proper ?s" and "json_wf ?v"
    by (simp_all add: bm_wf_def)
  ultimately show ?thesis
    using verify_json_conforms [of plain_env ?s ?v] by simp
qed

lemma verify_entries_keeps: "errs \<noteq> [] \<Longrightarrow> verify_entries s m es seen errs \<noteq> []"
proof (induction s m es seen errs rule: verify_entries.induct)
  case (2 s m key r rest seen errs)
  have "verify_entry s key r errs \<noteq> []"
    using "2.prems" by (auto simp: verify_entry_def add_errors_Nil_iff split: option.splits sum.splits)
  with 2 show ?case by (auto split: option.splits)
qed simp

lemma verify_entries_unknown:
  "(k, None) \<in> set es \<Longrightarrow> lookup_alias s k = None \<Longrightarrow> \<not> additional_properties s \<Longrightarrow>
     verify_entries s m es seen errs \<noteq> []"
proof (induction s m es seen errs rule: verify_entries.induct)
  case (2 s m key r rest seen errs)
  then show ?case
    by (auto simp: verify_entry_def verify_entries_keeps split: option.splits)
qed simp

lemma find_by_key_None: "k \<notin> fst ` set xs \<Longrightarrow> find_by_key k xs = None"
proof -
  assume k: "k \<notin> fst ` set xs"
  have "binary_search (map fst xs) k = None"
    using k binary_search_loop_bounds [of "length xs" 0 "map fst xs" k]
    by (auto simp: binary_search_def Let_def Suc_le_eq split: if_splits) (metis image_eqI nth_mem)
  then show ?thesis by (simp add: find_by_key_def)
qed

text \<open>A \<open>oneOf\<close> schema verified on its own delegates the whole object, type property included,
  to the selected variant. If every variant is an object schema that allows no additional
  properties (and, as \<open>OneOfSchema::new\<close> asserts, does not declare the type property), no value at
  all is accepted.\<close>

theorem one_of_closed_variants_reject_all:
  assumes closed: "\<And>v s. (v, s) \<in> set list \<Longrightarrow>
      \<exists>ps dk al. s = ObjectSchema ps False dk al \<and>
        \<not> const_has_parameter (fst te) False s \<and> lookup_alias s (fst te) = None"
  shows "verify_json env (OneOfSchema te list) data \<noteq> Inr ()"
proof
  assume ok: "verify_json env (OneOfSchema te list) data = Inr ()"
  then obtain m variant s where data: "data = JObject m"
    and ty: "bm_get m (fst te) = Some (JString variant)"
    and s: "lookup_variant list variant = Some s" and sub: "verify_json env s data = Inr ()"
    by (auto split: json.splits option.splits)
  obtain ps dk al where ps: "s = ObjectSchema ps False dk al"
    and te: "\<not> const_has_parameter (fst te) False s" and al: "lookup_alias s (fst te) = None"
    using lookup_variant_in [OF s] closed by blast
  have "fst te \<notin> fst ` set ps"
    using te ps by (auto simp: list_ex_iff)
  then have "lookup_schema s (fst te) (type_field m) = None"
    using al ps by (simp add: object_lookup_def lookup_with_canonical_name_def find_by_key_None)
  then have "(fst te, None) \<in> set (entry_checks env s m)"
    using bm_get_SomeD [OF ty] by (force simp: entry_checks_def)
  moreover have "\<not> additional_properties s" using ps by simp
  ultimately have "verify_entries s m (entry_checks env s m) [] [] \<noteq> []"
    using al by (intro verify_entries_unknown)
  then have "object_errors s m (entry_checks env s m) \<noteq> []"
    by (simp add: object_errors_def extend_unreported_Nil_iff)
  moreover have "plain_object s" using ps by simp
  ultimately show False
    using sub data verify_json_object_iff [of s env m] by simp
qed

theorem one_of_closed_variants_reject_all_witness:
  "verify_json plain_env
     (OneOfSchema (''type'', False, StringSchema None None None False)
        [(''a'', ObjectSchema [(''x'', False, IntegerSchema None None None)] False None [])])
     (JObject [(''type'', JString ''a''), (''x'', JInt 1)]) \<noteq> Inr ()"
  by (rule one_of_closed_variants_reject_all) (auto simp: find_by_key_None)

end
