(* ===== verification/Schema_Params.thy ===== *)
theory Schema_Params
  imports Schema_Verify
begin

text \<open>
  Parameters given as text: \<open>parse_simple_value\<close>, \<open>do_parse_parameter_strings\<close> and the renaming of
  aliases (\<open>canonicalize_aliases\<close>) of \<open>proxmox-schema/src/schema.rs\<close>.

  A run of the parser that panics is \<open>None\<close>. The main property compares the parser with
  \<open>verify_json\<close>: for schemas without \<open>oneOf\<close> the parsed object passes the verification exactly when
  its arrays have an allowed length, which is the only check the parser leaves out.
\<close>

section \<open>Scalars\<close>

text \<open>The words of \<open>parse_boolean\<close> are ASCII and no other character has one of their letters as its
  lower case, so the ASCII lower case decides as \<open>to_lowercase\<close> does.\<close>

definition parse_boolean :: "string \<Rightarrow> (error, bool) result" where
  "parse_boolean v =
     (let l = map ascii_lower v in
      if l \<in> set [''1'', ''on'', ''yes'', ''true''] then Inr True
      else if l \<in> set [''0'', ''off'', ''no'', ''false''] then Inr False
      else Inl (Msg ''Unable to parse boolean option.''))"

text \<open>\<open>serde_json::Number::from_f64\<close>.\<close>

definition number_from_f64 :: "f64 \<Rightarrow> json option" where
  "number_from_f64 f = (case f of Finite _ \<Rightarrow> Some (JFloat f) | _ \<Rightarrow> None)"

definition parse_simple_value :: "schema_env \<Rightarrow> schema \<Rightarrow> string \<Rightarrow> (error, json) result option" where
  "parse_simple_value env s v =
     (case s of
        NullSchema \<Rightarrow> Some (Inl (Msg ''internal error - found Null schema.''))
      | BooleanSchema _ \<Rightarrow> Some (and_then (parse_boolean v) (\<lambda>b. Inr (JBool b)))
      | IntegerSchema mn mx _ \<Rightarrow>
          Some (and_then (ok_or (Msg ''invalid integer'') (parse_i64 v))
            (\<lambda>i. and_then (integer_check mn mx i) (\<lambda>_. Inr (JInt i))))
      | NumberSchema mn mx _ \<Rightarrow>
          (case parse_f64 env v of
             None \<Rightarrow> Some (Inl (Msg ''invalid float literal''))
           | Some f \<Rightarrow>
               (case number_check mn mx f of
                  Inl e \<Rightarrow> Some (Inl e)
                | Inr _ \<Rightarrow> map_option Inr (number_from_f64 f)))
      | StringSchema mn mx format fopt \<Rightarrow>
          Some (and_then (string_check env mn mx format fopt v) (\<lambda>_. Inr (JString v)))
      | _ \<Rightarrow> Some (Inl (Msg ''unable to parse complex (sub) objects.'')))"

section \<open>Parameter lists\<close>

text \<open>\<open>params[key]\<close>: a missing key reads as null.\<close>

definition param :: "(string \<times> json) list \<Rightarrow> string \<Rightarrow> json" where
  "param m k = (case bm_get m k of Some v \<Rightarrow> v | None \<Rightarrow> JNull)"

record parse_state =
  params :: "(string \<times> json) list"
  param_errs :: param_errors
  first_raw :: "(string \<times> string) list"

definition push_error :: "string \<Rightarrow> error \<Rightarrow> parse_state \<Rightarrow> parse_state" where
  "push_error k e st = st\<lparr>param_errs := param_errs st @ [(k, e)]\<rparr>"

definition set_param :: "string \<Rightarrow> json \<Rightarrow> parse_state \<Rightarrow> parse_state" where
  "set_param k v st = st\<lparr>params := bm_insert k v (params st)\<rparr>"

definition parse_array_item ::
  "schema_env \<Rightarrow> schema \<Rightarrow> string \<Rightarrow> string \<Rightarrow> string \<Rightarrow> parse_state \<Rightarrow> parse_state option" where
  "parse_array_item env items raw_key key value st =
     (let st1 = (if param (params st) key = JNull then set_param key (JArray []) st else st) in
      case param (params st1) key of
        JArray list \<Rightarrow>
          map_option
            (\<lambda>r. case r of
                Inr res \<Rightarrow> set_param key (JArray (list @ [res])) st1
              | Inl e \<Rightarrow> push_error raw_key e st1)
            (parse_simple_value env items value)
      | _ \<Rightarrow> Some (push_error raw_key (Msg ''expected array - type mismatch'') st1))"

definition parse_scalar ::
  "schema_env \<Rightarrow> schema \<Rightarrow> string \<Rightarrow> string \<Rightarrow> string \<Rightarrow> parse_state \<Rightarrow> parse_state option" where
  "parse_scalar env prop raw_key key value st =
     map_option
       (\<lambda>r. case r of
           Inr res \<Rightarrow>
             if param (params st) key = JNull then set_param key res st
             else push_error raw_key (Msg ''duplicate parameter.'') st
         | Inl e \<Rightarrow> push_error raw_key e st)
       (parse_simple_value env prop value)"

definition parse_additional :: "string \<Rightarrow> string \<Rightarrow> parse_state \<Rightarrow> parse_state" where
  "parse_additional key value st =
     (case param (params st) key of
        JNull \<Rightarrow> set_param key (JString value) st
      | JString old \<Rightarrow> set_param key (JArray [JString old, JString value]) st
      | JArray list \<Rightarrow> set_param key (JArray (list @ [JString value])) st
      | _ \<Rightarrow> push_error key (Msg ''expected array - type mismatch'') st)"

definition parse_property ::
  "schema_env \<Rightarrow> schema \<Rightarrow> with_type_field \<Rightarrow> string \<Rightarrow> string \<Rightarrow> string \<Rightarrow> parse_state \<Rightarrow>
   parse_state option" where
  "parse_property env s gt raw_key key value st =
     (case lookup_schema s key gt of
        Some (_, ArraySchema items _ _) \<Rightarrow> parse_array_item env items raw_key key value st
      | Some (_, prop) \<Rightarrow> parse_scalar env prop raw_key key value st
      | None \<Rightarrow>
          if additional_properties s then Some (parse_additional key value st)
          else Some (push_error key (Msg ''schema does not allow additional properties.'') st))"

definition parse_parameter ::
  "schema_env \<Rightarrow> schema \<Rightarrow> with_type_field \<Rightarrow> string \<times> string \<Rightarrow> parse_state \<Rightarrow> parse_state option" where
  "parse_parameter env s gt p st =
     (case p of (raw_key, value) \<Rightarrow>
        let (key, alias_from) =
          (case lookup_alias s raw_key of Some c \<Rightarrow> (c, Some raw_key) | None \<Rightarrow> (raw_key, None))
        in case hm_get (first_raw st) key of
             Some prev \<Rightarrow>
               if prev \<noteq> raw_key then
                 Some (push_error raw_key
                   (CannotSetBoth key (case alias_from of Some a \<Rightarrow> a | None \<Rightarrow> prev)) st)
               else parse_property env s gt raw_key key value st
           | None \<Rightarrow>
               parse_property env s gt raw_key key value
                 (st\<lparr>first_raw := hm_insert key raw_key (first_raw st)\<rparr>))"

fun parse_parameters ::
  "schema_env \<Rightarrow> schema \<Rightarrow> with_type_field \<Rightarrow> (string \<times> string) list \<Rightarrow> parse_state \<Rightarrow>
   parse_state option" where
  "parse_parameters env s gt [] st = Some st"
| "parse_parameters env s gt (p # ps) st =
     Option.bind (parse_parameter env s gt p st) (parse_parameters env s gt ps)"

definition required_errors :: "schema \<Rightarrow> with_type_field \<Rightarrow> (string \<times> json) list \<Rightarrow> param_errors" where
  "required_errors s gt m =
     map (\<lambda>e. (fst e, Msg ''parameter is missing and it is not optional.''))
       (filter (\<lambda>(name, opt, _). \<not> opt \<and> param m name = JNull) (map fst (all_properties (Some gt) s)))"

text \<open>The type lookup reads a \<open>HashMap\<close> collected from the list: the last value of a key.\<close>

definition do_parse_parameter_strings ::
  "schema_env \<Rightarrow> schema \<Rightarrow> (string \<times> string) list \<Rightarrow> bool \<Rightarrow> (error, json) result option" where
  "do_parse_parameter_strings env s data test_required =
     (let gt = map_of (rev data) in
      map_option
        (\<lambda>st. let errs = (if test_required \<and> param_errs st = [] then required_errors s gt (params st)
                          else param_errs st)
              in errors_result (extend_unreported errs (verify_type_fields s gt)) (JObject (params st)))
        (parse_parameters env s gt data \<lparr>params = [], param_errs = [], first_raw = []\<rparr>))"

section \<open>Aliases\<close>

fun alias_errors ::
  "(string \<times> json) list \<Rightarrow> (string \<times> string) list \<Rightarrow> string list \<Rightarrow> param_errors" where
  "alias_errors m [] seen = []"
| "alias_errors m ((a, c) # rest) seen =
     (if bm_get m c \<noteq> None then (a, CannotSetBoth c a) # alias_errors m rest seen
      else if c \<in> set seen then (a, CannotSetBothAliases a c) # alias_errors m rest seen
      else alias_errors m rest (c # seen))"

fun rename_all :: "(string \<times> string) list \<Rightarrow> (string \<times> json) list \<Rightarrow> (string \<times> json) list" where
  "rename_all [] m = m"
| "rename_all ((a, c) # rest) m =
     rename_all rest (case bm_get m a of Some v \<Rightarrow> bm_insert c v (bm_remove a m) | None \<Rightarrow> m)"

definition rename_aliases_to_canonicals ::
  "(string \<times> json) list \<Rightarrow> (string \<times> string) list \<Rightarrow> (error, (string \<times> json) list) result" where
  "rename_aliases_to_canonicals m present =
     (let errs = alias_errors m present [] in errors_result errs (rename_all present m))"

definition object_canonicalize ::
  "(string \<times> string) list \<Rightarrow> json \<Rightarrow> (error, json) result" where
  "object_canonicalize al v =
     (case v of
        JObject m \<Rightarrow>
          and_then (rename_aliases_to_canonicals m (filter (\<lambda>(a, _). bm_get m a \<noteq> None) al))
            (\<lambda>m'. Inr (JObject m'))
      | _ \<Rightarrow> Inr v)"

text \<open>A loop that ends at the first error.\<close>

fun try_fold :: "('a \<Rightarrow> 'b \<Rightarrow> ('e, 'b) result) \<Rightarrow> 'a list \<Rightarrow> 'b \<Rightarrow> ('e, 'b) result" where
  "try_fold f [] v = Inr v"
| "try_fold f (x # xs) v = and_then (f x v) (try_fold f xs)"

lemma try_fold_cong [fundef_cong]:
  "xs = ys \<Longrightarrow> v = w \<Longrightarrow> (\<And>x u. x \<in> set ys \<Longrightarrow> f x u = g x u) \<Longrightarrow> try_fold f xs v = try_fold g ys w"
proof (induction xs arbitrary: ys v w)
  case (Cons x xs)
  then show ?case by (auto simp: and_then_def split: sum.splits)
qed simp

fun canonicalize_aliases :: "schema \<Rightarrow> json \<Rightarrow> (error, json) result" where
  "canonicalize_aliases (ObjectSchema ps ap dk al) v = object_canonicalize al v"
| "canonicalize_aliases (AllOfSchema list) v = try_fold (\<lambda>s. canonicalize_aliases s) list v"
| "canonicalize_aliases (OneOfSchema te list) v = try_fold (\<lambda>(_, s). canonicalize_aliases s) list v"
| "canonicalize_aliases _ v = Inr v"

section \<open>The parser against the verification\<close>

fun one_of_free :: "schema \<Rightarrow> bool" where
  "one_of_free (AllOfSchema list) = list_all one_of_free list"
| "one_of_free (OneOfSchema te list) = False"
| "one_of_free _ = True"

definition aliases_resolved :: "schema \<Rightarrow> bool" where
  "aliases_resolved s = (\<forall>k c. lookup_alias s k = Some c \<longrightarrow> lookup_alias s c = None)"

definition array_lengths_ok :: "schema \<Rightarrow> json \<Rightarrow> bool" where
  "array_lengths_ok s v =
     (case v of
        JObject m \<Rightarrow>
          (\<forall>(k, x) \<in> set m.
             case lookup_schema s k (type_field m) of
               Some (_, ArraySchema items mn mx) \<Rightarrow>
                 (case x of JArray list \<Rightarrow> in_bounds mn mx (length list) | _ \<Rightarrow> True)
             | _ \<Rightarrow> True)
      | _ \<Rightarrow> True)"

definition good_value :: "schema_env \<Rightarrow> schema \<Rightarrow> with_type_field \<Rightarrow> string \<Rightarrow> json \<Rightarrow> bool" where
  "good_value env s gt k v =
     (lookup_alias s k = None \<and> v \<noteq> JNull \<and> json_wf v \<and>
      (case lookup_schema s k gt of
         Some (_, ArraySchema items _ _) \<Rightarrow>
           (\<exists>list. v = JArray list \<and> (\<forall>x \<in> set list. conforms env items x))
       | Some (_, prop) \<Rightarrow> conforms env prop v
       | None \<Rightarrow> additional_properties s))"

definition good_state :: "schema_env \<Rightarrow> schema \<Rightarrow> with_type_field \<Rightarrow> parse_state \<Rightarrow> bool" where
  "good_state env s gt st =
     (bm_wf (params st) \<and> (\<forall>(k, v) \<in> set (params st). good_value env s gt k v))"

lemma option_sum_cases:
  obtains (panic) "x = None" | (err) e where "x = Some (Inl e)" | (ok) v where "x = Some (Inr v)"
  by (metis option.exhaust sum.exhaust)

lemma parse_simple_value_conforms:
  assumes "parse_simple_value env s t = Some (Inr v)"
  shows "conforms env s v \<and> v \<noteq> JNull \<and> json_wf v"
proof -
  have int: "as_i64 (JInt i) = Some i" if "parse_i64 t = Some i" for i
    using parse_i64_range [OF that] by (simp add: as_i64_def)
  show ?thesis
    using assms
    by (cases s)
       (auto simp: parse_simple_value_def and_then_eq_Inr conforms_simps number_from_f64_def ok_or_def int
          integer_check_def number_check_def and_then_def string_check_ok
        split: option.splits sum.splits f64.splits if_splits)
qed

lemma good_state_push_error [simp]: "good_state env s gt (push_error k e st) = good_state env s gt st"
  by (simp add: good_state_def push_error_def)

lemma good_state_first_raw [simp]: "good_state env s gt (st\<lparr>first_raw := x\<rparr>) = good_state env s gt st"
  by (simp add: good_state_def)

lemma good_state_set_param:
  "good_state env s gt st \<Longrightarrow> good_value env s gt k v \<Longrightarrow> good_state env s gt (set_param k v st)"
  by (auto simp: good_state_def set_param_def dest: set_bm_insert_subset)

lemma param_good:
  "good_state env s gt st \<Longrightarrow> param (params st) k \<noteq> JNull \<Longrightarrow> good_value env s gt k (param (params st) k)"
  by (auto simp: good_state_def param_def split: option.splits dest!: bm_get_SomeD)

lemma param_set_param [simp]: "param (params (set_param k v st)) k = v"
  by (simp add: param_def set_param_def)

lemma parse_array_item_good:
  assumes "good_state env s gt st" and "lookup_alias s key = None"
    and "lookup_schema s key gt = Some (opt, ArraySchema items mn mx)"
    and "parse_array_item env items raw_key key value st = Some st'"
  shows "good_state env s gt st'"
proof -
  define st1 where "st1 = (if param (params st) key = JNull then set_param key (JArray []) st else st)"
  have good1: "good_state env s gt st1"
    using assms(1-3) by (auto simp: st1_def good_value_def intro!: good_state_set_param)
  have "param (params st1) key \<noteq> JNull" by (simp add: st1_def)
  with good1 have "good_value env s gt key (param (params st1) key)" by (rule param_good)
  then obtain list where arr: "param (params st1) key = JArray list" "list_all json_wf list"
      "\<And>x. x \<in> set list \<Longrightarrow> conforms env items x"
    using assms(3) by (auto simp: good_value_def)
  have "good_state env s gt (set_param key (JArray (list @ [v])) st1)"
    if "parse_simple_value env items value = Some (Inr v)" for v
    using parse_simple_value_conforms [OF that] arr(2,3) good1 assms(2,3)
    by (intro good_state_set_param) (auto simp: good_value_def)
  then show ?thesis
    using assms(4) good1 arr(1) unfolding parse_array_item_def st1_def [symmetric] Let_def
    by (cases "parse_simple_value env items value" rule: option_sum_cases) auto
qed

lemma parse_scalar_good:
  assumes "good_state env s gt st" and "lookup_alias s key = None"
    and "lookup_schema s key gt = Some (opt, prop)" and "\<And>items mn mx. prop \<noteq> ArraySchema items mn mx"
    and "parse_scalar env prop raw_key key value st = Some st'"
  shows "good_state env s gt st'"
proof -
  have "good_value env s gt key v" if "parse_simple_value env prop value = Some (Inr v)" for v
    using parse_simple_value_conforms [OF that] assms(2-4)
    by (auto simp: good_value_def split: schema.splits)
  with assms(1,5) show ?thesis
    by (cases "parse_simple_value env prop value" rule: option_sum_cases)
       (auto simp: parse_scalar_def split: if_splits intro: good_state_set_param)
qed

lemma parse_additional_good:
  assumes "good_state env s gt st" and "lookup_alias s key = None"
    and "lookup_schema s key gt = None" and "additional_properties s"
  shows "good_state env s gt (parse_additional key value st)"
  using assms param_good [OF assms(1), of key]
  by (auto simp: parse_additional_def good_value_def split: json.splits intro!: good_state_set_param)

lemma parse_property_good:
  assumes "good_state env s gt st" and "lookup_alias s key = None"
    and "parse_property env s gt raw_key key value st = Some st'"
  shows "good_state env s gt st'"
proof (cases "lookup_schema s key gt")
  case None
  with assms show ?thesis
    by (auto simp: parse_property_def intro: parse_additional_good split: if_splits)
next
  case (Some x)
  then obtain opt sub where x: "lookup_schema s key gt = Some (opt, sub)" by (cases x) auto
  show ?thesis
  proof (cases "\<exists>items mn mx. sub = ArraySchema items mn mx")
    case True
    with assms x show ?thesis
      by (auto simp: parse_property_def intro: parse_array_item_good)
  next
    case False
    then have "parse_scalar env sub raw_key key value st = Some st'"
      using assms(3) x by (auto simp: parse_property_def split: schema.splits)
    with assms(1,2) x False show ?thesis by (blast intro: parse_scalar_good)
  qed
qed

lemma parse_parameter_good:
  assumes "aliases_resolved s" and "good_state env s gt st" and "parse_parameter env s gt p st = Some st'"
  shows "good_state env s gt st'"
proof -
  obtain raw_key t where p: "p = (raw_key, t)" by fastforce
  define key where "key = (case lookup_alias s raw_key of Some c \<Rightarrow> c | None \<Rightarrow> raw_key)"
  have key: "lookup_alias s key = None"
    using assms(1) by (auto simp: key_def aliases_resolved_def split: option.splits)
  note good = parse_property_good [OF _ key]
  show ?thesis
  proof (cases "hm_get (first_raw st) key")
    case None
    then have "parse_property env s gt raw_key key t
        (st\<lparr>first_raw := hm_insert key raw_key (first_raw st)\<rparr>) = Some st'"
      using assms(3) by (auto simp: parse_parameter_def p key_def split: option.splits)
    then show ?thesis by (rule good [rotated]) (simp add: assms(2))
  next
    case (Some prev)
    then have "(\<exists>e. st' = push_error raw_key e st) \<or> parse_property env s gt raw_key key t st = Some st'"
      using assms(3) by (auto simp: parse_parameter_def p key_def split: option.splits if_splits)
    then show ?thesis using good assms(2) by auto
  qed
qed

lemma parse_parameters_good:
  "aliases_resolved s \<Longrightarrow> good_state env s gt st \<Longrightarrow> parse_parameters env s gt ps st = Some st' \<Longrightarrow>
     good_state env s gt st'"
  by (induction ps arbitrary: st) (auto simp: Option.bind_eq_Some_conv intro: parse_parameter_good)

text \<open>Without \<open>oneOf\<close> the type fields do not matter.\<close>

lemma one_of_free_lookup: "one_of_free s \<Longrightarrow> lookup_schema s k gt = lookup_schema s k gt'"
  by (induction s k gt rule: lookup_schema.induct) (auto simp: list_all_iff intro!: find_map_cong)

lemma one_of_free_properties:
  "one_of_free s \<Longrightarrow> properties_of gt cs s = properties_of gt' cs s"
  by (induction gt cs s rule: properties_of.induct) (auto simp: list_all_iff intro!: arg_cong [of _ _ concat])

lemma one_of_free_types: "one_of_free s \<Longrightarrow> verify_type_fields s gt = []"
  by (induction s gt rule: verify_type_fields.induct) (auto simp: list_all_iff)

lemma parse_result_state:
  assumes "do_parse_parameter_strings env s data True = Some (Inr v)" and "aliases_resolved s"
  obtains st where "v = JObject (params st)" and "good_state env s (map_of (rev data)) st"
    and "required_errors s (map_of (rev data)) (params st) = []"
proof -
  from assms(1) obtain st where
    run: "parse_parameters env s (map_of (rev data)) data \<lparr>params = [], param_errs = [], first_raw = []\<rparr> = Some st"
    and v: "v = JObject (params st)" and "required_errors s (map_of (rev data)) (params st) = []"
    by (auto simp: do_parse_parameter_strings_def Let_def errors_result_Inr_iff extend_unreported_Nil_iff
        split: if_splits)
  moreover have "good_state env s (map_of (rev data)) st"
    using parse_parameters_good [OF assms(2) _ run] by (simp add: good_state_def)
  ultimately show thesis using that by blast
qed

lemma good_value_conforms:
  assumes "good_value env s gt k v"
  shows "(case lookup_schema s k gt of
            None \<Rightarrow> additional_properties s
          | Some (_, sub) \<Rightarrow> conforms env sub v) \<longleftrightarrow>
         (case lookup_schema s k gt of
            Some (_, ArraySchema items mn mx) \<Rightarrow>
              (case v of JArray list \<Rightarrow> in_bounds mn mx (length list) | _ \<Rightarrow> True)
          | _ \<Rightarrow> True)"
  using assms by (auto simp: good_value_def conforms_simps split: option.splits schema.splits)

lemma good_state_conforms:
  assumes "good_state env s gt st" and "required_errors s gt (params st) = []"
    and "plain_object s" and "one_of_free s"
  shows "conforms env s (JObject (params st)) \<longleftrightarrow> array_lengths_ok s (JObject (params st))"
proof -
  let ?m = "params st"
  note gt = one_of_free_lookup [OF assms(4), of _ "type_field ?m" gt]
  have "lookup_alias s k = None" if "k \<in> fst ` set ?m" for k
    using that assms(1) by (auto simp: good_state_def good_value_def)
  then have "keys_consistent s ?m" by (auto simp: keys_consistent_def)
  moreover have "required_present s ?m"
    using assms(2)
    unfolding required_present_def one_of_free_properties [OF assms(4), of "Some (type_field ?m)" _ "Some gt"]
    by (force simp: required_errors_def filter_empty_conv param_def all_properties_def
        all_properties_loop_push [of _ _ "[]", simplified] split: option.splits)
  moreover have "(\<forall>(k, v) \<in> set ?m.
      (case lookup_schema s k (type_field ?m) of
         None \<Rightarrow> additional_properties s | Some (_, sub) \<Rightarrow> conforms env sub v)) \<longleftrightarrow>
      array_lengths_ok s (JObject ?m)"
    unfolding array_lengths_ok_def gt json.case
    by (intro ball_cong refl) (use assms(1) good_value_conforms in \<open>auto simp: good_state_def\<close>)
  ultimately show ?thesis
    by (simp add: conforms_object_iff [OF assms(3)] one_of_free_types [OF assms(4)])
qed

text \<open>C23: When \<open>parse_parameter_strings\<close> accepts a list of parameters for an object or \<open>allOf\<close> schema
  without \<open>oneOf\<close>, the object it returns passes \<open>verify_json\<close> of the same schema exactly when its
  arrays have an allowed number of elements: the parser checks everything else the verification
  does.\<close>

theorem parsed_parameters_verify:
  assumes "plain_object s" and "one_of_free s" and "aliases_resolved s"
    and "env_proper env" and "fns_proper s"
    and "do_parse_parameter_strings env s data True = Some (Inr v)"
  shows "verify_json env s v = Inr () \<longleftrightarrow> array_lengths_ok s v"
proof -
  obtain st where v: "v = JObject (params st)" and good: "good_state env s (map_of (rev data)) st"
    and req: "required_errors s (map_of (rev data)) (params st) = []"
    using parse_result_state [OF assms(6,3)] .
  have "json_wf v"
    using good v by (auto simp: good_state_def good_value_def list_all_iff)
  with good_state_conforms [OF good req assms(1,2)] show ?thesis
    unfolding v by (subst verify_json_iff_conforms [OF assms(4,5)]) simp_all
qed

theorem parsed_parameters_verify_witness:
  "verify_json plain_env
     (ObjectSchema [(''ids'', False, ArraySchema (IntegerSchema (Some 1) None None) None (Some 2)),
                    (''name'', True, StringSchema None (Some 5) None False)] False None [(''id'', ''ids'')])
     (JObject [(''ids'', JArray [JInt 1, JInt 7]), (''name'', JString ''x'')]) = Inr ()"
proof -
  let ?s = "ObjectSchema [(''ids'', False, ArraySchema (IntegerSchema (Some 1) None None) None (Some 2)),
                    (''name'', True, StringSchema None (Some 5) None False)] False None [(''id'', ''ids'')]"
  let ?v = "JObject [(''ids'', JArray [JInt 1, JInt 7]), (''name'', JString ''x'')]"
  have run: "do_parse_parameter_strings plain_env ?s
      [(''id'', ''1''), (''name'', ''x''), (''id'', ''+7'')] True = Some (Inr ?v)"
    by code_simp
  have "aliases_resolved ?s"
    by (auto simp: aliases_resolved_def find_by_key_map_of split: if_splits)
  moreover have "''ids'' < ''name''"
    by code_simp
  then have "array_lengths_ok ?s ?v"
    by (simp add: array_lengths_ok_def object_lookup_def lookup_with_canonical_name_def in_bounds_def
        find_by_key_map_of)
  ultimately show ?thesis
    using parsed_parameters_verify [OF _ _ _ _ _ run] by simp
qed


section \<open>Renaming aliases\<close>

lemma alias_errors_Nil_iff:
  "alias_errors m present seen = [] \<longleftrightarrow>
     (\<forall>c \<in> snd ` set present. bm_get m c = None \<and> c \<notin> set seen) \<and> distinct (map snd present)"
  by (induction m present seen rule: alias_errors.induct) auto

lemma rename_all_wf: "bm_wf m \<Longrightarrow> bm_wf (rename_all present m)"
  by (induction present m rule: rename_all.induct)
     (auto simp: bm_wf_bm_insert bm_wf_bm_remove split: option.splits)

lemma rename_all_get:
  assumes "distinct (map fst present)" and "distinct (map snd present)"
    and "fst ` set present \<inter> snd ` set present = {}"
    and "\<And>a c. (a, c) \<in> set present \<Longrightarrow> bm_get m a \<noteq> None"
  shows "bm_get (rename_all present m) k =
           (if k \<in> fst ` set present then None
            else case map_of (map prod.swap present) k of Some a \<Rightarrow> bm_get m a | None \<Rightarrow> bm_get m k)"
  using assms
proof (induction present arbitrary: m)
  case (Cons ac rest)
  obtain a c where ac: "ac = (a, c)" by fastforce
  note prems = Cons.prems [unfolded ac]
  obtain v where v: "bm_get m a = Some v" using prems(4) by force
  define m1 where "m1 = bm_insert c v (bm_remove a m)"
  have keep: "bm_get m1 a' = bm_get m a'" if "a' \<in> fst ` set rest" for a'
    using that prems(1,3) by (auto simp: m1_def)
  have "bm_get m1 a' \<noteq> None" if "(a', c') \<in> set rest" for a' c'
    using that keep [of a'] prems(4) by force
  then have IH: "bm_get (rename_all rest m1) k =
           (if k \<in> fst ` set rest then None
            else case map_of (map prod.swap rest) k of Some a \<Rightarrow> bm_get m1 a | None \<Rightarrow> bm_get m1 k)"
    using Cons.IH [of m1] prems by auto
  have sel: "map_of (map prod.swap rest) k = Some a' \<Longrightarrow> a' \<in> fst ` set rest" for a'
    by (force dest: map_of_SomeD)
  have c: "map_of (map prod.swap rest) c = None" "map_of (map prod.swap rest) a = None"
    using prems(2,3) by (auto simp: map_of_eq_None_iff image_image)
  show ?case
    using IH v keep sel c prems(1,3) unfolding ac
    by (auto simp: m1_def [symmetric] split: option.splits) (auto simp: m1_def)
qed simp


text \<open>The name a key stands for.\<close>

definition canonical :: "(string \<times> string) list \<Rightarrow> string \<Rightarrow> string" where
  "canonical al k = (case map_of al k of Some c \<Rightarrow> c | None \<Rightarrow> k)"

lemma inj_on_snd_iff: "inj_on snd A \<longleftrightarrow> (\<forall>a c a'. (a, c) \<in> A \<and> (a', c) \<in> A \<longrightarrow> a = a')"
  unfolding inj_on_def by fastforce

lemma ball_snd_iff: "(\<forall>c \<in> snd ` A. Q c) \<longleftrightarrow> (\<forall>a c. (a, c) \<in> A \<longrightarrow> Q c)"
  by force

lemma partial_inj_iff:
  "(\<forall>a c a'. (f a = Some c \<and> a \<in> K) \<and> f a' = Some c \<and> a' \<in> K \<longrightarrow> a = a') \<longleftrightarrow>
   (\<forall>k \<in> K. \<forall>k' \<in> K. k \<noteq> k' \<and> f k \<noteq> None \<longrightarrow> f k \<noteq> f k')"
  by (intro iffI ballI impI notI) (metis not_None_eq, metis option.distinct(1))

lemma keys_consistent_object:
  assumes "properties_sorted al" and "bm_wf m"
  shows "keys_consistent (ObjectSchema ps ap dk al) m \<longleftrightarrow>
           alias_errors m (filter (\<lambda>(a, _). bm_get m a \<noteq> None) al) [] = []"
proof -
  let ?P = "filter (\<lambda>(a, _). bm_get m a \<noteq> None) al"
  have al: "sorted_wrt (<) (map fst al)" using assms(1) by (simp add: properties_sorted_def)
  then have dist: "distinct (map fst al)" by (simp add: strict_sorted_iff)
  then have P: "distinct (map fst ?P)" by (rule distinct_map_filter)
  have mem: "map_of al a = Some c \<longleftrightarrow> (a, c) \<in> set al" for a c
    using dist by simp
  define K where "K = fst ` set m"
  have K: "bm_get m c = None \<longleftrightarrow> c \<notin> K" for c
    by (simp add: K_def bm_get_None_iff)
  have memP: "(a, c) \<in> set ?P \<longleftrightarrow> map_of al a = Some c \<and> a \<in> K" for a c
    using K [of a] by (cases "bm_get m a") (simp_all add: mem)
  have "distinct (map snd ?P) \<longleftrightarrow> inj_on snd (set ?P)"
    using P by (simp add: distinct_map)
  also have "\<dots> \<longleftrightarrow> (\<forall>a c a'. (a, c) \<in> set ?P \<and> (a', c) \<in> set ?P \<longrightarrow> a = a')"
    by (rule inj_on_snd_iff)
  also have "\<dots> \<longleftrightarrow>
      (\<forall>k \<in> K. \<forall>k' \<in> K. k \<noteq> k' \<and> map_of al k \<noteq> None \<longrightarrow> map_of al k \<noteq> map_of al k')"
    unfolding memP by (rule partial_inj_iff)
  finally have inj: "distinct (map snd ?P) \<longleftrightarrow> \<dots>" .
  have "(\<forall>c \<in> snd ` set ?P. bm_get m c = None) \<longleftrightarrow> (\<forall>a c. (a, c) \<in> set ?P \<longrightarrow> bm_get m c = None)"
    by (rule ball_snd_iff)
  also have "\<dots> \<longleftrightarrow> (\<forall>k \<in> K. \<forall>c. map_of al k = Some c \<longrightarrow> c \<notin> K)"
    unfolding memP unfolding K by blast
  finally show ?thesis
    unfolding keys_consistent_def K_def [symmetric] alias_errors_Nil_iff lookup_alias.simps
      find_by_key_map_of [OF al] inj
    by simp
qed

lemma canonicalized_get:
  assumes "property_aliases_valid al ps" and "bm_wf m"
    and "keys_consistent (ObjectSchema ps ap dk al) m"
  shows "bm_get (rename_all (filter (\<lambda>(a, _). bm_get m a \<noteq> None) al) m) k' = Some v \<longleftrightarrow>
           (\<exists>k. bm_get m k = Some v \<and> canonical al k = k')"
proof -
  have sorted: "properties_sorted al" and tgt: "\<And>a c. (a, c) \<in> set al \<Longrightarrow> a \<notin> fst ` set ps \<and> c \<in> fst ` set ps"
    using assms(1) by (auto simp: property_aliases_valid_def)
  then have dist: "distinct (map fst al)" by (simp add: properties_sorted_def strict_sorted_iff)
  define P where "P = filter (\<lambda>(a, _). bm_get m a \<noteq> None) al"
  have memP: "(a, c) \<in> set P \<longleftrightarrow> map_of al a = Some c \<and> bm_get m a \<noteq> None" for a c
    using dist by (auto simp: P_def)
  have fstP: "a \<in> fst ` set P \<longleftrightarrow> map_of al a \<noteq> None \<and> bm_get m a \<noteq> None" for a
  proof -
    have "a \<in> fst ` set P \<longleftrightarrow> (\<exists>c. (a, c) \<in> set P)" by force
    then show ?thesis by (simp add: memP)
  qed
  have P: "distinct (map fst P)" unfolding P_def using dist by (rule distinct_map_filter)
  have ok: "\<And>a c. (a, c) \<in> set P \<Longrightarrow> bm_get m c = None" and S: "distinct (map snd P)"
    using assms(3) unfolding keys_consistent_object [OF sorted assms(2)] alias_errors_Nil_iff P_def [symmetric]
    by force+
  have no_alias: "map_of al c = None" if "map_of al a = Some c" for a c
    using tgt [OF map_of_SomeD [OF that]] tgt [OF map_of_SomeD] by (cases "map_of al c") blast+
  have disj: "fst ` set P \<inter> snd ` set P = {}"
  proof (rule equals0I)
    fix x assume "x \<in> fst ` set P \<inter> snd ` set P"
    then obtain a c where "(x, c) \<in> set P" "(a, x) \<in> set P" by auto
    with no_alias show False by (auto simp: memP)
  qed
  have swap: "map_of (map prod.swap P) c = Some a \<longleftrightarrow> (a, c) \<in> set P" for a c
  proof -
    have "map_of (map prod.swap P) c = Some a \<longleftrightarrow> (c, a) \<in> set (map prod.swap P)"
      using S by (intro map_of_eq_Some_iff) (simp add: comp_def)
    also have "\<dots> \<longleftrightarrow> (a, c) \<in> set P" by force
    finally show ?thesis .
  qed
  have get: "bm_get (rename_all P m) k' =
      (if k' \<in> fst ` set P then None
       else case map_of (map prod.swap P) k' of Some a \<Rightarrow> bm_get m a | None \<Rightarrow> bm_get m k')"
    by (rule rename_all_get [OF P S disj]) (simp add: memP)
  have canon: "bm_get m k = Some v \<and> canonical al k = k' \<longleftrightarrow>
      bm_get m k = Some v \<and> ((k, k') \<in> set P \<or> k = k' \<and> map_of al k = None)" for k
    by (auto simp: canonical_def memP split: option.splits)
  show ?thesis
  proof (cases "map_of (map prod.swap P) k'")
    case None
    then have no: "(k, k') \<notin> set P" for k using swap [of k' k] by simp
    have "k' \<notin> fst ` set P \<and> bm_get m k' = Some v \<longleftrightarrow> map_of al k' = None \<and> bm_get m k' = Some v"
      unfolding fstP by auto
    then show ?thesis unfolding P_def [symmetric] canon get using None no by auto
  next
    case (Some a)
    then have a: "(a, k') \<in> set P" by (simp add: swap)
    have only: "(k, k') \<in> set P \<longleftrightarrow> k = a" for k using Some swap [of k' k] by auto
    have "k' \<notin> fst ` set P" using a disj by force
    then show ?thesis
      unfolding P_def [symmetric] canon get only using Some ok [OF a] by auto
  qed
qed

lemma canonical_lookup:
  assumes "property_aliases_valid al ps"
  shows "lookup_alias (ObjectSchema ps ap dk al) (canonical al k) = None"
    and "object_lookup ps al (canonical al k) = object_lookup ps al k"
proof -
  have al: "sorted_wrt (<) (map fst al)"
    and tgt: "\<And>a c. map_of al a = Some c \<Longrightarrow> a \<notin> fst ` set ps \<and> c \<in> fst ` set ps"
    using assms by (auto simp: property_aliases_valid_def properties_sorted_def dest!: map_of_SomeD)
  have none: "map_of al (canonical al k) = None"
  proof (cases "map_of al k")
    case (Some c)
    then have "map_of al c \<noteq> Some d" for d using tgt [of k c] tgt [of c d] by blast
    with Some show ?thesis by (cases "map_of al c") (auto simp: canonical_def)
  qed (simp add: canonical_def)
  then show "lookup_alias (ObjectSchema ps ap dk al) (canonical al k) = None"
    by (simp add: find_by_key_map_of [OF al])
  show "object_lookup ps al (canonical al k) = object_lookup ps al k"
    using none
    by (auto simp: object_lookup_def lookup_with_canonical_name_def find_by_key_map_of [OF al] Let_def
        canonical_def split: option.splits)
qed

lemma conforms_null: "conforms env s JNull \<Longrightarrow> s = NullSchema"
  by (cases s) (auto simp: conforms_simps conforms_object_simps as_i64_def)

lemma bm_ball_iff: "bm_wf m \<Longrightarrow> (\<forall>(k, v) \<in> set m. Q k v) \<longleftrightarrow> (\<forall>k v. bm_get m k = Some v \<longrightarrow> Q k v)"
  by (force simp: bm.entries_iff [symmetric])

lemma canonicalized_conforms:
  fixes ps ap dk al m
  defines "s \<equiv> ObjectSchema ps ap dk al"
    and "m' \<equiv> rename_all (filter (\<lambda>(a, _). bm_get m a \<noteq> None) al) m"
  assumes valid: "property_aliases_valid al ps" and ps: "properties_sorted ps"
    and wf: "bm_wf m" and cons: "keys_consistent s m"
    and nulls: "\<And>n opt sub. (n, opt, sub) \<in> set ps \<Longrightarrow> sub \<noteq> NullSchema"
  shows "conforms env s (JObject m) \<longleftrightarrow> conforms env s (JObject m')"
proof -
  note get = canonicalized_get [OF valid wf cons [unfolded s_def], folded m'_def]
  have wf': "bm_wf m'" unfolding m'_def using wf by (rule rename_all_wf)
  note mem = bm.entries_iff [OF wf] and mem' = bm.entries_iff [OF wf']
  have fixed: "lookup_alias s (canonical al k) = None" for k
    using canonical_lookup(1) [OF valid] by (simp add: s_def)
  define fits where "fits k v = (case object_lookup ps al k of
      None \<Rightarrow> ap | Some (_, sub) \<Rightarrow> conforms env sub v)" for k v
  have "fits (canonical al k) v = fits k v" for k v
    by (simp add: fits_def canonical_lookup(2) [OF valid])
  then have entries: "(\<forall>(k, v) \<in> set m. fits k v) \<longleftrightarrow> (\<forall>(k, v) \<in> set m'. fits k v)"
    unfolding bm_ball_iff [OF wf] bm_ball_iff [OF wf'] get by blast
  have "lookup_alias s k = None" if "k \<in> fst ` set m'" for k
    using that fixed by (auto simp: mem' get)
  note no_alias = this
  then have cons': "keys_consistent s m'" by (auto simp: keys_consistent_def)
  have al: "sorted_wrt (<) (map fst al)" using valid by (simp add: property_aliases_valid_def properties_sorted_def)
  have look: "lookup_alias s k = map_of al k" for k by (simp add: s_def find_by_key_map_of [OF al])
  have canon: "canonical al k = n \<longleftrightarrow> map_of al k = Some n \<or> k = n \<and> map_of al k = None" for k n
    by (auto simp: canonical_def split: option.splits)
  have present: "(\<exists>v. bm_get m n = Some v \<and> v \<noteq> JNull) \<or> (\<exists>k \<in> fst ` set m. map_of al k = Some n) \<longleftrightarrow>
                 (\<exists>v. bm_get m' n = Some v \<and> v \<noteq> JNull)"
    if fit: "\<forall>(k, v) \<in> set m. fits k v" and n: "(n, opt, sub) \<in> set ps" for n opt sub
  proof -
    have "map_of al n = None"
      using valid n by (cases "map_of al n") (force simp: property_aliases_valid_def dest!: map_of_SomeD)+
    moreover have "v \<noteq> JNull" if "bm_get m k = Some v" and "map_of al k = Some n" for k v
    proof -
      have "object_lookup ps al k = Some (opt, sub)"
        using that(2) n ps
        by (simp add: object_lookup_def lookup_with_canonical_name_def find_by_key_map_of [OF al]
            find_by_key_map_of properties_sorted_def strict_sorted_iff)
      moreover have "fits k v" using fit that(1) unfolding bm_ball_iff [OF wf] by blast
      ultimately have "conforms env sub v" by (simp add: fits_def)
      then show ?thesis using nulls [OF n] conforms_null by blast
    qed
    moreover have keys: "k \<in> fst ` set m \<longleftrightarrow> (\<exists>v. bm_get m k = Some v)" for k
      using bm_get_None_iff [of m k] by (cases "bm_get m k") auto
    ultimately have "(\<exists>k \<in> fst ` set m. map_of al k = Some n) \<longleftrightarrow>
        (\<exists>v. (\<exists>k. bm_get m k = Some v \<and> map_of al k = Some n) \<and> v \<noteq> JNull)"
      and "(\<exists>k. bm_get m k = Some v \<and> canonical al k = n) \<longleftrightarrow>
        bm_get m n = Some v \<or> (\<exists>k. bm_get m k = Some v \<and> map_of al k = Some n)" for v
      unfolding canon by metis+
    then show ?thesis unfolding get by (simp add: ex_disj_distrib conj_disj_distribR)
  qed
  have req: "required_present s m \<longleftrightarrow> required_present s m'" if "\<forall>(k, v) \<in> set m. fits k v"
    using present [OF that] no_alias unfolding required_present_def look
    by (fastforce simp: s_def)
  have "conforms env s (JObject x) \<longleftrightarrow>
      (\<forall>(k, v) \<in> set x. fits k v) \<and> keys_consistent s x \<and> required_present s x" for x
    by (simp add: conforms_object_iff s_def fits_def cong: option.case_cong)
  with entries req cons cons' show ?thesis by blast
qed

lemma canonicalize_object:
  assumes "property_aliases_valid al ps" and "bm_wf m"
  shows "canonicalize_aliases (ObjectSchema ps ap dk al) (JObject m) = Inr w \<longleftrightarrow>
           keys_consistent (ObjectSchema ps ap dk al) m \<and>
           w = JObject (rename_all (filter (\<lambda>(a, _). bm_get m a \<noteq> None) al) m)"
  using keys_consistent_object [of al m ps ap dk] assms
  by (auto simp: object_canonicalize_def rename_aliases_to_canonicals_def errors_result_def Let_def
      and_then_def property_aliases_valid_def)

lemma canonicalized_json_wf:
  assumes "property_aliases_valid al ps" and "keys_consistent (ObjectSchema ps ap dk al) m"
    and "json_wf (JObject m)"
  shows "json_wf (JObject (rename_all (filter (\<lambda>(a, _). bm_get m a \<noteq> None) al) m))"
proof -
  have wf: "bm_wf m" using assms(3) by simp
  note wf' = rename_all_wf [OF wf, of "filter (\<lambda>(a, _). bm_get m a \<noteq> None) al"]
  show ?thesis
    using assms(3) canonicalized_get [OF assms(1) wf assms(2)] wf'
    unfolding json_wf.simps list_all_iff bm_ball_iff [OF wf] bm_ball_iff [OF wf'] by auto
qed



end
