(* ===== verification/Property_String.thy ===== *)
theory Property_String
  imports Schema_Params Schema_Lookup
begin

text \<open>
  Property strings, the comma separated \<open>key=value\<close> text format: the parser of
  \<open>proxmox-schema/src/property_string.rs\<close>, \<open>parse_property_string\<close> of \<open>schema.rs\<close> and the serializer of
  \<open>proxmox-schema/src/ser/mod.rs\<close>. Text is a list of bytes; every separator and escape is ASCII.
\<close>

section \<open>Parsing\<close>

definition find_byte :: "(char \<Rightarrow> bool) \<Rightarrow> string \<Rightarrow> nat option" where
  "find_byte p s = (if list_ex p s then Some (length (takeWhile (\<lambda>c. \<not> p c) s)) else None)"

definition ascii_split_off :: "string \<Rightarrow> nat \<Rightarrow> string \<times> string" where
  "ascii_split_off s mid = (take mid s, drop (Suc mid) s)"

text \<open>The second loop of \<open>parse_quoted_string\<close>, from the first backslash on.\<close>

fun unescape_loop :: "string \<Rightarrow> bool \<Rightarrow> string \<Rightarrow> (error, string \<times> string) result" where
  "unescape_loop out was_backslash [] = Inl (Msg ''unexpected end of string'')"
| "unescape_loop out was_backslash (c # cs) =
     (if was_backslash then
        if c = CHR 0x22 then unescape_loop (out @ [CHR 0x22]) False cs
        else if c = CHR 0x5C then unescape_loop (out @ [CHR 0x5C]) False cs
        else if c = CHR ''n'' then unescape_loop (out @ [CHR 0x0A]) False cs
        else Inl (Msg ''unsupported escape sequence'')
      else if c = CHR 0x22 then Inr (out, cs)
      else if c = CHR 0x5C then unescape_loop out True cs
      else unescape_loop (out @ [c]) False cs)"

definition parse_quoted_string :: "string \<Rightarrow> (error, string \<times> string) result" where
  "parse_quoted_string data =
     (case data of
        [] \<Rightarrow> Inl (Msg ''not a quoted string'')
      | c # body \<Rightarrow>
          if c \<noteq> CHR 0x22 then Inl (Msg ''not a quoted string'')
          else
            (let plain = takeWhile (\<lambda>c. c \<noteq> CHR 0x22 \<and> c \<noteq> CHR 0x5C) body;
                 rest = drop (length plain) body
             in case rest of
                  [] \<Rightarrow> Inl (Msg ''unexpected end of string'')
                | d # rest' \<Rightarrow>
                    if d = CHR 0x22 then Inr (plain, rest') else unescape_loop plain True rest'))"

type_synonym next_property_result = "(error, string option \<times> string \<times> string) result"

definition finish_quoted :: "string option \<Rightarrow> string \<Rightarrow> next_property_result" where
  "finish_quoted key data =
     and_then (parse_quoted_string data)
       (\<lambda>(v, rest). case rest of
            [] \<Rightarrow> Inr (key, v, [])
          | c # rest' \<Rightarrow>
              if c = CHR '','' then Inr (key, v, rest')
              else Inl (Msg ''garbage after quoted string''))"

definition split_key :: "string \<Rightarrow> string option \<times> string" where
  "split_key data =
     (case find_byte (\<lambda>c. c = CHR '','' \<or> c = CHR ''='') data of
        None \<Rightarrow> (None, data)
      | Some pos \<Rightarrow>
          if data ! pos = CHR '','' then (None, data)
          else (case ascii_split_off data pos of (k, d) \<Rightarrow> (Some k, d)))"

definition split_value :: "string \<Rightarrow> string \<times> string" where
  "split_value data =
     (case find_byte (\<lambda>c. c = CHR '','') data of
        Some pos \<Rightarrow> ascii_split_off data pos
      | None \<Rightarrow> (data, []))"

definition next_property :: "string \<Rightarrow> next_property_result option" where
  "next_property data =
     (if data = [] then None
      else if hd data = CHR 0x22 then Some (finish_quoted None data)
      else case split_key data of (key, data') \<Rightarrow>
        if data' = [] \<or> hd data' \<noteq> CHR 0x22 then
          (case split_value data' of (v, rest) \<Rightarrow> Some (Inr (key, v, rest)))
        else Some (finish_quoted key data'))"

lemma unescape_loop_shorter: "unescape_loop out b cs = Inr (v, rest) \<Longrightarrow> length rest < length cs"
  by (induction out b cs rule: unescape_loop.induct) (auto split: if_splits)

lemma parse_quoted_string_shorter: "parse_quoted_string data = Inr (v, rest) \<Longrightarrow> length rest < length data"
proof -
  assume a: "parse_quoted_string data = Inr (v, rest)"
  then obtain c body where d: "data = c # body" by (cases data) (auto simp: parse_quoted_string_def)
  define plain where "plain = takeWhile (\<lambda>c. c \<noteq> CHR 0x22 \<and> c \<noteq> CHR 0x5C) body"
  from a obtain e r where e: "drop (length plain) body = e # r"
    and "(v, rest) = (plain, r) \<or> unescape_loop plain True r = Inr (v, rest)"
    unfolding d parse_quoted_string_def plain_def
    by (auto simp: Let_def split: if_splits list.splits)
  then have "length rest \<le> length r" by (auto dest: unescape_loop_shorter)
  moreover have "length (e # r) \<le> length body" unfolding e [symmetric] by simp
  ultimately show ?thesis by (simp add: d)
qed

lemma finish_quoted_Inr:
  "finish_quoted key data = Inr (k, v, rest) \<longleftrightarrow>
     k = key \<and> (\<exists>r. parse_quoted_string data = Inr (v, r) \<and> (r = [] \<and> rest = [] \<or> r = CHR '','' # rest))"
  by (cases "parse_quoted_string data") (auto simp: finish_quoted_def split: list.split prod.split)

lemma finish_quoted_shorter: "finish_quoted key data = Inr (k, v, rest) \<Longrightarrow> length rest < length data"
  unfolding finish_quoted_Inr using parse_quoted_string_shorter by fastforce

lemma split_key_length: "length (snd (split_key data)) \<le> length data"
  by (auto simp: split_key_def ascii_split_off_def split: option.splits)

lemma split_value_length: "data \<noteq> [] \<Longrightarrow> length (snd (split_value data)) < length data"
  by (auto simp: split_value_def ascii_split_off_def split: option.splits)

lemma next_property_shorter:
  assumes "next_property data = Some (Inr (k, v, rest))"
  shows "length rest < length data"
proof -
  have data: "data \<noteq> []" using assms by (auto simp: next_property_def)
  obtain key d where kd: "split_key data = (key, d)" by fastforce
  note len = split_key_length [of data, unfolded kd snd_conv]
  have "finish_quoted None data = Inr (k, v, rest) \<or> split_value d = (v, rest) \<or>
        finish_quoted key d = Inr (k, v, rest)"
    using assms data by (auto simp: next_property_def kd split: if_splits prod.splits)
  moreover have "split_value [] = ([], [])" by (simp add: split_value_def find_byte_def)
  ultimately show ?thesis
    using len data split_value_length [of d] finish_quoted_shorter [of _ _ k v rest]
    by (cases "d = []") fastforce+
qed

text \<open>The loop over \<open>PropertyIterator\<close>, up to the first error.\<close>

function property_list :: "string \<Rightarrow> (error, (string option \<times> string) list) result" where
  "property_list data =
     (case next_property data of
        None \<Rightarrow> Inr []
      | Some (Inl e) \<Rightarrow> Inl e
      | Some (Inr (k, v, rest)) \<Rightarrow> and_then (property_list rest) (\<lambda>xs. Inr ((k, v) # xs)))"
  by pat_completeness auto
termination
  by (relation "measure length") (auto dest: next_property_shorter)

declare property_list.simps [simp del]

text \<open>\<open>parse_object\<close>: values without a key go to the default key.\<close>

fun assign_keys ::
  "string option \<Rightarrow> (string option \<times> string) list \<Rightarrow> (error, (string \<times> string) list) result" where
  "assign_keys dk [] = Inr []"
| "assign_keys dk ((k, v) # rest) =
     (case (case k of Some k' \<Rightarrow> Some k' | None \<Rightarrow> dk) of
        Some k' \<Rightarrow> and_then (assign_keys dk rest) (\<lambda>xs. Inr ((k', v) # xs))
      | None \<Rightarrow> Inl (Msg ''Value without key, but schema does not define a default key.''))"

definition parse_object ::
  "schema_env \<Rightarrow> schema \<Rightarrow> string option \<Rightarrow> string \<Rightarrow> (error, json) result option" where
  "parse_object env s dk v =
     (case and_then (property_list v) (assign_keys dk) of
        Inl e \<Rightarrow> Some (Inl e)
      | Inr list \<Rightarrow> do_parse_parameter_strings env s list True)"

fun parse_elements :: "schema_env \<Rightarrow> schema \<Rightarrow> string list \<Rightarrow> (error, json list) result option" where
  "parse_elements env items [] = Some (Inr [])"
| "parse_elements env items (v # vs) =
     (case parse_simple_value env items (trim v) of
        None \<Rightarrow> None
      | Some (Inl e) \<Rightarrow> Some (Inl (ArrayElement e))
      | Some (Inr x) \<Rightarrow>
          map_option (\<lambda>r. and_then r (\<lambda>xs. Inr (x # xs))) (parse_elements env items vs))"

definition array_separator :: "char \<Rightarrow> bool" where
  "array_separator c \<longleftrightarrow> c \<in> {CHR '','', CHR '';'', CHR '' '', CHR 0x09, CHR 0x0A, CHR 0x0C, CHR 0x0D}"

text \<open>\<open>str::split\<close> by a predicate.\<close>

fun split_by :: "(char \<Rightarrow> bool) \<Rightarrow> string \<Rightarrow> string list" where
  "split_by p [] = [[]]"
| "split_by p (c # cs) =
     (if p c then [] # split_by p cs
      else case split_by p cs of [] \<Rightarrow> [[c]] | x # xs \<Rightarrow> (c # x) # xs)"

definition parse_array ::
  "schema_env \<Rightarrow> schema \<Rightarrow> nat option \<Rightarrow> nat option \<Rightarrow> string \<Rightarrow> (error, json) result option" where
  "parse_array env items mn mx v =
     map_option
       (\<lambda>r. and_then r (\<lambda>xs. and_then (check_length ArrayMinLength ArrayMaxLength mn mx (length xs))
              (\<lambda>_. Inr (JArray xs))))
       (parse_elements env items (filter (\<lambda>x. x \<noteq> []) (split_by array_separator v)))"

definition parse_property_string :: "schema_env \<Rightarrow> schema \<Rightarrow> string \<Rightarrow> (error, json) result option" where
  "parse_property_string env s v =
     (case s of
        ObjectSchema _ _ dk _ \<Rightarrow> parse_object env s dk v
      | AllOfSchema _ \<Rightarrow> parse_object env s None v
      | ArraySchema items mn mx \<Rightarrow> parse_array env items mn mx v
      | _ \<Rightarrow> Some (Inl (Msg ''Got unexpected schema type.'')))"

section \<open>Serializing\<close>

text \<open>The serde data model as far as the serializers tell values apart. \<open>SDisplay\<close> is a value written
  by its \<open>Display\<close> text: booleans, numbers and characters.\<close>

datatype ser_value =
    SDisplay string
  | SStr string
  | SBytes
  | SNone
  | SUnit
  | SUnitVariant string
  | SSome ser_value
  | SNewtypeStruct ser_value
  | SNewtypeVariant ser_value
  | SSeq "ser_value list"
  | SStruct "(string \<times> ser_value) list"

fun quote :: "string \<Rightarrow> string" where
  "quote [] = []"
| "quote (c # cs) =
     (if c = CHR 0x22 then [CHR 0x5C, CHR 0x22]
      else if c = CHR 0x5C then [CHR 0x5C, CHR 0x5C]
      else if c = CHR 0x0A then [CHR 0x5C, CHR ''n'']
      else [c]) @ quote cs"

definition quoted :: "string \<Rightarrow> string" where
  "quoted s = [CHR 0x22] @ quote s @ [CHR 0x22]"

text \<open>\<open>ElementSerializer::serialize_str\<close>.\<close>

definition needs_quotes :: "string \<Rightarrow> bool" where
  "needs_quotes v = list_ex (\<lambda>c. c = CHR 0x22 \<or> c = CHR 0x5C \<or> c = CHR 0x0A) v"

definition serialize_str :: "string \<Rightarrow> string" where
  "serialize_str v = (if needs_quotes v then quoted v else v)"

text \<open>\<open>ElementSerializeSeq::finish\<close>.\<close>

definition finish_seq :: "string \<Rightarrow> string" where
  "finish_seq v =
     (if list_ex (\<lambda>c. c \<in> {CHR '','', CHR '';'', CHR '' '', CHR 0x22, CHR 0x5C, CHR 0x0A}) v
      then quoted v else v)"

fun collect_type_properties :: "schema \<Rightarrow> string list" where
  "collect_type_properties (OneOfSchema te list) =
     fst te # concat (map (\<lambda>(_, s). collect_type_properties s) list)"
| "collect_type_properties (AllOfSchema list) = concat (map collect_type_properties list)"
| "collect_type_properties _ = []"

record struct_state =
  inner :: string
  comma :: bool
  type_properties :: "(string \<times> string option) list"

definition struct_init :: "schema option \<Rightarrow> (error, struct_state) result" where
  "struct_init s =
     (case s of
        Some s' \<Rightarrow>
          if is_object_schema s' then
            Inr \<lparr>inner = [], comma = False,
                 type_properties = fold (\<lambda>n. hm_insert n None) (collect_type_properties s') []\<rparr>
          else Inl (Msg ''property string serializer used for object with non-object schema'')
      | None \<Rightarrow> Inr \<lparr>inner = [], comma = False, type_properties = []\<rparr>)"

text \<open>\<open>do_key\<close>: the schema and the type property name for the value that follows.\<close>

definition write_comma :: "struct_state \<Rightarrow> struct_state" where
  "write_comma st = st\<lparr>inner := inner st @ (if comma st then '','' else []), comma := True\<rparr>"

definition do_key ::
  "schema option \<Rightarrow> string \<Rightarrow> struct_state \<Rightarrow>
   (error, struct_state \<times> schema option \<times> string option) result" where
  "do_key s key0 st =
     (let key = serialize_str key0; st1 = write_comma st in
      case s of
        None \<Rightarrow> Inr (st1\<lparr>inner := inner st1 @ key @ ''=''\<rparr>, None, None)
      | Some s' \<Rightarrow>
          (let tp = (if hm_contains_key (type_properties st) key then Some key else None);
               found = lookup_schema s' key (\<lambda>n. Option.bind (hm_get (type_properties st) n) (\<lambda>v. v))
           in if found = None \<and> \<not> additional_properties s' then
                if lookup_all s' key \<noteq> [] then
                  Inl (Msg ''key is not part of the active oneOf variant (it exists in a different one)'')
                else Inl (Msg ''key is not part of the schema and it does not allow additional properties'')
              else
                Inr (if default_key s' = Some key then st1 else st1\<lparr>inner := inner st1 @ key @ ''=''\<rparr>,
                     map_option snd found, Option.bind found (\<lambda>_. tp))))"

text \<open>\<open>do_value\<close> after the value has been written to a string of its own.\<close>

definition do_value :: "string option \<Rightarrow> string \<Rightarrow> struct_state \<Rightarrow> (error, struct_state) result" where
  "do_value tp v st =
     (let st1 = st\<lparr>inner := inner st @ v\<rparr> in
      case tp of
        None \<Rightarrow> Inr st1
      | Some name \<Rightarrow>
          and_then (if v \<noteq> [] \<and> hd v = CHR 0x22 then and_then (parse_quoted_string v) (\<lambda>(t, _). Inr t) else Inr v)
            (\<lambda>t. Inr (st1\<lparr>type_properties := hm_insert name (Some t) (type_properties st1)\<rparr>)))"

function (sequential) element :: "schema option \<Rightarrow> ser_value \<Rightarrow> (error, string) result"
  and seq_elements :: "schema option \<Rightarrow> ser_value list \<Rightarrow> bool \<Rightarrow> (error, string) result"
  and struct_fields ::
    "schema option \<Rightarrow> (string \<times> ser_value) list \<Rightarrow> struct_state \<Rightarrow> (error, struct_state) result" where
  "element s (SDisplay t) = Inr t"
| "element s (SStr v) = Inr (serialize_str v)"
| "element s SBytes = Inl (Msg ''raw byte value not supported in property string'')"
| "element s SNone = Inl (Msg ''tried to serialize a None value'')"
| "element s SUnit = Inl (Msg ''tried to serialize a unit value'')"
| "element s (SUnitVariant v) = Inr v"
| "element s (SSome v) = element s v"
| "element s (SNewtypeStruct v) = element s v"
| "element s (SNewtypeVariant v) = element s v"
| "element s (SSeq vs) =
     (case s of
        None \<Rightarrow> and_then (seq_elements None vs False) (\<lambda>t. Inr (finish_seq t))
      | Some (ArraySchema items _ _) \<Rightarrow>
          and_then (seq_elements (Some items) vs False) (\<lambda>t. Inr (finish_seq t))
      | Some _ \<Rightarrow> Inl (Msg ''property string serializer used for array with non-array schema''))"
| "element s (SStruct kvs) =
     (case struct_init s of
        Inl e \<Rightarrow> Inl e
      | Inr st \<Rightarrow> and_then (struct_fields s kvs st) (\<lambda>st. Inr (quoted (inner st))))"
| "seq_elements s [] sep = Inr []"
| "seq_elements s (v # vs) sep =
     and_then (element s v)
       (\<lambda>t. and_then (seq_elements s vs True) (\<lambda>ts. Inr ((if sep then '','' else []) @ t @ ts)))"
| "struct_fields s [] st = Inr st"
| "struct_fields s ((k, v) # kvs) st =
     (case do_key s k st of
        Inl e \<Rightarrow> Inl e
      | Inr (st1, vs, tp) \<Rightarrow>
          and_then (element vs v)
            (\<lambda>t. and_then (do_value tp t st1) (struct_fields s kvs)))"
  by pat_completeness auto
termination
  by (relation "measure (\<lambda>x. case x of
        Inl (_, v) \<Rightarrow> size v
      | Inr (Inl (_, vs, _)) \<Rightarrow> size_list size vs
      | Inr (Inr (_, kvs, _)) \<Rightarrow> size_list (size_prod (\<lambda>_. 0) size) kvs)") auto

text \<open>\<open>property_string::print\<close>: the serializer of the top level takes objects and arrays only.\<close>

fun print_property_string :: "schema \<Rightarrow> ser_value \<Rightarrow> (error, string) result" where
  "print_property_string s (SNewtypeStruct v) = print_property_string s v"
| "print_property_string s (SNewtypeVariant v) = Inl (Msg ''cannot serialize enum with newtype variants'')"
| "print_property_string s (SSeq vs) =
     (case s of
        ArraySchema items _ _ \<Rightarrow> seq_elements (Some items) vs False
      | _ \<Rightarrow> Inl (Msg ''property string serializer used for array with non-array schema''))"
| "print_property_string s (SStruct kvs) =
     and_then (struct_init (Some s))
       (\<lambda>st. and_then (struct_fields (Some s) kvs st) (\<lambda>st. Inr (inner st)))"
| "print_property_string s _ = Inl (Msg ''property string serializer used with a non-object/array type'')"

section \<open>Reading back what was written\<close>

lemma unescape_quote: "unescape_loop out False (quote s @ CHR 0x22 # rest) = Inr (out @ s, rest)"
  by (induction s arbitrary: out) auto

lemma quote_append: "quote (s @ t) = quote s @ quote t"
  by (induction s) auto

lemma quote_plain: "\<not> needs_quotes s \<Longrightarrow> quote s = s"
  by (induction s) (auto simp: needs_quotes_def)

lemma parse_quoted: "parse_quoted_string (quoted s @ rest) = Inr (s, rest)"
proof -
  let ?q = "\<lambda>c. c = CHR 0x22 \<or> c = CHR 0x5C \<or> c = CHR 0x0A"
  define p where "p = takeWhile (\<lambda>c. \<not> ?q c) s"
  define r where "r = dropWhile (\<lambda>c. \<not> ?q c) s"
  have s: "s = p @ r" by (simp add: p_def r_def)
  have p: "\<And>c. c \<in> set p \<Longrightarrow> \<not> ?q c" unfolding p_def by (blast dest: set_takeWhileD)
  have qp: "quote p = p" using p by (intro quote_plain) (auto simp: needs_quotes_def list_ex_iff)
  have stop: "takeWhile (\<lambda>c. c \<noteq> CHR 0x22 \<and> c \<noteq> CHR 0x5C) (p @ d # x) = p" if "d = CHR 0x22 \<or> d = CHR 0x5C" for d x
    using that p by (subst takeWhile_append2) auto
  show ?thesis
  proof (cases r)
    case Nil
    then show ?thesis
      using stop [of "CHR 0x22"] by (simp add: s parse_quoted_string_def quoted_def qp)
  next
    case (Cons c cs)
    then have c: "?q c" unfolding r_def using hd_dropWhile [of "\<lambda>c. \<not> ?q c" s] by simp
    define e where "e = (if c = CHR 0x0A then CHR ''n'' else c)"
    have "quote r = CHR 0x5C # e # quote cs" using c Cons by (auto simp: e_def)
    moreover have "unescape_loop p True (e # quote cs @ CHR 0x22 # rest) = Inr (s, rest)"
      using c unescape_quote [of "p @ [c]" cs rest] by (auto simp: e_def s Cons)
    ultimately show ?thesis
      using stop [of "CHR 0x5C"] by (simp add: s parse_quoted_string_def quoted_def quote_append qp)
  qed
qed

lemma find_byte_append:
  "list_all (\<lambda>c. \<not> p c) xs \<Longrightarrow> p c \<Longrightarrow> find_byte p (xs @ c # ys) = Some (length xs)"
  by (auto simp: find_byte_def list_all_iff takeWhile_append2)

lemma find_byte_None: "list_all (\<lambda>c. \<not> p c) xs \<Longrightarrow> find_byte p xs = None"
  by (auto simp: find_byte_def list_all_iff list_ex_iff)

text \<open>Keys and values that survive, and the text behind a value: nothing or a comma and the rest.\<close>

definition clean_key :: "string \<Rightarrow> bool" where
  "clean_key k = (\<not> needs_quotes k \<and> CHR '','' \<notin> set k \<and> CHR ''='' \<notin> set k)"

definition keeps_value :: "string \<Rightarrow> bool" where
  "keeps_value v = (needs_quotes v \<or> CHR '','' \<notin> set v)"

definition keeps_bare_value :: "string \<Rightarrow> bool" where
  "keeps_bare_value v = (needs_quotes v \<or> v \<noteq> [] \<and> CHR '','' \<notin> set v \<and> CHR ''='' \<notin> set v)"

definition tail :: "string option \<Rightarrow> string" where
  "tail r = (case r of None \<Rightarrow> [] | Some rest \<Rightarrow> CHR '','' # rest)"

definition tail_rest :: "string option \<Rightarrow> string" where
  "tail_rest r = (case r of None \<Rightarrow> [] | Some rest \<Rightarrow> rest)"

lemma finish_quoted_quoted: "finish_quoted key (quoted v @ tail r) = Inr (key, v, tail_rest r)"
  by (auto simp: finish_quoted_Inr parse_quoted tail_def tail_rest_def split: option.split)

lemma split_value_tail: "CHR '','' \<notin> set v \<Longrightarrow> split_value (v @ tail r) = (v, tail_rest r)"
proof (cases r)
  case (Some rest)
  moreover assume "CHR '','' \<notin> set v"
  then have "find_byte (\<lambda>c. c = CHR '','') (v @ CHR '','' # rest) = Some (length v)"
    by (intro find_byte_append) (auto simp: list_all_iff)
  ultimately show ?thesis by (simp add: split_value_def tail_def tail_rest_def ascii_split_off_def)
next
  case None
  moreover assume "CHR '','' \<notin> set v"
  then have "find_byte (\<lambda>c. c = CHR '','') v = None"
    by (intro find_byte_None) (auto simp: list_all_iff)
  ultimately show ?thesis by (simp add: split_value_def tail_def tail_rest_def)
qed

lemma split_key_key: "clean_key k \<Longrightarrow> split_key (k @ CHR ''='' # d) = (Some k, d)"
proof -
  assume "clean_key k"
  then have "find_byte (\<lambda>c. c = CHR '','' \<or> c = CHR ''='') (k @ CHR ''='' # d) = Some (length k)"
    by (intro find_byte_append) (auto simp: list_all_iff clean_key_def)
  then show ?thesis by (simp add: split_key_def ascii_split_off_def)
qed

lemma split_key_none:
  assumes "CHR '','' \<notin> set v" and "CHR ''='' \<notin> set v"
  shows "split_key (v @ tail r) = (None, v @ tail r)"
proof (cases r)
  case (Some rest)
  moreover have "find_byte (\<lambda>c. c = CHR '','' \<or> c = CHR ''='') (v @ CHR '','' # rest) = Some (length v)"
    using assms by (intro find_byte_append) (auto simp: list_all_iff)
  ultimately show ?thesis by (simp add: split_key_def tail_def)
next
  case None
  have "find_byte (\<lambda>c. c = CHR '','' \<or> c = CHR ''='') v = None"
    using assms by (intro find_byte_None) (auto simp: list_all_iff)
  with None show ?thesis by (simp add: split_key_def tail_def)
qed

lemma hd_not_quote: "\<not> needs_quotes v \<Longrightarrow> v @ tail r \<noteq> [] \<Longrightarrow> hd (v @ tail r) \<noteq> CHR 0x22"
  by (cases v) (auto simp: needs_quotes_def tail_def split: option.splits)

lemma next_property_keyed:
  assumes "clean_key k" and "keeps_value v"
  shows "next_property (k @ CHR ''='' # serialize_str v @ tail r) = Some (Inr (Some k, v, tail_rest r))"
proof -
  have "hd (k @ CHR ''='' # x) \<noteq> CHR 0x22" for x
    using assms(1) by (cases k) (auto simp: clean_key_def needs_quotes_def)
  then have step: "next_property (k @ CHR ''='' # d) =
      (if d = [] \<or> hd d \<noteq> CHR 0x22 then (case split_value d of (v, rest) \<Rightarrow> Some (Inr (Some k, v, rest)))
       else Some (finish_quoted (Some k) d))" for d
    by (simp add: next_property_def split_key_key [OF assms(1)])
  show ?thesis
  proof (cases "needs_quotes v")
    case True
    moreover have "hd (quoted v @ x) = CHR 0x22" "quoted v \<noteq> []" for x by (simp_all add: quoted_def)
    ultimately show ?thesis
      using finish_quoted_quoted [of "Some k" v r] by (simp add: step serialize_str_def)
  next
    case False
    with assms(2) show ?thesis
      using hd_not_quote [OF False, of r] split_value_tail [of v r]
      by (auto simp: step serialize_str_def keeps_value_def)
  qed
qed

lemma next_property_bare:
  assumes "keeps_bare_value v"
  shows "next_property (serialize_str v @ tail r) = Some (Inr (None, v, tail_rest r))"
proof (cases "needs_quotes v")
  case True
  moreover have "hd (quoted v @ x) = CHR 0x22" "quoted v \<noteq> []" for x by (simp_all add: quoted_def)
  ultimately show ?thesis
    using finish_quoted_quoted [of None v r] by (simp add: next_property_def serialize_str_def)
next
  case False
  with assms have v: "v \<noteq> []" "CHR '','' \<notin> set v" "CHR ''='' \<notin> set v" by (auto simp: keeps_bare_value_def)
  with hd_not_quote [OF False, of r] False split_key_none [OF v(2,3)] split_value_tail [OF v(2)]
  show ?thesis by (simp add: next_property_def serialize_str_def)
qed

fun field_text :: "string option \<Rightarrow> bool \<Rightarrow> (string \<times> string) list \<Rightarrow> string" where
  "field_text dk c [] = []"
| "field_text dk c ((k, v) # kvs) =
     (if c then '','' else []) @ (if dk = Some k then [] else k @ ''='') @ serialize_str v @
     field_text dk True kvs"

lemma do_key_text:
  assumes "clean_key k" and "do_key (Some s) k st = Inr (st', vs, tp)"
  shows "inner st' = inner st @ (if comma st then '','' else []) @ (if default_key s = Some k then [] else k @ ''='') \<and>
         comma st'"
proof -
  have "serialize_str k = k" using assms(1) by (simp add: clean_key_def serialize_str_def)
  with assms(2) show ?thesis by (auto simp: do_key_def Let_def write_comma_def split: if_splits)
qed

lemma do_value_text: "do_value tp t st = Inr st' \<Longrightarrow> inner st' = inner st @ t \<and> comma st' = comma st"
  by (auto simp: do_value_def Let_def and_then_eq_Inr split: option.splits if_splits)

lemma struct_fields_text:
  "list_all (\<lambda>(k, _). clean_key k) kvs \<Longrightarrow>
     struct_fields (Some s) (map (\<lambda>(k, v). (k, SStr v)) kvs) st = Inr st' \<Longrightarrow>
     inner st' = inner st @ field_text (default_key s) (comma st) kvs"
proof (induction kvs arbitrary: st)
  case (Cons kv kvs)
  obtain k v where kv: "kv = (k, v)" by fastforce
  with Cons.prems obtain st1 vs tp st2 where
    key: "do_key (Some s) k st = Inr (st1, vs, tp)" and val: "do_value tp (serialize_str v) st1 = Inr st2"
    and rest: "struct_fields (Some s) (map (\<lambda>(k, v). (k, SStr v)) kvs) st2 = Inr st'"
    by (auto simp: and_then_eq_Inr split: sum.splits prod.splits)
  have "clean_key k" "list_all (\<lambda>(k, _). clean_key k) kvs" using Cons.prems(1) kv by auto
  with Cons.IH [OF _ rest] do_key_text [OF _ key] do_value_text [OF val] show ?case
    by (simp add: kv)
qed simp

lemma print_text:
  assumes "list_all (\<lambda>(k, _). clean_key k) kvs"
    and "print_property_string s (SStruct (map (\<lambda>(k, v). (k, SStr v)) kvs)) = Inr t"
  shows "t = field_text (default_key s) False kvs"
  using assms struct_fields_text [OF assms(1)]
  by (auto simp: and_then_eq_Inr struct_init_def split: if_splits)

definition reads_back :: "string option \<Rightarrow> string \<times> string \<Rightarrow> bool" where
  "reads_back dk kv =
     (case kv of (k, v) \<Rightarrow> clean_key k \<and> (if dk = Some k then keeps_bare_value v else keeps_value v))"

lemma field_text_tail: "kvs \<noteq> [] \<Longrightarrow> field_text dk True kvs = tail (Some (field_text dk False kvs))"
  by (cases kvs) (auto simp: tail_def)

lemma property_list_field_text:
  "list_all (reads_back dk) kvs \<Longrightarrow>
     property_list (field_text dk False kvs) =
       Inr (map (\<lambda>(k, v). (if dk = Some k then None else Some k, v)) kvs)"
proof (induction kvs)
  case Nil
  then show ?case by (simp add: property_list.simps next_property_def)
next
  case (Cons kv kvs)
  obtain k v where kv: "kv = (k, v)" by fastforce
  define r where "r = (if kvs = [] then None else Some (field_text dk False kvs))"
  have r: "field_text dk True kvs = tail r" "tail_rest r = field_text dk False kvs"
    using field_text_tail [of kvs dk] by (auto simp: r_def tail_def tail_rest_def)
  have "next_property (field_text dk False (kv # kvs)) =
      Some (Inr (if dk = Some k then None else Some k, v, field_text dk False kvs))"
    using Cons.prems next_property_keyed [of k v r] next_property_bare [of v r]
    by (auto simp: kv reads_back_def r)
  then have "property_list (field_text dk False (kv # kvs)) =
      and_then (property_list (field_text dk False kvs))
        (\<lambda>xs. Inr ((if dk = Some k then None else Some k, v) # xs))"
    by (subst property_list.simps) (simp only: option.case sum.case prod.case)
  with Cons show ?case by (simp add: kv del: field_text.simps)
qed



text \<open>A comma in a string value is not quoted: a struct with one field whose value is any text, a
  comma, another key, an equals sign and another text reads back as two properties. The writer of one
  field can so set a second one.\<close>

theorem unquoted_comma_adds_property:
  assumes "clean_key k" and "clean_key k2" and "default_key s \<noteq> Some k"
    and "\<not> needs_quotes v1" and "CHR '','' \<notin> set v1" and "\<not> needs_quotes v2" and "CHR '','' \<notin> set v2"
    and "print_property_string s (SStruct [(k, SStr (v1 @ '','' @ k2 @ ''='' @ v2))]) = Inr t"
  shows "property_list t = Inr [(Some k, v1), (Some k2, v2)]"
proof -
  let ?v = "v1 @ '','' @ k2 @ ''='' @ v2"
  have "\<not> needs_quotes ?v" using assms(2,4,6) by (auto simp: needs_quotes_def clean_key_def)
  then have "t = k @ CHR ''='' # serialize_str v1 @ tail (Some (k2 @ CHR ''='' # serialize_str v2 @ tail None))"
    using print_text [of "[(k, ?v)]" s t] assms(1,3,4,6,8) by (simp add: serialize_str_def tail_def)
  then show ?thesis
    using next_property_keyed [OF assms(1), of v1 "Some (k2 @ CHR ''='' # serialize_str v2 @ tail None)"]
      next_property_keyed [OF assms(2), of v2 None] assms(5,7)
    by (simp add: property_list.simps keeps_value_def tail_rest_def next_property_def)
qed

theorem unquoted_comma_adds_property_witness:
  "property_list ''comment=x,admin=1'' = Inr [(Some ''comment'', ''x''), (Some ''admin'', ''1'')]"
proof -
  let ?s = "ObjectSchema [(''admin'', True, BooleanSchema None),
                          (''comment'', False, StringSchema None None None False)] False None []"
  have "print_property_string ?s (SStruct [(''comment'', SStr (''x'' @ '','' @ ''admin'' @ ''='' @ ''1''))]) =
      Inr ''comment=x,admin=1''"
    by code_simp
  then show ?thesis
    by (rule unquoted_comma_adds_property [rotated 7]) code_simp+
qed

end
