(* ===== verification/Auth_Types.thy ===== *)
theory Auth_Types
  imports Schema_Verify
begin

text \<open>
  User ids and authentication ids of \<open>proxmox-auth-api/src/types.rs\<close>: \<open>user@realm\<close> with an optional
  \<open>!token\<close>. The regular expressions are matched by the engine of the environment; \<open>safe_id_spec\<close> states
  what it does for the pattern of realms and token names.
\<close>

section \<open>Names, realms and tokens\<close>

definition SAFE_ID_REGEX_STR :: string where
  "SAFE_ID_REGEX_STR = ''(?:[A-Za-z0-9_][A-Za-z0-9._'' @ [CHR 0x5C] @ ''-]*)''"

definition USER_NAME_REGEX_STR :: string where
  "USER_NAME_REGEX_STR = ''(?:[^'' @ [CHR 0x5C] @ ''s:/[:cntrl:]]+)''"

definition PROXMOX_USER_NAME_REGEX :: string where
  "PROXMOX_USER_NAME_REGEX = ''^'' @ USER_NAME_REGEX_STR @ ''$''"

definition PROXMOX_TOKEN_NAME_REGEX :: string where
  "PROXMOX_TOKEN_NAME_REGEX = ''^'' @ SAFE_ID_REGEX_STR @ ''$''"

definition SAFE_ID_REGEX :: string where
  "SAFE_ID_REGEX = ''^'' @ SAFE_ID_REGEX_STR @ ''$''"

text \<open>\<open>PROXMOX_AUTH_REALM_STRING_SCHEMA.check_constraints\<close>.\<close>

definition check_realm :: "schema_env \<Rightarrow> string \<Rightarrow> (error, unit) result" where
  "check_realm env s = string_check env (Some 2) (Some 32) (Some (Pattern SAFE_ID_REGEX)) False s"

definition username_try_from :: "schema_env \<Rightarrow> string \<Rightarrow> (error, string) result" where
  "username_try_from env s =
     (if is_match env PROXMOX_USER_NAME_REGEX s then Inr s else Inl (Msg ''invalid user name''))"

definition realm_try_from :: "schema_env \<Rightarrow> string \<Rightarrow> (error, string) result" where
  "realm_try_from env s =
     (case check_realm env s of Inl _ \<Rightarrow> Inl (Msg ''invalid realm'') | Inr _ \<Rightarrow> Inr s)"

definition tokenname_try_from :: "schema_env \<Rightarrow> string \<Rightarrow> (error, string) result" where
  "tokenname_try_from env s =
     (if is_match env PROXMOX_TOKEN_NAME_REGEX s then Inr s else Inl (Msg ''invalid token name''))"

section \<open>User ids\<close>

record userid =
  data :: string
  name_len :: nat

definition userid_name :: "userid \<Rightarrow> string" where
  "userid_name u = take (name_len u) (data u)"

definition userid_realm :: "userid \<Rightarrow> string" where
  "userid_realm u = drop (name_len u + 1) (data u)"

definition userid_from_parts :: "string \<Rightarrow> string \<Rightarrow> userid" where
  "userid_from_parts name realm = \<lparr>data = name @ ''@'' @ realm, name_len = length name\<rparr>"

definition root_userid :: userid where
  "root_userid = \<lparr>data = ''root@pam'', name_len = 4\<rparr>"

definition userid_from_str :: "schema_env \<Rightarrow> string \<Rightarrow> (error, userid) result" where
  "userid_from_str env tx =
     and_then (ok_or (Msg ''not a valid user id'') (rposition (\<lambda>b. b = CHR ''@'') tx))
       (\<lambda>n. let name = take n tx; realm = drop (n + 1) tx in
            if \<not> is_match env PROXMOX_USER_NAME_REGEX name then Inl (Msg ''invalid user name in user id'')
            else case check_realm env realm of
                Inl _ \<Rightarrow> Inl (Msg ''invalid realm in user id'')
              | Inr _ \<Rightarrow> Inr (userid_from_parts name realm))"

definition userid_try_from :: "schema_env \<Rightarrow> string \<Rightarrow> (error, userid) result" where
  "userid_try_from env tx =
     and_then (ok_or (Msg ''not a valid user id'') (rposition (\<lambda>b. b = CHR ''@'') tx))
       (\<lambda>n. if \<not> is_match env PROXMOX_USER_NAME_REGEX (take n tx) then
              Inl (Msg ''invalid user name in user id'')
            else case check_realm env (drop (n + 1) tx) of
                Inl _ \<Rightarrow> Inl (Msg ''invalid realm in user id'')
              | Inr _ \<Rightarrow> Inr \<lparr>data = tx, name_len = n\<rparr>)"

section \<open>Authentication ids\<close>

record authid =
  user :: userid
  tokenname :: "string option"

definition is_token :: "authid \<Rightarrow> bool" where
  "is_token a = (tokenname a \<noteq> None)"

definition authid_of_user :: "userid \<Rightarrow> authid" where
  "authid_of_user u = \<lparr>user = u, tokenname = None\<rparr>"

definition root_auth_id :: authid where
  "root_auth_id = authid_of_user root_userid"

definition authid_display :: "authid \<Rightarrow> string" where
  "authid_display a =
     (case tokenname a of
        Some token \<Rightarrow> data (user a) @ ''!'' @ token
      | None \<Rightarrow> data (user a))"

definition realm_end :: "string \<Rightarrow> nat \<Rightarrow> nat" where
  "realm_end tx n =
     (case rposition (\<lambda>b. b = CHR ''!'') tx of
        Some pos \<Rightarrow> if pos < n then length tx else pos
      | None \<Rightarrow> length tx)"

definition authid_from_str :: "schema_env \<Rightarrow> string \<Rightarrow> (error, authid) result" where
  "authid_from_str env tx =
     and_then (ok_or (Msg ''not a valid user id'') (rposition (\<lambda>b. b = CHR ''@'') tx))
       (\<lambda>n. let e = realm_end tx n in
            if e = length tx - 1 then Inl (Msg ''empty token name in userid'')
            else and_then (userid_from_str env (take e tx))
              (\<lambda>u. if length tx > e then
                     and_then (tokenname_try_from env (drop (e + 1) tx))
                       (\<lambda>t. Inr \<lparr>user = u, tokenname = Some t\<rparr>)
                   else Inr \<lparr>user = u, tokenname = None\<rparr>))"

definition authid_try_from :: "schema_env \<Rightarrow> string \<Rightarrow> (error, authid) result" where
  "authid_try_from env tx =
     and_then (ok_or (Msg ''not a valid user id'') (rposition (\<lambda>b. b = CHR ''@'') tx))
       (\<lambda>n. let e = realm_end tx n in
            if e = length tx - 1 then Inl (Msg ''empty token name in userid'')
            else and_then
              (if length tx > e then and_then (tokenname_try_from env (drop (e + 1) tx)) (\<lambda>t. Inr (Some t))
               else Inr None)
              (\<lambda>t. and_then (userid_from_str env (take e tx)) (\<lambda>u. Inr \<lparr>user = u, tokenname = t\<rparr>)))"

section \<open>Well-formed ids\<close>

definition userid_wf :: "schema_env \<Rightarrow> userid \<Rightarrow> bool" where
  "userid_wf env u =
     (name_len u < length (data u) \<and> data u ! name_len u = CHR ''@'' \<and>
      is_match env PROXMOX_USER_NAME_REGEX (userid_name u) \<and> check_realm env (userid_realm u) = Inr ())"

definition authid_wf :: "schema_env \<Rightarrow> authid \<Rightarrow> bool" where
  "authid_wf env a =
     (userid_wf env (user a) \<and>
      (\<forall>t. tokenname a = Some t \<longrightarrow> is_match env PROXMOX_TOKEN_NAME_REGEX t))"

definition word_byte :: "char \<Rightarrow> bool" where
  "word_byte c =
     (CHR ''A'' \<le> c \<and> c \<le> CHR ''Z'' \<or> CHR ''a'' \<le> c \<and> c \<le> CHR ''z'' \<or>
      CHR ''0'' \<le> c \<and> c \<le> CHR ''9'' \<or> c = CHR ''_'')"

definition safe_id :: "string \<Rightarrow> bool" where
  "safe_id s =
     (case s of
        [] \<Rightarrow> False
      | c # cs \<Rightarrow> word_byte c \<and> list_all (\<lambda>c. word_byte c \<or> c = CHR ''.'' \<or> c = CHR ''-'') cs)"

text \<open>What the engine does with the anchored pattern of safe ids.\<close>

definition safe_id_spec :: "schema_env \<Rightarrow> bool" where
  "safe_id_spec env = (\<forall>s. is_match env SAFE_ID_REGEX s = safe_id s)"

lemma safe_id_bytes: "safe_id s \<Longrightarrow> c \<in> set s \<Longrightarrow> c \<noteq> CHR ''@'' \<and> c \<noteq> CHR ''!'' \<and> c \<noteq> CHR ''/'' \<and> c \<noteq> CHR '':'' \<and> c \<noteq> CHR '',''"
  by (cases s) (auto simp: safe_id_def word_byte_def list_all_iff)

lemma token_regex: "PROXMOX_TOKEN_NAME_REGEX = SAFE_ID_REGEX"
  by (simp add: PROXMOX_TOKEN_NAME_REGEX_def SAFE_ID_REGEX_def)

lemma check_realm_safe: "safe_id_spec env \<Longrightarrow> check_realm env r = Inr () \<Longrightarrow> safe_id r"
  by (simp add: check_realm_def string_check_ok format_accepts_def safe_id_spec_def)

lemma check_realm_length: "check_realm env r = Inr () \<Longrightarrow> r \<noteq> []"
  by (auto simp: check_realm_def string_check_ok in_bounds_def chars_count_def)

lemma take_at_drop: "i < length xs \<Longrightarrow> xs ! i = c \<Longrightarrow> take i xs @ c # drop (Suc i) xs = xs"
  using id_take_nth_drop [of i xs] by simp

lemma userid_wf_split:
  assumes "userid_wf env u"
  shows "data u = userid_name u @ CHR ''@'' # userid_realm u" and "length (userid_name u) = name_len u"
  using assms by (auto simp: userid_wf_def userid_name_def userid_realm_def take_at_drop)

lemma userid_from_str_iff:
  "userid_from_str env tx = Inr u \<longleftrightarrow>
     rposition (\<lambda>b. b = CHR ''@'') tx = Some (name_len u) \<and> data u = tx \<and> userid_wf env u"
proof -
  show ?thesis
  proof (cases "rposition (\<lambda>b. b = CHR ''@'') tx")
    case (Some n)
    note pos = rposition_Some [OF Some]
    have "userid_from_parts (take n tx) (drop (n + 1) tx) = \<lparr>data = tx, name_len = n\<rparr>"
      using pos by (simp add: userid_from_parts_def take_at_drop)
    with Some have "userid_from_str env tx = Inr u \<longleftrightarrow>
        is_match env PROXMOX_USER_NAME_REGEX (take n tx) \<and> check_realm env (drop (n + 1) tx) = Inr () \<and>
        \<lparr>data = tx, name_len = n\<rparr> = u"
      by (cases "check_realm env (drop (n + 1) tx)") (auto simp: userid_from_str_def Let_def)
    with Some pos show ?thesis
      by (cases u) (auto simp: userid_wf_def userid_name_def userid_realm_def)
  qed (simp add: userid_from_str_def)
qed

lemma realm_end_cases:
  assumes "rposition (\<lambda>b. b = CHR ''@'') tx = Some n"
  shows "realm_end tx n = length tx \<or> n < realm_end tx n \<and> realm_end tx n < length tx \<and> tx ! realm_end tx n = CHR ''!''"
proof (cases "rposition (\<lambda>b. b = CHR ''!'') tx")
  case (Some pos)
  with rposition_Some [OF assms] rposition_Some [OF Some] show ?thesis
    by (cases "pos = n") (auto simp: realm_end_def)
qed (simp add: realm_end_def)

lemma authid_from_str_display:
  assumes "authid_from_str env tx = Inr a"
  shows "authid_display a = tx \<and> authid_wf env a"
proof -
  from assms obtain n where n: "rposition (\<lambda>b. b = CHR ''@'') tx = Some n"
    by (auto simp: authid_from_str_def and_then_eq_Inr ok_or_def split: option.splits)
  define e where "e = realm_end tx n"
  from assms n have u: "userid_from_str env (take e tx) = Inr (user a)"
    and t: "if length tx > e then tokenname a = Some (drop (e + 1) tx) \<and> is_match env PROXMOX_TOKEN_NAME_REGEX (drop (e + 1) tx)
            else tokenname a = None"
    by (auto simp: authid_from_str_def and_then_eq_Inr e_def Let_def tokenname_try_from_def split: if_splits)
  from realm_end_cases [OF n] have e: "e = length tx \<or> e < length tx \<and> tx ! e = CHR ''!''" by (auto simp: e_def)
  then have "authid_display a = tx"
    using u t by (auto simp: userid_from_str_iff authid_display_def take_at_drop)
  moreover have "authid_wf env a"
    using u t by (auto simp: userid_from_str_iff authid_wf_def split: if_splits)
  ultimately show ?thesis ..
qed

lemma authid_display_from_str:
  assumes "safe_id_spec env" and "authid_wf env a"
  shows "authid_from_str env (authid_display a) = Inr a"
proof -
  let ?u = "user a" and ?id = "authid_display a"
  have wf: "userid_wf env ?u" using assms(2) by (simp add: authid_wf_def)
  note split = userid_wf_split [OF wf]
  have realm: "safe_id (userid_realm ?u)" "userid_realm ?u \<noteq> []"
    using wf check_realm_safe [OF assms(1)] check_realm_length by (auto simp: userid_wf_def)
  have u: "userid_from_str env (data ?u) = Inr ?u"
    unfolding userid_from_str_iff
    by (subst split(1), subst rposition_append_last) (use realm wf split in \<open>auto dest: safe_id_bytes\<close>)
  have len: "name_len ?u < length (data ?u)" using wf by (simp add: userid_wf_def)
  have n: "rposition (\<lambda>b. b = CHR ''@'') (data ?u) = Some (name_len ?u)"
    using u by (simp add: userid_from_str_iff)
  show ?thesis
  proof (cases "tokenname a")
    case None
    have "rposition (\<lambda>b. b = CHR ''!'') (data ?u) = rposition (\<lambda>b. b = CHR ''!'') (userid_name ?u)"
      by (subst split(1), rule rposition_append_none) (use realm in \<open>auto dest: safe_id_bytes\<close>)
    then have "realm_end (data ?u) (name_len ?u) = length (data ?u)"
      using rposition_Some [of "\<lambda>b. b = CHR ''!''" "userid_name ?u"] split(2)
      by (auto simp: realm_end_def split: option.splits)
    with None n u len show ?thesis
      by (auto simp: authid_from_str_def authid_display_def Let_def)
  next
    case (Some t)
    have t: "safe_id t"
      using Some assms by (simp add: authid_wf_def token_regex safe_id_spec_def)
    then have "t \<noteq> []" by (auto simp: safe_id_def)
    have "rposition (\<lambda>b. b = CHR ''@'') (data ?u @ CHR ''!'' # t) = Some (name_len ?u)"
      by (subst rposition_append_none) (use t n in \<open>auto dest: safe_id_bytes\<close>)
    moreover have "rposition (\<lambda>b. b = CHR ''!'') (data ?u @ CHR ''!'' # t) = Some (length (data ?u))"
      by (rule rposition_append_last) (use t in \<open>auto dest: safe_id_bytes\<close>)
    then have "realm_end (data ?u @ CHR ''!'' # t) (name_len ?u) = length (data ?u)"
      using len by (simp add: realm_end_def)
    moreover have "tokenname_try_from env t = Inr t"
      using Some assms(2) by (simp add: authid_wf_def tokenname_try_from_def)
    ultimately show ?thesis
      using Some u \<open>t \<noteq> []\<close> by (simp add: authid_from_str_def authid_display_def Let_def)
  qed
qed

lemma authid_try_from_iff: "authid_try_from env tx = Inr a \<longleftrightarrow> authid_from_str env tx = Inr a"
  by (auto simp: authid_try_from_def authid_from_str_def and_then_eq_Inr Let_def split: if_splits)

text \<open>C17: Parsing an authentication id and printing it are inverse to each other: \<open>from_str\<close> accepts
  exactly the texts of well-formed ids and returns the id it prints, and \<open>TryFrom<String>\<close> agrees with
  it. A user name may itself contain \<open>@\<close> and \<open>!\<close>: the last \<open>@\<close> and a \<open>!\<close> behind it are the separators.\<close>

theorem authid_parse_print:
  assumes "safe_id_spec env"
  shows "(authid_from_str env tx = Inr a \<longleftrightarrow> authid_wf env a \<and> authid_display a = tx) \<and>
         (authid_try_from env tx = Inr a \<longleftrightarrow> authid_from_str env tx = Inr a)"
  using authid_from_str_display [of env tx a] authid_display_from_str [OF assms, of a] authid_try_from_iff [of env tx a]
  by auto

definition id_env :: schema_env where
  "id_env = plain_env\<lparr>is_match := (\<lambda>p s. if p = PROXMOX_USER_NAME_REGEX
       then s \<noteq> [] \<and> list_all (\<lambda>c. c > CHR '' '' \<and> c \<noteq> CHR 0x7F \<and> c \<noteq> CHR '':'' \<and> c \<noteq> CHR ''/'') s
       else safe_id s)\<rparr>"

lemma id_env_spec: "safe_id_spec id_env"
proof -
  have "SAFE_ID_REGEX \<noteq> PROXMOX_USER_NAME_REGEX" by code_simp
  then show ?thesis by (simp add: safe_id_spec_def id_env_def)
qed

theorem authid_parse_print_witness:
  "authid_display \<lparr>user = \<lparr>data = ''a!b@c@pam'', name_len = 5\<rparr>, tokenname = Some ''t-1''\<rparr> = ''a!b@c@pam!t-1'' \<and>
   authid_wf id_env \<lparr>user = \<lparr>data = ''a!b@c@pam'', name_len = 5\<rparr>, tokenname = Some ''t-1''\<rparr>"
proof -
  have "authid_from_str id_env ''a!b@c@pam!t-1'' =
      Inr \<lparr>user = \<lparr>data = ''a!b@c@pam'', name_len = 5\<rparr>, tokenname = Some ''t-1''\<rparr>"
    by code_simp
  then show ?thesis
    unfolding authid_parse_print [OF id_env_spec, THEN conjunct1] by simp
qed

end
