(* ===== verification/Acl_Tree.thy ===== *)
theory Acl_Tree
  imports Auth_Types
begin

text \<open>
  The ACL tree of \<open>proxmox-access-control/src/acl.rs\<close>: a tree of path components with the roles of users,
  tokens and groups at every node, the roles and privileges it gives at a path, and its text form.
  The product's configuration (\<open>AccessControlConfig\<close> of \<open>init.rs\<close>) is the record \<open>access_conf\<close>.

  Privileges are the bits of a 64 bit word.
\<close>

unbundle bit_operations_syntax

section \<open>Configuration and nodes\<close>

definition in_quotes :: "string \<Rightarrow> string" where
  "in_quotes s = CHR 0x27 # s @ [CHR 0x27]"

record access_conf =
  privileges :: "(string, u64) hash_map"
  conf_roles :: "(string, u64 \<times> string) hash_map"
  is_superuser :: "authid \<Rightarrow> bool"
  is_group_member :: "userid \<Rightarrow> string \<Rightarrow> bool"
  role_no_access :: "string option"
  role_admin :: "string option"
  acl_audit_privileges :: u64
  acl_modify_privileges :: u64
  check_acl_path :: "string \<Rightarrow> error option"
  allow_partial_permission_match :: bool

type_synonym role_map = "(string, bool) hash_map"

datatype acl_node = AclTreeNode
  (users: "(authid \<times> (string \<times> bool) list) list")
  (groups: "(string \<times> (string \<times> bool) list) list")
  (children: "(string \<times> acl_node) list")

definition acl_node_new :: acl_node where
  "acl_node_new = AclTreeNode [] [] []"

definition split_acl_path :: "string \<Rightarrow> string list" where
  "split_acl_path path = filter (\<lambda>name. name \<noteq> []) (split_on CHR ''/'' path)"

subsection \<open>Roles at one node\<close>

text \<open>The loop over the roles of one user: the role without access ends it.\<close>

fun collect_roles :: "access_conf \<Rightarrow> bool \<Rightarrow> role_map \<Rightarrow> role_map \<Rightarrow> role_map" where
  "collect_roles conf leaf acc [] = acc"
| "collect_roles conf leaf acc ((role, propagate) # rest) =
     (if propagate \<or> leaf then
        if role_no_access conf = Some role then hm_insert role False []
        else collect_roles conf leaf (hm_insert role propagate acc) rest
      else collect_roles conf leaf acc rest)"

definition extract_user_roles :: "access_conf \<Rightarrow> acl_node \<Rightarrow> authid \<Rightarrow> bool \<Rightarrow> role_map" where
  "extract_user_roles conf node a leaf =
     (case hm_get (users node) a of
        None \<Rightarrow> []
      | Some roles \<Rightarrow> collect_roles conf leaf [] roles)"

text \<open>The membership test of the code is the constant false.\<close>

fun extract_group_roles_loop ::
  "access_conf \<Rightarrow> bool \<Rightarrow> role_map \<Rightarrow> (string \<times> role_map) list \<Rightarrow> role_map" where
  "extract_group_roles_loop conf leaf acc [] = acc"
| "extract_group_roles_loop conf leaf acc ((g, rs) # rest) =
     (let is_member = False in
      if \<not> is_member then extract_group_roles_loop conf leaf acc rest
      else extract_group_roles_loop conf leaf (collect_roles conf leaf acc rs) rest)"

definition extract_group_roles :: "access_conf \<Rightarrow> acl_node \<Rightarrow> userid \<Rightarrow> bool \<Rightarrow> role_map" where
  "extract_group_roles conf node u leaf = extract_group_roles_loop conf leaf [] (groups node)"

definition extract_roles :: "access_conf \<Rightarrow> acl_node \<Rightarrow> authid \<Rightarrow> bool \<Rightarrow> role_map" where
  "extract_roles conf node a leaf =
     (let user_roles = extract_user_roles conf node a leaf in
      if user_roles \<noteq> [] \<or> is_token a then user_roles
      else extract_group_roles conf node (user a) leaf)"

subsection \<open>Changes at one node\<close>

definition insert_role :: "access_conf \<Rightarrow> string \<Rightarrow> bool \<Rightarrow> role_map \<Rightarrow> role_map" where
  "insert_role conf role propagate m =
     hm_insert role propagate
       (case role_no_access conf of
          Some no_access \<Rightarrow> if role = no_access then [] else hm_remove no_access m
        | None \<Rightarrow> m)"

fun node_insert_user_role ::
  "access_conf \<Rightarrow> authid \<Rightarrow> string \<Rightarrow> bool \<Rightarrow> acl_node \<Rightarrow> acl_node" where
  "node_insert_user_role conf a role propagate (AclTreeNode us gs cs) =
     AclTreeNode (hm_entry a [] (insert_role conf role propagate) us) gs cs"

fun node_insert_group_role ::
  "access_conf \<Rightarrow> string \<Rightarrow> string \<Rightarrow> bool \<Rightarrow> acl_node \<Rightarrow> acl_node" where
  "node_insert_group_role conf g role propagate (AclTreeNode us gs cs) =
     AclTreeNode us (hm_entry g [] (insert_role conf role propagate) gs) cs"

fun node_delete_user_role :: "authid \<Rightarrow> string \<Rightarrow> acl_node \<Rightarrow> acl_node" where
  "node_delete_user_role a role (AclTreeNode us gs cs) =
     AclTreeNode (hm_get_mut a (hm_remove role) us) gs cs"

fun node_delete_group_role :: "string \<Rightarrow> string \<Rightarrow> acl_node \<Rightarrow> acl_node" where
  "node_delete_group_role g role (AclTreeNode us gs cs) =
     AclTreeNode us (hm_get_mut g (hm_remove role) gs) cs"

fun node_delete_authid :: "authid \<Rightarrow> acl_node \<Rightarrow> acl_node" where
  "node_delete_authid a (AclTreeNode us gs cs) =
     AclTreeNode (hm_remove a us) gs (map (\<lambda>(name, n). (name, node_delete_authid a n)) cs)"

fun node_remove_child :: "string \<Rightarrow> acl_node \<Rightarrow> acl_node" where
  "node_remove_child name (AclTreeNode us gs cs) = AclTreeNode us gs (bm_remove name cs)"

section \<open>The tree\<close>

text \<open>\<open>get_node\<close>, \<open>get_node_mut\<close> followed by a change, and \<open>get_or_insert_node\<close> followed by one; the
  components of the path are split again at slashes.\<close>

fun node_at :: "acl_node \<Rightarrow> string list \<Rightarrow> acl_node option" where
  "node_at n [] = Some n"
| "node_at n (c # cs) = (case bm_get (children n) c of None \<Rightarrow> None | Some n' \<Rightarrow> node_at n' cs)"

fun modify_at :: "(acl_node \<Rightarrow> acl_node) \<Rightarrow> acl_node \<Rightarrow> string list \<Rightarrow> acl_node" where
  "modify_at f n [] = f n"
| "modify_at f (AclTreeNode us gs ch) (c # cs) =
     (case bm_get ch c of
        None \<Rightarrow> AclTreeNode us gs ch
      | Some n' \<Rightarrow> AclTreeNode us gs (bm_insert c (modify_at f n' cs) ch))"

fun insert_at :: "(acl_node \<Rightarrow> acl_node) \<Rightarrow> acl_node \<Rightarrow> string list \<Rightarrow> acl_node" where
  "insert_at f n [] = f n"
| "insert_at f (AclTreeNode us gs ch) (c # cs) =
     AclTreeNode us gs
       (bm_insert c (insert_at f (case bm_get ch c of None \<Rightarrow> acl_node_new | Some n' \<Rightarrow> n') cs) ch)"

definition get_node :: "acl_node \<Rightarrow> string list \<Rightarrow> acl_node option" where
  "get_node tree path = node_at tree (split_all CHR ''/'' path)"

definition get_node_mut :: "acl_node \<Rightarrow> string list \<Rightarrow> (acl_node \<Rightarrow> acl_node) \<Rightarrow> acl_node" where
  "get_node_mut tree path f = modify_at f tree (split_all CHR ''/'' path)"

definition get_or_insert_node :: "acl_node \<Rightarrow> string list \<Rightarrow> (acl_node \<Rightarrow> acl_node) \<Rightarrow> acl_node" where
  "get_or_insert_node tree path f = insert_at f tree (split_all CHR ''/'' path)"

definition find_node :: "acl_node \<Rightarrow> string \<Rightarrow> acl_node option" where
  "find_node tree path = get_node tree (split_acl_path path)"

definition delete_group_role :: "acl_node \<Rightarrow> string \<Rightarrow> string \<Rightarrow> string \<Rightarrow> acl_node" where
  "delete_group_role tree path g role =
     get_node_mut tree (split_acl_path path) (node_delete_group_role g role)"

definition delete_user_role :: "acl_node \<Rightarrow> string \<Rightarrow> authid \<Rightarrow> string \<Rightarrow> acl_node" where
  "delete_user_role tree path a role =
     get_node_mut tree (split_acl_path path) (node_delete_user_role a role)"

definition delete_node :: "acl_node \<Rightarrow> string \<Rightarrow> acl_node" where
  "delete_node tree path =
     (let p = split_acl_path path in
      if p = [] then tree
      else get_node_mut tree (butlast p) (node_remove_child (last p)))"

definition delete_authid :: "acl_node \<Rightarrow> authid \<Rightarrow> acl_node" where
  "delete_authid tree a = node_delete_authid a tree"

definition insert_group_role ::
  "access_conf \<Rightarrow> acl_node \<Rightarrow> string \<Rightarrow> string \<Rightarrow> string \<Rightarrow> bool \<Rightarrow> acl_node" where
  "insert_group_role conf tree path g role propagate =
     get_or_insert_node tree (split_acl_path path) (node_insert_group_role conf g role propagate)"

definition insert_user_role ::
  "access_conf \<Rightarrow> acl_node \<Rightarrow> string \<Rightarrow> authid \<Rightarrow> string \<Rightarrow> bool \<Rightarrow> acl_node" where
  "insert_user_role conf tree path a role propagate =
     get_or_insert_node tree (split_acl_path path) (node_insert_user_role conf a role propagate)"

subsection \<open>Reading the configuration file\<close>

definition insert_ug_role ::
  "schema_env \<Rightarrow> access_conf \<Rightarrow> bool \<Rightarrow> string \<Rightarrow> string \<Rightarrow> acl_node \<Rightarrow> (error, acl_node) result" where
  "insert_ug_role env conf propagate ug role node =
     (if \<not> hm_contains_key (conf_roles conf) role then Inl (Msg (''unknown role '' @ in_quotes role))
      else case strip_prefix_char CHR ''@'' ug of
          Some g \<Rightarrow> Inr (node_insert_group_role conf g role propagate node)
        | None \<Rightarrow>
            and_then (authid_from_str env ug)
              (\<lambda>a. Inr (node_insert_user_role conf a role propagate node)))"

fun insert_roles ::
  "schema_env \<Rightarrow> access_conf \<Rightarrow> bool \<Rightarrow> string \<Rightarrow> string list \<Rightarrow> acl_node \<Rightarrow> (error, acl_node) result" where
  "insert_roles env conf propagate ug [] node = Inr node"
| "insert_roles env conf propagate ug (role # rest) node =
     and_then (insert_ug_role env conf propagate ug role node) (insert_roles env conf propagate ug rest)"

fun insert_ugs ::
  "schema_env \<Rightarrow> access_conf \<Rightarrow> bool \<Rightarrow> string list \<Rightarrow> string list \<Rightarrow> acl_node \<Rightarrow>
   (error, acl_node) result" where
  "insert_ugs env conf propagate [] roles node = Inr node"
| "insert_ugs env conf propagate (ug # rest) roles node =
     and_then (insert_roles env conf propagate ug roles node) (insert_ugs env conf propagate rest roles)"

text \<open>The node at the path is created before the entries are read; an error discards the tree.\<close>

definition parse_acl_line :: "schema_env \<Rightarrow> access_conf \<Rightarrow> acl_node \<Rightarrow> string \<Rightarrow> (error, acl_node) result" where
  "parse_acl_line env conf tree line =
     (case split_on CHR '':'' line of
        [i0, i1, i2, i3, i4] \<Rightarrow>
          if i0 \<noteq> ''acl'' then Inl (Msg (''line does not start with '' @ in_quotes ''acl'' @ ''.''))
          else if i1 \<noteq> ''0'' \<and> i1 \<noteq> ''1'' then Inl (Msg (''expected '' @ in_quotes ''0'' @ '' or '' @ in_quotes ''1'' @ '' for propagate flag.''))
          else
            (let propagate = (i1 = ''1''); path = split_acl_path i2;
                 uglist = map trim (split_on CHR '','' i3); rolelist = map trim (split_on CHR '','' i4);
                 node = (case get_node (get_or_insert_node tree path (\<lambda>n. n)) path of
                           Some n \<Rightarrow> n | None \<Rightarrow> acl_node_new)
             in and_then (insert_ugs env conf propagate uglist rolelist node)
                  (\<lambda>n. Inr (get_or_insert_node tree path (\<lambda>_. n))))
      | _ \<Rightarrow> Inl (Msg ''wrong number of items.''))"

fun parse_lines :: "schema_env \<Rightarrow> access_conf \<Rightarrow> nat \<Rightarrow> string list \<Rightarrow> acl_node \<Rightarrow> (error, acl_node) result" where
  "parse_lines env conf nr [] tree = Inr tree"
| "parse_lines env conf nr (l # rest) tree =
     (let line = trim l in
      if line = [] then parse_lines env conf (nr + 1) rest tree
      else case parse_acl_line env conf tree line of
          Inl e \<Rightarrow> Inl (ParameterError [(show_nat (nr + 1), e)])
        | Inr tree' \<Rightarrow> parse_lines env conf (nr + 1) rest tree')"

definition from_raw :: "schema_env \<Rightarrow> access_conf \<Rightarrow> string \<Rightarrow> (error, acl_node) result" where
  "from_raw env conf raw = parse_lines env conf 0 (lines raw) acl_node_new"

subsection \<open>Roles and privileges at a path\<close>

fun roles_loop :: "access_conf \<Rightarrow> authid \<Rightarrow> acl_node \<Rightarrow> role_map \<Rightarrow> string list \<Rightarrow> role_map" where
  "roles_loop conf a node role_map [] = role_map"
| "roles_loop conf a node role_map (c # cs) =
     (case bm_get (children node) c of
        None \<Rightarrow> role_map
      | Some n \<Rightarrow>
          (let new_map = extract_roles conf n a (cs = [])
           in roles_loop conf a n (if new_map \<noteq> [] then new_map else role_map) cs))"

definition roles :: "access_conf \<Rightarrow> acl_node \<Rightarrow> authid \<Rightarrow> string list \<Rightarrow> role_map" where
  "roles conf tree a path =
     roles_loop conf a tree (extract_roles conf tree a (path = [])) (split_all CHR ''/'' path)"

fun sum_privs :: "access_conf \<Rightarrow> role_map \<Rightarrow> u64 \<times> u64 \<Rightarrow> u64 \<times> u64" where
  "sum_privs conf [] (privs, propagated) = (privs, propagated)"
| "sum_privs conf ((role, propagate) # rest) (privs, propagated) =
     (case hm_get (conf_roles conf) role of
        Some (role_privs, _) \<Rightarrow>
          sum_privs conf rest (privs OR role_privs, if propagate then propagated OR role_privs else propagated)
      | None \<Rightarrow> sum_privs conf rest (privs, propagated))"

definition admin_privs :: "access_conf \<Rightarrow> u64 option" where
  "admin_privs conf =
     Option.bind (role_admin conf) (\<lambda>admin. map_option fst (hm_get (conf_roles conf) admin))"

function lookup_privs_details :: "access_conf \<Rightarrow> acl_node \<Rightarrow> authid \<Rightarrow> string list \<Rightarrow> u64 \<times> u64" where
  "lookup_privs_details conf tree a path =
     (case (if is_superuser conf a then admin_privs conf else None) of
        Some admin \<Rightarrow> (admin, admin)
      | None \<Rightarrow>
          (let (privs, propagated) = sum_privs conf (roles conf tree a path) (0, 0) in
           if is_token a then
             (let (owner_privs, owner_propagated) = lookup_privs_details conf tree (authid_of_user (user a)) path
              in (privs AND owner_privs, propagated AND owner_propagated))
           else (privs, propagated)))"
  by pat_completeness auto
termination
  by (relation "measure (\<lambda>(conf, tree, a, path). if is_token a then 1 else 0)")
     (auto simp: is_token_def authid_of_user_def)

declare lookup_privs_details.simps [simp del]

definition lookup_privs :: "access_conf \<Rightarrow> acl_node \<Rightarrow> authid \<Rightarrow> string list \<Rightarrow> u64" where
  "lookup_privs conf tree a path = fst (lookup_privs_details conf tree a path)"

definition privs_to_priv_names :: "access_conf \<Rightarrow> u64 \<Rightarrow> string list" where
  "privs_to_priv_names conf privs = map fst (filter (\<lambda>(_, v). v AND privs \<noteq> 0) (privileges conf))"

definition check_privs ::
  "access_conf \<Rightarrow> acl_node \<Rightarrow> authid \<Rightarrow> string list \<Rightarrow> u64 \<Rightarrow> bool \<Rightarrow> (error, unit) result" where
  "check_privs conf tree a path required part =
     (let privs = lookup_privs conf tree a path;
          allowed = (if part then privs AND required \<noteq> 0 else privs AND required = required)
      in if allowed then Inr ()
         else
           (let names = join (if part then ''|'' else ''&'') (privs_to_priv_names conf required)
            in Inl (Msg (''missing permissions '' @ in_quotes names @ '' on '' @ in_quotes (''/'' @ join ''/'' path)))))"

fun node_child_paths :: "access_conf \<Rightarrow> acl_node \<Rightarrow> string \<Rightarrow> authid \<Rightarrow> string list" where
  "node_child_paths conf (AclTreeNode us gs cs) path a =
     concat (map (\<lambda>(name, n).
        let child_path = path @ ''/'' @ name in
        (if extract_roles conf n a True \<noteq> [] then [child_path] else []) @ node_child_paths conf n child_path a) cs)"

definition get_child_paths :: "access_conf \<Rightarrow> acl_node \<Rightarrow> authid \<Rightarrow> string list \<Rightarrow> string list" where
  "get_child_paths conf tree a path =
     (case get_node tree path of
        Some node \<Rightarrow> node_child_paths conf node (join ''/'' path) a
      | None \<Rightarrow> [])"

definition any_privs_below :: "access_conf \<Rightarrow> acl_node \<Rightarrow> authid \<Rightarrow> string list \<Rightarrow> u64 \<Rightarrow> bool" where
  "any_privs_below conf tree a path privs =
     (snd (lookup_privs_details conf tree a path) AND privs \<noteq> 0 \<or>
      list_ex (\<lambda>p. privs AND lookup_privs conf tree a [p] \<noteq> 0) (get_child_paths conf tree a path))"

end
