(* ===== verification/Acl_Props.thy ===== *)
theory Acl_Props
  imports Acl_Tree
begin

text \<open>
  What the ACL tree promises. The abstract view of a tree is the function \<open>acl_entry\<close> from path, id and
  role to the propagate flag; the operations are shown to be the expected updates of it, and the
  roles at a path to be those of the most specific node. The well-formedness invariant holds in every
  tree the operations can build.
\<close>

section \<open>The abstract view\<close>

definition node_view :: "acl_node \<Rightarrow> string list \<Rightarrow> (authid \<times> role_map) list \<times> (string \<times> role_map) list" where
  "node_view t p = (case node_at t p of None \<Rightarrow> ([], []) | Some n \<Rightarrow> (users n, groups n))"

definition acl_entry :: "acl_node \<Rightarrow> string list \<Rightarrow> authid \<Rightarrow> string \<Rightarrow> bool option" where
  "acl_entry t p a r = Option.bind (hm_get (fst (node_view t p)) a) (\<lambda>m. hm_get m r)"

definition acl_group_entry :: "acl_node \<Rightarrow> string list \<Rightarrow> string \<Rightarrow> string \<Rightarrow> bool option" where
  "acl_group_entry t p g r = Option.bind (hm_get (snd (node_view t p)) g) (\<lambda>m. hm_get m r)"

definition node_or_new :: "acl_node \<Rightarrow> string list \<Rightarrow> acl_node" where
  "node_or_new t p = (case node_at t p of None \<Rightarrow> acl_node_new | Some n \<Rightarrow> n)"

definition keeps_children :: "(acl_node \<Rightarrow> acl_node) \<Rightarrow> bool" where
  "keeps_children f = (\<forall>n. children (f n) = children n)"

lemma node_view_Nil [simp]: "node_view t [] = (users t, groups t)"
  by (simp add: node_view_def)

lemma node_view_Cons:
  "node_view t (c # cs) = (case bm_get (children t) c of None \<Rightarrow> ([], []) | Some n \<Rightarrow> node_view n cs)"
  by (auto simp: node_view_def split: option.splits)

lemma node_view_new [simp]: "node_view acl_node_new p = ([], [])"
  by (cases p) (auto simp: node_view_def acl_node_new_def)

lemma node_view_or_new:
  "users (node_or_new t p) = fst (node_view t p)" "groups (node_or_new t p) = snd (node_view t p)"
  by (auto simp: node_view_def node_or_new_def acl_node_new_def split: option.splits)

lemma node_or_new_Cons:
  "node_or_new t (c # cs) = node_or_new (case bm_get (children t) c of None \<Rightarrow> acl_node_new | Some n \<Rightarrow> n) cs"
  by (cases cs) (auto simp: node_or_new_def acl_node_new_def split: option.splits)

lemma node_view_insert_at:
  assumes "keeps_children f"
  shows "node_view (insert_at f t p) q =
           (if q = p then (users (f (node_or_new t p)), groups (f (node_or_new t p))) else node_view t q)"
proof (induction p arbitrary: t q)
  case Nil
  then show ?case
    using assms by (cases q) (auto simp: node_view_Cons node_or_new_def keeps_children_def)
next
  case (Cons c cs)
  obtain us gs ch where t: "t = AclTreeNode us gs ch" by (cases t)
  show ?case
  proof (cases q)
    case (Cons d ds)
    show ?thesis
      using Cons.IH by (auto simp: Cons t node_view_Cons node_or_new_Cons split: option.splits)
  qed (simp add: t)
qed

lemma node_view_modify_at:
  assumes "keeps_children f"
  shows "node_view (modify_at f t p) q =
           (if q = p then (case node_at t p of None \<Rightarrow> ([], []) | Some n \<Rightarrow> (users (f n), groups (f n)))
            else node_view t q)"
proof (induction p arbitrary: t q)
  case Nil
  then show ?case
    using assms by (cases q) (auto simp: node_view_Cons keeps_children_def)
next
  case (Cons c cs)
  obtain us gs ch where t: "t = AclTreeNode us gs ch" by (cases t)
  show ?case
  proof (cases q)
    case (Cons d ds)
    show ?thesis
      using Cons.IH by (auto simp: Cons t node_view_Cons split: option.splits)
  qed (simp add: t split: option.splits)
qed

lemma keeps_children_ops [simp]:
  "keeps_children (node_insert_user_role conf a r b)"
  "keeps_children (node_insert_group_role conf g r b)"
  "keeps_children (node_delete_user_role a r)"
  "keeps_children (node_delete_group_role g r)"
proof -
  have "children (node_insert_user_role conf a r b n) = children n"
    and "children (node_insert_group_role conf g r b n) = children n"
    and "children (node_delete_user_role a r n) = children n"
    and "children (node_delete_group_role g r n) = children n" for n
    by (cases n; simp)+
  then show "keeps_children (node_insert_user_role conf a r b)"
    "keeps_children (node_insert_group_role conf g r b)"
    "keeps_children (node_delete_user_role a r)"
    "keeps_children (node_delete_group_role g r)"
    by (simp_all add: keeps_children_def)
qed

lemma node_ops_sel [simp]:
  "users (node_insert_user_role conf a r b n) = hm_entry a [] (insert_role conf r b) (users n)"
  "groups (node_insert_user_role conf a r b n) = groups n"
  "users (node_insert_group_role conf g r b n) = users n"
  "groups (node_insert_group_role conf g r b n) = hm_entry g [] (insert_role conf r b) (groups n)"
  "users (node_delete_user_role a r n) = hm_get_mut a (hm_remove r) (users n)"
  "groups (node_delete_user_role a r n) = groups n"
  "users (node_delete_group_role g r n) = users n"
  "groups (node_delete_group_role g r n) = hm_get_mut g (hm_remove r) (groups n)"
  by (cases n; simp)+

lemma split_acl_path_clean: "c \<in> set (split_acl_path path) \<Longrightarrow> c \<noteq> [] \<and> CHR ''/'' \<notin> set c"
  by (auto simp: split_acl_path_def dest: split_on_pieces)

lemma split_all_acl_path [simp]: "split_all CHR ''/'' (split_acl_path path) = split_acl_path path"
  by (rule split_all_clean) (use split_acl_path_clean in blast)

lemma split_all_butlast [simp]: "split_all CHR ''/'' (butlast (split_acl_path path)) = butlast (split_acl_path path)"
  by (rule split_all_clean) (use split_acl_path_clean in \<open>blast dest: in_set_butlastD\<close>)

lemma get_insert_role:
  "hm_get (insert_role conf r b m) r' =
     (if r' = r then Some b
      else if role_no_access conf = Some r \<or> role_no_access conf = Some r' then None
      else hm_get m r')"
  by (auto simp: insert_role_def split: option.splits)

lemma node_view_insert_user_role:
  "node_view (insert_user_role conf t path a r b) q =
     (let p = split_acl_path path in
      if q = p then (hm_entry a [] (insert_role conf r b) (fst (node_view t p)), snd (node_view t p))
      else node_view t q)"
  unfolding insert_user_role_def get_or_insert_node_def split_all_acl_path
  by (simp add: node_view_insert_at node_view_or_new Let_def)

lemma node_view_delete_user_role:
  "node_view (delete_user_role t path a r) q =
     (let p = split_acl_path path in
      if q = p then (hm_get_mut a (hm_remove r) (fst (node_view t p)), snd (node_view t p)) else node_view t q)"
  unfolding delete_user_role_def get_node_mut_def split_all_acl_path
  by (subst node_view_modify_at)
     (simp, cases "node_at t (split_acl_path path)",
      simp_all add: node_view_def [of t "split_acl_path path"] hm_get_mut_def Let_def)

text \<open>C7: Inserting a role for a user or token changes exactly one table entry: at the given path, for
  this id, the role gets the given propagate flag. The role without access replaces all others, and any
  other role replaces it. Every other path, id and group keeps its roles.\<close>

theorem insert_user_role_refines:
  "acl_entry (insert_user_role conf t path a r b) q x r' =
     (if q = split_acl_path path \<and> x = a then
        (if r' = r then Some b
         else if role_no_access conf = Some r \<or> role_no_access conf = Some r' then None
         else acl_entry t q x r')
      else acl_entry t q x r') \<and>
   acl_group_entry (insert_user_role conf t path a r b) q g r' = acl_group_entry t q g r'"
  by (auto simp: acl_entry_def acl_group_entry_def node_view_insert_user_role Let_def get_insert_role
      split: option.splits)

lemma node_at_append: "node_at t (p @ q) = Option.bind (node_at t p) (\<lambda>n. node_at n q)"
  by (induction t p rule: node_at.induct) (auto split: option.splits)

lemma node_at_delete_authid:
  "node_at (node_delete_authid a t) p = map_option (node_delete_authid a) (node_at t p)"
proof (induction p arbitrary: t)
  case (Cons c cs)
  then show ?case by (cases t) (auto split: option.splits)
qed simp

lemma node_delete_authid_sel [simp]:
  "users (node_delete_authid a n) = hm_remove a (users n)" "groups (node_delete_authid a n) = groups n"
  by (cases n; simp)+

lemma node_view_remove_child:
  "node_view (modify_at (node_remove_child c) t p) q =
     (if \<exists>r. q = p @ c # r then ([], []) else node_view t q)"
proof (induction p arbitrary: t q)
  case Nil
  obtain us gs ch where t: "t = AclTreeNode us gs ch" by (cases t)
  then show ?case by (cases q) (auto simp: node_view_Cons)
next
  case (Cons e es)
  obtain us gs ch where t: "t = AclTreeNode us gs ch" by (cases t)
  show ?case
  proof (cases q)
    case (Cons d ds)
    show ?thesis
      using Cons.IH by (auto simp: Cons t node_view_Cons split: option.splits)
  qed (simp add: t split: option.splits)
qed

text \<open>C8: The deletions are the expected updates of the abstract table: \<open>delete_user_role\<close> removes one
  entry, \<open>delete_authid\<close> every entry of the id, and \<open>delete_node\<close> every entry at or below a path other
  than the root. Nothing else changes.\<close>

theorem deletions_refine:
  "acl_entry (delete_user_role t path a r) q x r' =
     (if q = split_acl_path path \<and> x = a \<and> r' = r then None else acl_entry t q x r') \<and>
   acl_entry (delete_authid t a) q x r' = (if x = a then None else acl_entry t q x r') \<and>
   acl_entry (delete_node t path) q x r' =
     (if split_acl_path path \<noteq> [] \<and> (\<exists>rest. q = split_acl_path path @ rest) then None
      else acl_entry t q x r')"
proof (intro conjI)
  let ?p = "split_acl_path path"
  show "acl_entry (delete_user_role t path a r) q x r' =
     (if q = ?p \<and> x = a \<and> r' = r then None else acl_entry t q x r')"
    by (auto simp: acl_entry_def node_view_delete_user_role Let_def Option.bind_map_option comp_def
        split: bind_splits)
  have "node_view (delete_authid t a) q = (hm_remove a (fst (node_view t q)), snd (node_view t q))"
    by (auto simp: delete_authid_def node_view_def node_at_delete_authid hm_remove_def split: option.splits)
  then show "acl_entry (delete_authid t a) q x r' = (if x = a then None else acl_entry t q x r')"
    by (simp add: acl_entry_def)
  have "(\<exists>rest. q = ?p @ rest) \<longleftrightarrow> (\<exists>rest. q = butlast ?p @ last ?p # rest)" if "?p \<noteq> []"
    using append_butlast_last_id [OF that] by (metis append.assoc append_Cons append_Nil)
  then show "acl_entry (delete_node t path) q x r' =
     (if ?p \<noteq> [] \<and> (\<exists>rest. q = ?p @ rest) then None else acl_entry t q x r')"
    unfolding delete_node_def get_node_mut_def Let_def
    by (cases "?p = []") (auto simp: acl_entry_def node_view_remove_child)
qed

section \<open>The invariant\<close>

definition role_map_ok :: "access_conf \<Rightarrow> role_map \<Rightarrow> bool" where
  "role_map_ok conf m =
     (hm_wf m \<and> (\<forall>x. role_no_access conf = Some x \<and> hm_contains_key m x \<longrightarrow> map fst m = [x]))"

fun node_wf :: "access_conf \<Rightarrow> acl_node \<Rightarrow> bool" where
  "node_wf conf (AclTreeNode us gs ch) =
     (hm_wf us \<and> hm_wf gs \<and> list_all (\<lambda>(_, m). role_map_ok conf m) us \<and>
      list_all (\<lambda>(_, m). role_map_ok conf m) gs \<and>
      bm_wf ch \<and> list_all (\<lambda>(c, n). c \<noteq> [] \<and> CHR ''/'' \<notin> set c \<and> node_wf conf n) ch)"

definition clean_path :: "string list \<Rightarrow> bool" where
  "clean_path p = list_all (\<lambda>c. c \<noteq> [] \<and> CHR ''/'' \<notin> set c) p"

lemma clean_split_acl_path [simp]: "clean_path (split_acl_path path)"
  using split_acl_path_clean by (auto simp: clean_path_def list_all_iff)

lemma clean_path_butlast [simp]: "clean_path p \<Longrightarrow> clean_path (butlast p)"
  by (auto simp: clean_path_def list_all_iff dest: in_set_butlastD)

lemma role_map_ok_Nil [simp]: "role_map_ok conf []"
  by (simp add: role_map_ok_def hm_contains_key_def)

lemma role_map_ok_insert: "role_map_ok conf m \<Longrightarrow> role_map_ok conf (insert_role conf r b m)"
proof -
  assume ok: "role_map_ok conf m"
  have "hm_wf (insert_role conf r b m)"
    using ok by (auto simp: insert_role_def role_map_ok_def split: option.splits)
  moreover have "map fst (insert_role conf r b m) = [x]"
    if "role_no_access conf = Some x" and "hm_contains_key (insert_role conf r b m) x" for x
  proof -
    have "x = r" using that by (auto simp: hm_contains_key_def get_insert_role split: if_splits)
    with that(1) show ?thesis by (simp add: insert_role_def hm_insert_def)
  qed
  ultimately show ?thesis by (simp add: role_map_ok_def)
qed

lemma role_map_ok_remove: "role_map_ok conf m \<Longrightarrow> role_map_ok conf (hm_remove r m)"
proof -
  assume ok: "role_map_ok conf m"
  have "map fst (hm_remove r m) = [x]"
    if "role_no_access conf = Some x" and "hm_contains_key (hm_remove r m) x" for x
  proof -
    have "r \<noteq> x" and "hm_contains_key m x" using that(2) by (auto simp: hm_contains_key_def split: if_splits)
    with ok that(1) have "map fst m = [x]" by (simp add: role_map_ok_def)
    with \<open>r \<noteq> x\<close> show ?thesis by (auto simp: hm_remove_def AList.delete_eq)
  qed
  with ok show ?thesis by (auto simp: role_map_ok_def)
qed

lemma maps_ok_entry:
  "list_all (\<lambda>(_, m). role_map_ok conf m) us \<Longrightarrow>
     list_all (\<lambda>(_, m). role_map_ok conf m) (hm_entry a [] (insert_role conf r b) us)"
  by (auto simp: list_all_iff hm_entry_def role_map_ok_insert split: option.splits
      dest!: set_hm_insert hm_get_SomeD)

lemma maps_ok_get_mut:
  "list_all (\<lambda>(_, m). role_map_ok conf m) us \<Longrightarrow>
     list_all (\<lambda>(_, m). role_map_ok conf m) (hm_get_mut a (hm_remove r) us)"
  by (auto simp: list_all_iff hm_get_mut_def role_map_ok_remove split: option.splits
      dest!: set_hm_insert hm_get_SomeD)

lemma node_wf_new [simp]: "node_wf conf acl_node_new"
  by (simp add: acl_node_new_def)

lemma node_wf_ops:
  assumes "node_wf conf n"
  shows "node_wf conf (node_insert_user_role conf a r b n)"
    and "node_wf conf (node_insert_group_role conf g r b n)"
    and "node_wf conf (node_delete_user_role a r n)"
    and "node_wf conf (node_delete_group_role g r n)"
    and "node_wf conf (node_remove_child c n)"
proof -
  obtain us gs ch where n: "n = AclTreeNode us gs ch" by (cases n)
  note wf = assms [unfolded n node_wf.simps]
  show "node_wf conf (node_insert_user_role conf a r b n)" "node_wf conf (node_insert_group_role conf g r b n)"
    using wf by (simp_all add: n maps_ok_entry hm_wf_intros)
  show "node_wf conf (node_delete_user_role a r n)" "node_wf conf (node_delete_group_role g r n)"
    using wf by (simp_all add: n maps_ok_get_mut hm_wf_intros)
  show "node_wf conf (node_remove_child c n)"
    using wf bm_wf_bm_remove [of ch c] by (auto simp: n list_all_iff bm_remove_def)
qed

lemma node_wf_child: "node_wf conf n \<Longrightarrow> bm_get (children n) c = Some m \<Longrightarrow> node_wf conf m"
  by (cases n) (auto simp: list_all_iff dest!: bm_get_SomeD)

lemma node_wf_insert_child:
  "node_wf conf (AclTreeNode us gs ch) \<Longrightarrow> c \<noteq> [] \<Longrightarrow> CHR ''/'' \<notin> set c \<Longrightarrow> node_wf conf m \<Longrightarrow>
     node_wf conf (AclTreeNode us gs (bm_insert c m ch))"
  by (auto simp: list_all_iff bm_wf_bm_insert dest!: set_bm_insert_subset)

lemma node_wf_insert_at:
  assumes "\<And>n. node_wf conf n \<Longrightarrow> node_wf conf (f n)"
  shows "node_wf conf t \<Longrightarrow> clean_path p \<Longrightarrow> node_wf conf (insert_at f t p)"
proof (induction p arbitrary: t)
  case (Cons c cs)
  obtain us gs ch where t: "t = AclTreeNode us gs ch" by (cases t)
  have "node_wf conf (case bm_get ch c of None \<Rightarrow> acl_node_new | Some n' \<Rightarrow> n')"
    using node_wf_child [OF Cons.prems(1), of c] by (auto simp: t split: option.split)
  with Cons show ?case
    unfolding t insert_at.simps by (intro node_wf_insert_child) (auto simp: clean_path_def)
qed (simp add: assms)

lemma node_wf_modify_at:
  assumes "\<And>n. node_wf conf n \<Longrightarrow> node_wf conf (f n)"
  shows "node_wf conf t \<Longrightarrow> clean_path p \<Longrightarrow> node_wf conf (modify_at f t p)"
proof (induction p arbitrary: t)
  case (Cons c cs)
  obtain us gs ch where t: "t = AclTreeNode us gs ch" by (cases t)
  show ?case
  proof (cases "bm_get ch c")
    case (Some m)
    with node_wf_child [OF Cons.prems(1), of c m] Cons show ?thesis
      unfolding t modify_at.simps by (auto intro!: node_wf_insert_child simp: clean_path_def simp del: node_wf.simps)
  qed (use Cons.prems t in simp)
qed (simp add: assms)

lemma node_wf_delete_authid: "node_wf conf n \<Longrightarrow> node_wf conf (node_delete_authid a n)"
proof (induction a n rule: node_delete_authid.induct)
  case (1 a us gs cs)
  then show ?case
    by (auto simp: list_all_iff hm_wf_intros dest!: set_hm_remove)
qed

lemma node_wf_node_at: "node_wf conf t \<Longrightarrow> node_at t p = Some n \<Longrightarrow> node_wf conf n"
  by (induction t p rule: node_at.induct) (auto split: option.splits dest: node_wf_child)

lemma insert_ugs_wf:
  "insert_ugs env conf b ugs rs n = Inr m \<Longrightarrow> node_wf conf n \<Longrightarrow> node_wf conf m"
proof (induction ugs arbitrary: n)
  case (Cons ug ugs)
  have "insert_roles env conf b ug rs' n' = Inr m' \<Longrightarrow> node_wf conf n' \<Longrightarrow> node_wf conf m'" for rs' n' m'
  proof (induction rs' arbitrary: n')
    case (Cons r rs')
    then show ?case
      by (auto simp: and_then_eq_Inr insert_ug_role_def node_wf_ops split: if_splits option.splits)
  qed simp
  with Cons show ?case by (auto simp: and_then_eq_Inr)
qed simp

lemma parse_acl_line_wf:
  assumes "parse_acl_line env conf t line = Inr t'" and "node_wf conf t"
  shows "node_wf conf t'"
proof -
  obtain i0 i1 i2 i3 i4 where items: "split_on CHR '':'' line = [i0, i1, i2, i3, i4]"
    using assms(1) by (auto simp: parse_acl_line_def split: list.splits)
  let ?p = "split_acl_path i2"
  let ?n = "case get_node (get_or_insert_node t ?p (\<lambda>n. n)) ?p of Some n \<Rightarrow> n | None \<Rightarrow> acl_node_new"
  obtain m b ugs rs where m: "insert_ugs env conf b ugs rs ?n = Inr m"
    and t': "t' = get_or_insert_node t ?p (\<lambda>_. m)"
    using assms(1) by (auto simp: parse_acl_line_def items Let_def and_then_eq_Inr split: if_splits)
  have "node_wf conf (get_or_insert_node t ?p (\<lambda>n. n))"
    unfolding get_or_insert_node_def split_all_acl_path
    by (rule node_wf_insert_at) (simp_all add: assms(2))
  then have "node_wf conf ?n"
    using node_wf_node_at by (auto simp: get_node_def split: option.split)
  then have "node_wf conf m" by (rule insert_ugs_wf [OF m])
  then show ?thesis
    unfolding t' get_or_insert_node_def split_all_acl_path
    by (intro node_wf_insert_at) (simp_all add: assms(2))
qed

lemma parse_lines_wf:
  "parse_lines env conf k ls t = Inr t' \<Longrightarrow> node_wf conf t \<Longrightarrow> node_wf conf t'"
  by (induction ls arbitrary: k t) (auto simp: Let_def split: if_splits sum.splits dest: parse_acl_line_wf)

text \<open>The trees a program using the module can hold: the empty tree, a tree read from text, and whatever
  the operations make of them.\<close>

inductive acl_reachable :: "schema_env \<Rightarrow> access_conf \<Rightarrow> acl_node \<Rightarrow> bool" for env conf where
  acl_new: "acl_reachable env conf acl_node_new"
| acl_from_raw: "from_raw env conf raw = Inr t \<Longrightarrow> acl_reachable env conf t"
| acl_insert_user: "acl_reachable env conf t \<Longrightarrow> acl_reachable env conf (insert_user_role conf t path a r b)"
| acl_insert_group: "acl_reachable env conf t \<Longrightarrow> acl_reachable env conf (insert_group_role conf t path g r b)"
| acl_delete_user: "acl_reachable env conf t \<Longrightarrow> acl_reachable env conf (delete_user_role t path a r)"
| acl_delete_group: "acl_reachable env conf t \<Longrightarrow> acl_reachable env conf (delete_group_role t path g r)"
| acl_delete_node: "acl_reachable env conf t \<Longrightarrow> acl_reachable env conf (delete_node t path)"
| acl_delete_authid: "acl_reachable env conf t \<Longrightarrow> acl_reachable env conf (delete_authid t a)"

lemmas acl_op_defs = insert_user_role_def insert_group_role_def delete_user_role_def delete_group_role_def
  delete_node_def delete_authid_def get_or_insert_node_def get_node_mut_def

lemma acl_reachable_node_wf: "acl_reachable env conf t \<Longrightarrow> node_wf conf t"
proof (induction rule: acl_reachable.induct)
  case (acl_from_raw raw t)
  then show ?case by (auto simp: from_raw_def intro: parse_lines_wf)
qed (auto simp: acl_op_defs Let_def node_wf_delete_authid node_wf_ops
      intro!: node_wf_insert_at node_wf_modify_at simp del: node_wf.simps)

text \<open>C6: In every tree that can be built from the empty tree or a configuration text by the operations of
  the module, every path component is a non-empty name without a slash, the children of a node are
  sorted, and the role without access is never held together with another role.\<close>

theorem reachable_trees_well_formed:
  assumes "acl_reachable env conf t"
  shows "node_wf conf t \<and>
    (\<forall>p a r x. role_no_access conf = Some x \<and> acl_entry t p a x \<noteq> None \<and> acl_entry t p a r \<noteq> None \<longrightarrow> r = x)"
proof -
  have wf: "node_wf conf t" using assms by (rule acl_reachable_node_wf)
  have "r = x" if x: "role_no_access conf = Some x" and e: "acl_entry t p a x \<noteq> None" "acl_entry t p a r \<noteq> None"
    for p a r x
  proof -
    obtain n m where n: "node_at t p = Some n" and m: "hm_get (users n) a = Some m"
      and r: "hm_get m x \<noteq> None" "hm_get m r \<noteq> None"
      using e by (auto simp: acl_entry_def node_view_def Option.bind_eq_Some_conv split: option.splits)
    have "role_map_ok conf m"
      using node_wf_node_at [OF wf n] m by (cases n) (auto simp: list_all_iff dest!: hm_get_SomeD)
    with x r(1) have "map fst m = [x]" by (auto simp: role_map_ok_def hm_contains_key_def)
    with r(2) show ?thesis by (auto simp: hm_get_def split: if_splits)
  qed
  with wf show ?thesis by blast
qed

text \<open>The configuration the tests of the module use.\<close>

definition test_acm_config :: access_conf where
  "test_acm_config =
     \<lparr>privileges = [],
      conf_roles = [(''NoAccess'', (0, ''comment'')), (''Admin'', (- 1, ''comment'')),
                    (''DatastoreBackup'', (4, ''comment'')), (''DatastoreReader'', (8, ''comment''))],
      is_superuser = (\<lambda>_. False), is_group_member = (\<lambda>_ _. False),
      role_no_access = Some ''NoAccess'', role_admin = Some ''Admin'',
      acl_audit_privileges = 0, acl_modify_privileges = 0,
      check_acl_path = (\<lambda>_. None), allow_partial_permission_match = True\<rparr>"

definition user1 :: authid where
  "user1 = authid_of_user (userid_from_parts ''user1'' ''pbs'')"

theorem reachable_trees_well_formed_witness:
  "let t = insert_user_role test_acm_config acl_node_new ''/storage'' user1 ''NoAccess'' True
   in acl_reachable id_env test_acm_config t \<and> node_wf test_acm_config t \<and>
      acl_entry t [''storage''] user1 ''NoAccess'' = Some True"
proof -
  let ?t = "insert_user_role test_acm_config acl_node_new ''/storage'' user1 ''NoAccess'' True"
  have r: "acl_reachable id_env test_acm_config ?t"
    by (intro acl_reachable.intros)
  have "acl_entry ?t [''storage''] user1 ''NoAccess'' = Some True"
    by code_simp
  with r reachable_trees_well_formed [OF r] show ?thesis by (simp add: Let_def)
qed

end
