(* ===== verification/Acl_Roles.thy ===== *)
theory Acl_Roles
  imports Acl_Props
begin

text \<open>
  Roles and privileges at a path. The roles are those of the most specific node of the path that has an
  effective entry for the id, and the privileges are the union of the privileges of these roles, for a
  token limited to those of its owner. \<open>any_privs_below\<close> is sound for a non-empty path; the cases in
  which it misses a privilege are given as theorems.
\<close>

unbundle bit_operations_syntax

section \<open>Roles\<close>

text \<open>The entry for a role at the node \<open>k\<close> components below the root counts at the path \<open>q\<close> when it
  propagates or the node is the last one. The role without access never propagates further.\<close>

definition effective_entry ::
  "access_conf \<Rightarrow> acl_node \<Rightarrow> authid \<Rightarrow> string list \<Rightarrow> nat \<Rightarrow> string \<Rightarrow> bool option" where
  "effective_entry conf t a q k r =
     (case acl_entry t (take k q) a r of
        None \<Rightarrow> None
      | Some b \<Rightarrow> if b \<or> k = length q then Some (b \<and> role_no_access conf \<noteq> Some r) else None)"

definition effective_levels :: "access_conf \<Rightarrow> acl_node \<Rightarrow> authid \<Rightarrow> string list \<Rightarrow> nat set" where
  "effective_levels conf t a q = {k. k \<le> length q \<and> effective_entry conf t a q k \<noteq> Map.empty}"

definition most_specific ::
  "access_conf \<Rightarrow> acl_node \<Rightarrow> authid \<Rightarrow> string list \<Rightarrow> string \<Rightarrow> bool option" where
  "most_specific conf t a q =
     (if effective_levels conf t a q = {} then Map.empty
      else effective_entry conf t a q (Max (effective_levels conf t a q)))"

lemma finite_effective_levels [simp]: "finite (effective_levels conf t a q)"
  by (rule finite_subset [of _ "{..length q}"]) (auto simp: effective_levels_def)

lemma most_specific_None:
  "(\<And>k. k \<le> length q \<Longrightarrow> effective_entry conf t a q k = Map.empty) \<Longrightarrow> most_specific conf t a q = Map.empty"
  by (auto simp: most_specific_def effective_levels_def)

lemma most_specific_at:
  assumes "k \<le> length q" and "effective_entry conf t a q k \<noteq> Map.empty"
    and "\<And>j. k < j \<Longrightarrow> j \<le> length q \<Longrightarrow> effective_entry conf t a q j = Map.empty"
  shows "most_specific conf t a q = effective_entry conf t a q k"
proof -
  have k: "k \<in> effective_levels conf t a q" using assms(1,2) by (simp add: effective_levels_def)
  have "Max (effective_levels conf t a q) = k"
  proof (rule Max_eqI)
    fix j
    assume "j \<in> effective_levels conf t a q"
    then show "j \<le> k" using assms(3) [of j] by (cases "k < j") (auto simp: effective_levels_def)
  qed (simp_all add: k)
  with k show ?thesis by (auto simp: most_specific_def)
qed

lemma extract_group_roles_Nil [simp]: "extract_group_roles conf n u leaf = []"
proof -
  have "extract_group_roles_loop conf leaf acc gs = acc" for acc gs
    by (induction gs) auto
  then show ?thesis by (simp add: extract_group_roles_def)
qed

lemma extract_roles_eq: "extract_roles conf n a leaf = extract_user_roles conf n a leaf"
  by (simp add: extract_roles_def Let_def)

lemma hm_wf_collect_roles: "hm_wf acc \<Longrightarrow> hm_wf (collect_roles conf leaf acc m)"
  by (induction m arbitrary: acc) (auto simp: hm_wf_intros)

lemma hm_wf_extract_roles [simp]: "hm_wf (extract_roles conf n a leaf)"
  by (auto simp: extract_roles_eq extract_user_roles_def hm_wf_collect_roles split: option.split)

lemma get_collect_roles_plain:
  "(\<And>r. role_no_access conf = Some r \<Longrightarrow> r \<notin> fst ` set m) \<Longrightarrow> distinct (map fst m) \<Longrightarrow>
     hm_get (collect_roles conf leaf acc m) r =
       (case hm_get m r of Some b \<Rightarrow> if b \<or> leaf then Some b else hm_get acc r | None \<Rightarrow> hm_get acc r)"
proof (induction conf leaf acc m rule: collect_roles.induct)
  case (2 conf leaf acc role b rest)
  have "hm_get ((role, b) # rest) r = (if r = role then Some b else hm_get rest r)"
    by (simp add: hm_get_def)
  moreover have "hm_get rest role = None" using "2.prems"(2) by (simp add: hm_get_None_iff)
  ultimately show ?case using 2 by (auto split: option.splits)
qed simp

lemma get_collect_roles:
  assumes "role_map_ok conf m"
  shows "hm_get (collect_roles conf leaf [] m) r =
    (case hm_get m r of
       None \<Rightarrow> None
     | Some b \<Rightarrow> if b \<or> leaf then Some (b \<and> role_no_access conf \<noteq> Some r) else None)"
proof (cases "\<exists>x. role_no_access conf = Some x \<and> hm_contains_key m x")
  case True
  then obtain x b where x: "role_no_access conf = Some x" and "m = [(x, b)]"
    using assms by (auto simp: role_map_ok_def)
  then show ?thesis by (auto simp: hm_get_def hm_insert_def)
next
  case False
  then have no: "r \<notin> fst ` set m" if "role_no_access conf = Some r" for r
    using that by (auto simp: hm_contains_key_def hm_get_None_iff)
  have "hm_get m r = None" if "role_no_access conf = Some r" using no [OF that] by (simp add: hm_get_None_iff)
  with assms no show ?thesis
    by (subst get_collect_roles_plain) (auto simp: role_map_ok_def hm_wf_def split: option.splits)
qed

definition extract_at :: "access_conf \<Rightarrow> authid \<Rightarrow> acl_node \<Rightarrow> string list \<Rightarrow> nat \<Rightarrow> role_map" where
  "extract_at conf a t q k =
     (case node_at t (take k q) of None \<Rightarrow> [] | Some n \<Rightarrow> extract_roles conf n a (k = length q))"

lemma hm_wf_extract_at [simp]: "hm_wf (extract_at conf a t q k)"
  by (simp add: extract_at_def split: option.split)

lemma get_extract_at:
  assumes "node_wf conf t"
  shows "hm_get (extract_at conf a t q k) = effective_entry conf t a q k"
proof
  fix r
  show "hm_get (extract_at conf a t q k) r = effective_entry conf t a q k r"
  proof (cases "node_at t (take k q)")
    case (Some n)
    have "role_map_ok conf m" if "hm_get (users n) a = Some m" for m
      using node_wf_node_at [OF assms Some] that by (cases n) (auto simp: list_all_iff dest!: hm_get_SomeD)
    then show ?thesis
      by (auto simp: extract_at_def effective_entry_def acl_entry_def node_view_def Some extract_roles_eq
          extract_user_roles_def get_collect_roles split: option.split)
  qed (simp add: extract_at_def effective_entry_def acl_entry_def node_view_def)
qed

lemma extract_at_Nil_iff:
  "node_wf conf t \<Longrightarrow> extract_at conf a t q k = [] \<longleftrightarrow> effective_entry conf t a q k = Map.empty"
  using hm.entries_Nil_iff [of "extract_at conf a t q k"] get_extract_at [of conf t a q k] by auto

lemma extract_at_Suc:
  "extract_at conf a n (c # cs) (Suc k) =
     (case bm_get (children n) c of None \<Rightarrow> [] | Some n' \<Rightarrow> extract_at conf a n' cs k)"
  by (simp add: extract_at_def split: option.split)

lemma roles_loop_spec:
  "((\<forall>k. 0 < k \<and> k \<le> length cs \<longrightarrow> extract_at conf a n cs k = []) \<longrightarrow> roles_loop conf a n rm cs = rm) \<and>
   (\<forall>k. 0 < k \<and> k \<le> length cs \<and> extract_at conf a n cs k \<noteq> [] \<and>
      (\<forall>j. k < j \<and> j \<le> length cs \<longrightarrow> extract_at conf a n cs j = []) \<longrightarrow>
      roles_loop conf a n rm cs = extract_at conf a n cs k)"
proof (induction cs arbitrary: n rm)
  case (Cons c cs)
  note IH = Cons.IH [THEN conjunct1, rule_format] Cons.IH [THEN conjunct2, rule_format]
  have "(\<forall>k. 0 < k \<and> k \<le> length (c # cs) \<longrightarrow> extract_at conf a n (c # cs) k = []) \<longrightarrow>
      roles_loop conf a n rm (c # cs) = rm"
  proof (cases "bm_get (children n) c")
    case (Some m)
    have e0: "extract_at conf a m cs 0 = extract_roles conf m a (cs = [])" by (simp add: extract_at_def)
    show ?thesis
    proof
      assume "\<forall>k. 0 < k \<and> k \<le> length (c # cs) \<longrightarrow> extract_at conf a n (c # cs) k = []"
      then have "extract_at conf a n (c # cs) (Suc k) = []" if "k \<le> length cs" for k using that by simp
      then have "extract_at conf a m cs k = []" if "k \<le> length cs" for k
        using that by (simp add: extract_at_Suc Some)
      with IH(1) [of m rm] e0 show "roles_loop conf a n rm (c # cs) = rm"
        by (simp add: Some)
    qed
  qed simp
  moreover have "\<forall>k. 0 < k \<and> k \<le> length (c # cs) \<and> extract_at conf a n (c # cs) k \<noteq> [] \<and>
      (\<forall>j. k < j \<and> j \<le> length (c # cs) \<longrightarrow> extract_at conf a n (c # cs) j = []) \<longrightarrow>
      roles_loop conf a n rm (c # cs) = extract_at conf a n (c # cs) k"
  proof (intro allI impI)
    fix k
    assume k: "0 < k \<and> k \<le> length (c # cs) \<and> extract_at conf a n (c # cs) k \<noteq> [] \<and>
      (\<forall>j. k < j \<and> j \<le> length (c # cs) \<longrightarrow> extract_at conf a n (c # cs) j = [])"
    then obtain l where l: "k = Suc l" by (cases k) auto
    from k obtain m where m: "bm_get (children n) c = Some m"
      by (cases "bm_get (children n) c") (auto simp: l extract_at_Suc)
    have e0: "extract_at conf a m cs 0 = extract_roles conf m a (cs = [])" by (simp add: extract_at_def)
    have later: "\<forall>j. l < j \<and> j \<le> length cs \<longrightarrow> extract_at conf a m cs j = []"
      using k by (auto simp: l extract_at_Suc m dest: spec [of _ "Suc _"])
    show "roles_loop conf a n rm (c # cs) = extract_at conf a n (c # cs) k"
    proof (cases l)
      case 0
      with later IH(1) [of m "extract_at conf a m cs 0"] k l show ?thesis
        by (simp add: m Let_def e0 [symmetric] extract_at_Suc)
    next
      case (Suc l')
      with later IH(2) k l show ?thesis by (simp add: m Let_def extract_at_Suc)
    qed
  qed
  ultimately show ?case by blast
qed simp

lemma get_roles:
  assumes wf: "node_wf conf t"
  shows "hm_get (roles conf t a path) = most_specific conf t a (split_all CHR ''/'' path) \<and>
         hm_wf (roles conf t a path)"
proof -
  let ?q = "split_all CHR ''/'' path"
  let ?e = "extract_at conf a t ?q"
  have e0: "extract_roles conf t a (path = []) = ?e 0" by (simp add: extract_at_def)
  show ?thesis
  proof (cases "effective_levels conf t a ?q = {}")
    case True
    then have "\<forall>k. k \<le> length ?q \<longrightarrow> ?e k = []"
      using extract_at_Nil_iff [OF wf] by (auto simp: effective_levels_def)
    with roles_loop_spec [THEN conjunct1, of ?q conf a t "?e 0"] show ?thesis
      by (auto simp: roles_def e0 most_specific_def True)
  next
    case False
    define k where "k = Max (effective_levels conf t a ?q)"
    have "k \<in> effective_levels conf t a ?q" unfolding k_def using False by (intro Max_in) simp_all
    then have k: "k \<le> length ?q" "?e k \<noteq> []"
      using extract_at_Nil_iff [OF wf] by (auto simp: effective_levels_def)
    have "\<And>j. j \<in> effective_levels conf t a ?q \<Longrightarrow> j \<le> k" unfolding k_def by simp
    then have later: "\<forall>j. k < j \<and> j \<le> length ?q \<longrightarrow> ?e j = []"
      using extract_at_Nil_iff [OF wf] by (fastforce simp: effective_levels_def)
    have "roles conf t a path = ?e k"
    proof (cases "k = 0")
      case True
      with later roles_loop_spec [THEN conjunct1, of ?q conf a t "?e 0"] show ?thesis by (simp add: roles_def e0)
    next
      case False
      with k later roles_loop_spec [THEN conjunct2, of ?q conf a t "?e 0"] show ?thesis by (simp add: roles_def e0)
    qed
    with get_extract_at [OF wf] False show ?thesis by (simp add: most_specific_def k_def)
  qed
qed

text \<open>C2: On a well-formed tree, \<open>roles\<close> returns the effective entries of the most specific node along the
  path that has any for the id: a node further down replaces all roles given further up, entries
  without the propagate flag count at the last component only, and the role without access is returned
  as not propagating. Path elements may themselves contain slashes.\<close>

theorem roles_are_most_specific:
  assumes "node_wf conf t"
  shows "hm_get (roles conf t a path) = most_specific conf t a (split_all CHR ''/'' path)"
  using get_roles [OF assms] by simp

theorem roles_are_most_specific_witness:
  "let t = insert_user_role test_acm_config
             (insert_user_role test_acm_config acl_node_new ''/'' user1 ''Admin'' True) ''/storage'' user1 ''NoAccess'' True
   in node_wf test_acm_config t \<and>
      most_specific test_acm_config t user1 [''storage'', ''a''] ''NoAccess'' = Some False \<and>
      most_specific test_acm_config t user1 [''system''] ''Admin'' = Some True"
proof -
  let ?t = "insert_user_role test_acm_config
             (insert_user_role test_acm_config acl_node_new ''/'' user1 ''Admin'' True) ''/storage'' user1 ''NoAccess'' True"
  have wf: "node_wf test_acm_config ?t"
    by (rule acl_reachable_node_wf [of id_env]) (intro acl_reachable.intros)
  note spec = roles_are_most_specific [OF wf, of user1, THEN fun_cong]
  have "roles test_acm_config ?t user1 [''storage/a''] = [(''NoAccess'', False)]"
    "roles test_acm_config ?t user1 [''system''] = [(''Admin'', True)]" by code_simp+
  with spec [of "[''storage/a'']" "''NoAccess''"] spec [of "[''system'']" "''Admin''"] wf
  show ?thesis by (simp add: hm_get_def split_all_def)
qed

section \<open>Privileges\<close>

definition role_has_bit :: "access_conf \<Rightarrow> string \<Rightarrow> nat \<Rightarrow> bool" where
  "role_has_bit conf r i = (case hm_get (conf_roles conf) r of None \<Rightarrow> False | Some (v, _) \<Rightarrow> bit v i)"

lemma bit_sum_privs:
  "(bit (fst (sum_privs conf m (p, pp))) i \<longleftrightarrow> bit p i \<or> (\<exists>r b. (r, b) \<in> set m \<and> role_has_bit conf r i)) \<and>
   (bit (snd (sum_privs conf m (p, pp))) i \<longleftrightarrow> bit pp i \<or> (\<exists>r. (r, True) \<in> set m \<and> role_has_bit conf r i))"
proof (induction m arbitrary: p pp)
  case (Cons x m)
  obtain r b where x: "x = (r, b)" by (cases x)
  obtain p' pp' where step: "sum_privs conf (x # m) (p, pp) = sum_privs conf m (p', pp')"
    and bits: "bit p' i \<longleftrightarrow> bit p i \<or> role_has_bit conf r i" "bit pp' i \<longleftrightarrow> bit pp i \<or> b \<and> role_has_bit conf r i"
    by (cases "hm_get (conf_roles conf) r") (auto simp: x role_has_bit_def bit_or_iff)
  then show ?case using Cons.IH [of p' pp'] unfolding step bits by (auto simp: x)
qed simp

lemma lookup_privs_details_admin:
  "is_superuser conf a \<Longrightarrow> admin_privs conf = Some v \<Longrightarrow> lookup_privs_details conf t a path = (v, v)"
  by (simp add: lookup_privs_details.simps)

lemma lookup_privs_details_user:
  "\<not> is_superuser conf a \<or> admin_privs conf = None \<Longrightarrow> \<not> is_token a \<Longrightarrow>
     lookup_privs_details conf t a path = sum_privs conf (roles conf t a path) (0, 0)"
  by (subst lookup_privs_details.simps) (auto split: option.split prod.split)

lemma lookup_privs_details_token:
  "\<not> is_superuser conf a \<or> admin_privs conf = None \<Longrightarrow> is_token a \<Longrightarrow>
     lookup_privs_details conf t a path =
       (let s = sum_privs conf (roles conf t a path) (0, 0);
            owner = lookup_privs_details conf t (authid_of_user (user a)) path
        in (fst s AND fst owner, snd s AND snd owner))"
  by (subst lookup_privs_details.simps) (auto simp: Let_def split: option.split prod.split)

lemma bit_lookup_privs_details:
  assumes "node_wf conf t" and "\<not> is_superuser conf a \<or> admin_privs conf = None"
  shows "bit (fst (lookup_privs_details conf t a path)) i \<longleftrightarrow>
      (\<exists>r b. most_specific conf t a (split_all CHR ''/'' path) r = Some b \<and> role_has_bit conf r i) \<and>
      (is_token a \<longrightarrow> bit (fst (lookup_privs_details conf t (authid_of_user (user a)) path)) i)"
    and "bit (snd (lookup_privs_details conf t a path)) i \<longleftrightarrow>
      (\<exists>r. most_specific conf t a (split_all CHR ''/'' path) r = Some True \<and> role_has_bit conf r i) \<and>
      (is_token a \<longrightarrow> bit (snd (lookup_privs_details conf t (authid_of_user (user a)) path)) i)"
proof -
  let ?m = "roles conf t a path"
  have m: "(r, b) \<in> set ?m \<longleftrightarrow> most_specific conf t a (split_all CHR ''/'' path) r = Some b" for r b
    using get_roles [OF assms(1), of a path] hm_get_Some_iff [of ?m r b] by auto
  note sums = bit_sum_privs [of conf ?m 0 0 i, unfolded m]
  show "bit (fst (lookup_privs_details conf t a path)) i \<longleftrightarrow>
      (\<exists>r b. most_specific conf t a (split_all CHR ''/'' path) r = Some b \<and> role_has_bit conf r i) \<and>
      (is_token a \<longrightarrow> bit (fst (lookup_privs_details conf t (authid_of_user (user a)) path)) i)"
    using assms(2) sums [THEN conjunct1]
    by (cases "is_token a")
       (simp_all add: lookup_privs_details_user lookup_privs_details_token Let_def bit_and_iff)
  show "bit (snd (lookup_privs_details conf t a path)) i \<longleftrightarrow>
      (\<exists>r. most_specific conf t a (split_all CHR ''/'' path) r = Some True \<and> role_has_bit conf r i) \<and>
      (is_token a \<longrightarrow> bit (snd (lookup_privs_details conf t (authid_of_user (user a)) path)) i)"
    using assms(2) sums [THEN conjunct2]
    by (cases "is_token a")
       (simp_all add: lookup_privs_details_user lookup_privs_details_token Let_def bit_and_iff)
qed

text \<open>C1: The privileges at a path. For an id that is not treated as superuser, a privilege is held exactly
  when one of the most specific roles of the id has it, and for a token only if its owner holds it at the
  same path as well. A privilege is propagated under the same conditions over the propagating roles.
  A superuser has the privileges of the administrator role everywhere.\<close>

theorem lookup_privs_spec:
  assumes "node_wf conf t"
  shows "(if is_superuser conf a \<and> admin_privs conf \<noteq> None
          then lookup_privs_details conf t a path = (the (admin_privs conf), the (admin_privs conf))
          else
           (\<forall>i. bit (lookup_privs conf t a path) i \<longleftrightarrow>
              (\<exists>r b. most_specific conf t a (split_all CHR ''/'' path) r = Some b \<and> role_has_bit conf r i) \<and>
              (is_token a \<longrightarrow> bit (lookup_privs conf t (authid_of_user (user a)) path) i)) \<and>
           (\<forall>i. bit (snd (lookup_privs_details conf t a path)) i \<longleftrightarrow>
              (\<exists>r. most_specific conf t a (split_all CHR ''/'' path) r = Some True \<and> role_has_bit conf r i) \<and>
              (is_token a \<longrightarrow>
                 bit (snd (lookup_privs_details conf t (authid_of_user (user a)) path)) i)))"
  using bit_lookup_privs_details [OF assms, of a path] lookup_privs_details_admin
  by (auto simp: lookup_privs_def)

theorem lookup_privs_spec_witness:
  "let t = insert_user_role test_acm_config acl_node_new ''/store'' user1 ''DatastoreReader'' False
   in node_wf test_acm_config t \<and> bit (lookup_privs test_acm_config t user1 [''store'']) 3 \<and>
      role_has_bit test_acm_config ''DatastoreReader'' 3"
proof -
  let ?t = "insert_user_role test_acm_config acl_node_new ''/store'' user1 ''DatastoreReader'' False"
  have wf: "node_wf test_acm_config ?t"
    by (rule acl_reachable_node_wf [of id_env]) (intro acl_reachable.intros)
  have "roles test_acm_config ?t user1 [''store''] = [(''DatastoreReader'', False)]"
    and bit: "role_has_bit test_acm_config ''DatastoreReader'' 3" by code_simp+
  then have "most_specific test_acm_config ?t user1 [''store''] ''DatastoreReader'' = Some False"
    using get_roles [OF wf, of user1 "[''store'']", THEN conjunct1, THEN fun_cong, of "''DatastoreReader''"]
    by (simp add: hm_get_def split_all_def)
  with lookup_privs_spec [OF wf, of user1 "[''store'']"] bit wf
  show ?thesis by (auto simp: test_acm_config_def is_token_def user1_def authid_of_user_def split_all_def Let_def)
qed

end
