(* ===== verification/Acl_Below.thy ===== *)
theory Acl_Below
  imports Acl_Roles
begin

text \<open>
  \<open>any_privs_below\<close>: what it answers is right for a path that is not the root, and the two ways in
  which it can miss a privilege.
\<close>

unbundle bit_operations_syntax

lemma lookup_privs_details_cong:
  assumes "split_all CHR ''/'' path = split_all CHR ''/'' path'"
  shows "lookup_privs_details conf t a path = lookup_privs_details conf t a path'"
proof -
  have "path = [] \<longleftrightarrow> path' = []" using assms split_all_Nil_iff by metis
  then have rs: "roles conf t x path = roles conf t x path'" for x by (simp add: roles_def assms)
  have user: "lookup_privs_details conf t x path = lookup_privs_details conf t x path'" if "\<not> is_token x" for x
    using that lookup_privs_details_admin [of conf x] lookup_privs_details_user [of conf x] rs
    by (cases "\<not> is_superuser conf x \<or> admin_privs conf = None") auto
  have "\<not> is_token (authid_of_user u)" for u by (simp add: is_token_def authid_of_user_def)
  with user show ?thesis
    using lookup_privs_details_admin [of conf a] lookup_privs_details_token [of conf a] rs
    by (cases "is_token a"; cases "\<not> is_superuser conf a \<or> admin_privs conf = None") auto
qed

lemma node_child_paths_form:
  "node_wf conf n \<Longrightarrow> s \<in> set (node_child_paths conf n pre a) \<Longrightarrow>
     \<exists>cs. cs \<noteq> [] \<and> clean_path cs \<and> s = pre @ concat (map (\<lambda>c. CHR ''/'' # c) cs)"
proof (induction conf n pre a rule: node_child_paths.induct)
  case (1 conf us gs ch pre a)
  from "1.prems"(2) obtain c n where cn: "(c, n) \<in> set ch"
    and s: "s = pre @ ''/'' @ c \<or> s \<in> set (node_child_paths conf n (pre @ ''/'' @ c) a)"
    by (auto simp: Let_def split: if_splits)
  from "1.prems"(1) cn have c: "c \<noteq> []" "CHR ''/'' \<notin> set c" "node_wf conf n"
    by (auto simp: list_all_iff)
  from s show ?case
  proof
    assume "s = pre @ ''/'' @ c"
    with c show ?thesis by (intro exI [of _ "[c]"]) (simp add: clean_path_def)
  next
    assume "s \<in> set (node_child_paths conf n (pre @ ''/'' @ c) a)"
    then obtain cs where "clean_path cs" "s = (pre @ ''/'' @ c) @ concat (map (\<lambda>c. CHR ''/'' # c) cs)"
      using "1.IH" [OF cn refl refl] c(3) by blast
    with c show ?thesis by (intro exI [of _ "c # cs"]) (simp add: clean_path_def)
  qed
qed

lemma join_append_path:
  "path \<noteq> [] \<Longrightarrow> join ''/'' path @ concat (map (\<lambda>c. CHR ''/'' # c) cs) = join ''/'' (path @ cs)"
proof (induction path)
  case (Cons p ps)
  show ?case
  proof (cases ps)
    case Nil
    have "join ''/'' (p # cs) = p @ concat (map (\<lambda>c. CHR ''/'' # c) cs)" for p
      by (induction cs arbitrary: p) (auto simp: join_Cons)
    with Nil show ?thesis by simp
  qed (use Cons in \<open>auto simp: join_Cons\<close>)
qed simp

lemma split_all_child_path:
  assumes "path \<noteq> []" and "clean_path cs"
  shows "split_all CHR ''/'' [join ''/'' path @ concat (map (\<lambda>c. CHR ''/'' # c) cs)] = split_all CHR ''/'' (path @ cs)"
  using assms split_on_join_all [of "path @ cs" "CHR ''/''"]
  by (simp add: join_append_path split_all_def)

lemma fresh_component:
  "\<exists>c. c \<noteq> [] \<and> CHR ''/'' \<notin> set c \<and> node_at t (q @ [c]) = None"
proof -
  let ?ch = "case node_at t q of None \<Rightarrow> [] | Some n \<Rightarrow> children n"
  let ?c = "\<lambda>n. replicate (Suc n) CHR ''a''"
  have "inj ?c" by (rule injI) (drule arg_cong [of _ _ length], simp)
  then have "infinite (range ?c)" using finite_imageD infinite_UNIV_nat by blast
  then have "\<not> range ?c \<subseteq> fst ` set ?ch" using finite_subset by blast
  then obtain n where "?c n \<notin> fst ` set ?ch" by blast
  then have "bm_get ?ch (?c n) = None" by (cases "bm_get ?ch (?c n)") (force dest: bm_get_SomeD)+
  then have "node_at t (q @ [?c n]) = None" by (cases "node_at t q") (auto simp: node_at_append)
  then show ?thesis by (intro exI [of _ "?c n"]) simp
qed

lemma most_specific_below:
  assumes r: "most_specific conf t a q r = Some True" and c: "node_at t (q @ [c]) = None"
  shows "most_specific conf t a (q @ [c]) r = Some True"
proof -
  let ?L = "effective_levels conf t a q"
  define k where "k = Max ?L"
  have "?L \<noteq> {}" using r by (auto simp: most_specific_def)
  then have k: "k \<in> ?L" and e: "effective_entry conf t a q k r = Some True"
    using r by (auto simp: most_specific_def k_def)
  have max: "j \<le> k" if "j \<in> ?L" for j using that by (simp add: k_def)
  have none: "effective_entry conf t a (q @ [c]) (Suc (length q)) = Map.empty"
    using c by (auto simp: effective_entry_def acl_entry_def node_view_def)
  have lower: "effective_entry conf t a (q @ [c]) j x = effective_entry conf t a q j x" if "j < length q" for j x
    using that by (auto simp: effective_entry_def split: option.split)
  have at: "effective_entry conf t a (q @ [c]) (length q) x = None"
    if "effective_entry conf t a q (length q) = Map.empty" for x
    using fun_cong [OF that, of x] by (auto simp: effective_entry_def split: option.splits)
  have "effective_entry conf t a (q @ [c]) k r = Some True"
    using e k by (auto simp: effective_entry_def effective_levels_def split: option.splits if_splits)
  moreover have "most_specific conf t a (q @ [c]) = effective_entry conf t a (q @ [c]) k"
  proof (rule most_specific_at)
    show "effective_entry conf t a (q @ [c]) j = Map.empty" if j: "k < j" "j \<le> length (q @ [c])" for j
    proof (cases "j = Suc (length q)")
      case False
      with j max [of j] have "effective_entry conf t a q j = Map.empty" "j \<le> length q"
        by (auto simp: effective_levels_def)
      with lower [of j] at show ?thesis by (cases "j = length q") (auto simp: fun_eq_iff)
    qed (simp add: none)
  qed (use k calculation in \<open>auto simp: effective_levels_def\<close>)
  ultimately show ?thesis by simp
qed

lemma propagated_below:
  assumes wf: "node_wf conf t" and c: "node_at t (split_all CHR ''/'' path @ [c]) = None" "CHR ''/'' \<notin> set c"
    and i: "bit (snd (lookup_privs_details conf t a path)) i"
  shows "bit (fst (lookup_privs_details conf t a (path @ [c]))) i"
proof -
  let ?q = "split_all CHR ''/'' path"
  have q: "split_all CHR ''/'' (path @ [c]) = ?q @ [c]"
    using c(2) by (simp add: split_all_append split_all_def)
  have user: "bit (fst (lookup_privs_details conf t x (path @ [c]))) i"
    if i: "bit (snd (lookup_privs_details conf t x path)) i"
      and owner: "is_token x \<Longrightarrow> bit (fst (lookup_privs_details conf t (authid_of_user (user x)) (path @ [c]))) i" for x
  proof (cases "\<not> is_superuser conf x \<or> admin_privs conf = None")
    case True
    from bit_lookup_privs_details(2) [OF wf True, of path i] i
    obtain r where "most_specific conf t x ?q r = Some True" and "role_has_bit conf r i" by blast
    moreover from this have "most_specific conf t x (?q @ [c]) r = Some True"
      using most_specific_below [OF _ c(1)] by blast
    ultimately show ?thesis
      using bit_lookup_privs_details(1) [OF wf True, of "path @ [c]" i] owner unfolding q by blast
  qed (use i in \<open>auto simp: lookup_privs_details_admin\<close>)
  show ?thesis
  proof (cases "is_token a \<and> (\<not> is_superuser conf a \<or> admin_privs conf = None)")
    case True
    then have "bit (snd (lookup_privs_details conf t (authid_of_user (user a)) path)) i"
      using bit_lookup_privs_details(2) [OF wf, of a path i] i by simp
    then have "bit (fst (lookup_privs_details conf t (authid_of_user (user a)) (path @ [c]))) i"
      by (rule user) (simp add: is_token_def authid_of_user_def)
    then show ?thesis by (rule user [OF i])
  qed (use i user [OF i] in \<open>auto simp: lookup_privs_details_admin\<close>)
qed

text \<open>C10: For a path other than the root, \<open>any_privs_below\<close> is sound: if it answers yes then there is a path
  strictly below at which the id holds one of the privileges.\<close>

theorem any_privs_below_sound:
  assumes "acl_reachable env conf t" and "path \<noteq> []" and "any_privs_below conf t a path privs"
  shows "\<exists>cs. cs \<noteq> [] \<and> clean_path cs \<and> lookup_privs conf t a (path @ cs) AND privs \<noteq> 0"
proof -
  have wf: "node_wf conf t" using assms(1) by (rule acl_reachable_node_wf)
  consider "snd (lookup_privs_details conf t a path) AND privs \<noteq> 0"
    | s where "s \<in> set (get_child_paths conf t a path)" "privs AND lookup_privs conf t a [s] \<noteq> 0"
    using assms(3) by (auto simp: any_privs_below_def list_ex_iff)
  then show ?thesis
  proof cases
    case 1
    then obtain i where i: "bit (snd (lookup_privs_details conf t a path)) i" "bit privs i"
      by (auto simp: bit_eq_iff bit_and_iff)
    obtain c where c: "c \<noteq> []" "CHR ''/'' \<notin> set c" "node_at t (split_all CHR ''/'' path @ [c]) = None"
      using fresh_component by blast
    have "bit (lookup_privs conf t a (path @ [c]) AND privs) i"
      using propagated_below [OF wf c(3,2) i(1)] i(2) by (simp add: bit_and_iff lookup_privs_def)
    with c(1,2) show ?thesis by (intro exI [of _ "[c]"]) (auto simp: clean_path_def)
  next
    case 2
    then obtain n where n: "get_node t path = Some n"
      and s: "s \<in> set (node_child_paths conf n (join ''/'' path) a)"
      by (cases "get_node t path") (auto simp: get_child_paths_def)
    have "node_wf conf n" using n node_wf_node_at [OF wf] by (simp add: get_node_def)
    then obtain cs where cs: "cs \<noteq> []" "clean_path cs"
      and "s = join ''/'' path @ concat (map (\<lambda>c. CHR ''/'' # c) cs)"
      using node_child_paths_form [OF _ s] by blast
    then have "lookup_privs conf t a [s] = lookup_privs conf t a (path @ cs)"
      unfolding lookup_privs_def
      using lookup_privs_details_cong [OF split_all_child_path [OF assms(2), of cs]] by simp
    with 2(2) cs show ?thesis by (auto simp: and.commute)
  qed
qed

theorem any_privs_below_sound_witness:
  "let t = insert_user_role test_acm_config acl_node_new ''/store/a'' user1 ''DatastoreReader'' False
   in any_privs_below test_acm_config t user1 [''store''] 8 \<and>
      (\<exists>cs. cs \<noteq> [] \<and> clean_path cs \<and> lookup_privs test_acm_config t user1 ([''store''] @ cs) AND 8 \<noteq> 0)"
proof -
  let ?t = "insert_user_role test_acm_config acl_node_new ''/store/a'' user1 ''DatastoreReader'' False"
  have r: "acl_reachable id_env test_acm_config ?t" by (intro acl_reachable.intros)
  have y: "any_privs_below test_acm_config ?t user1 [''store''] 8" by code_simp
  show ?thesis using any_privs_below_sound [OF r _ y] y by (simp add: Let_def)
qed

text \<open>\<open>any_privs_below\<close> is not complete. Asked at the root it never looks below it, because the child
  paths then start with a slash and are split into a leading empty component. And a role without the
  propagate flag at the path itself hides what is inherited below it from further up.\<close>

theorem any_privs_below_misses:
  "let t = insert_user_role test_acm_config acl_node_new ''/store/a'' user1 ''Admin'' False;
       t' = insert_user_role test_acm_config
              (insert_user_role test_acm_config acl_node_new ''/'' user1 ''Admin'' True)
              ''/store'' user1 ''DatastoreReader'' False
   in lookup_privs test_acm_config t user1 [''store'', ''a''] AND 4 \<noteq> 0 \<and>
      \<not> any_privs_below test_acm_config t user1 [] 4 \<and>
      lookup_privs test_acm_config t' user1 [''store'', ''a''] AND 4 \<noteq> 0 \<and>
      \<not> any_privs_below test_acm_config t' user1 [''store''] 4"
  by code_simp

end
