(* ===== verification/Acl_File.thy ===== *)
theory Acl_File
  imports Acl_Below
begin

text \<open>
  The text form of the ACL tree: \<open>write_config\<close>, \<open>load\<close> and the cached reading of \<open>acl.cfg\<close>
  (\<open>cached_config\<close>). A \<open>BTreeSet\<close> of strings is an ascending list. Reading a file is a parameter: the
  result of \<open>stat\<close> and the content read afterwards.
\<close>

section \<open>Writing\<close>

definition bs_insert :: "string \<Rightarrow> string list \<Rightarrow> string list" where
  "bs_insert x s = (if x \<in> set s then s else insort x s)"

text \<open>The map from roles to the users and groups that have them with the given propagate flag.\<close>

definition add_role_ug ::
  "bool \<Rightarrow> string \<Rightarrow> string \<times> bool \<Rightarrow> (string, string list) hash_map \<Rightarrow> (string, string list) hash_map" where
  "add_role_ug flag ug rp m =
     (case rp of (role, propagate) \<Rightarrow> if propagate = flag then hm_entry role [] (bs_insert ug) m else m)"

definition role_ug_map :: "bool \<Rightarrow> acl_node \<Rightarrow> (string, string list) hash_map" where
  "role_ug_map flag node =
     (let m = fold (\<lambda>(a, rs) m.
                 if \<not> is_token a \<and> data (user a) = ''root@pam'' then m
                 else fold (add_role_ug flag (authid_display a)) rs m) (users node) []
      in fold (\<lambda>(g, rs) m. fold (add_role_ug flag (CHR ''@'' # g)) rs m) (groups node) m)"

definition fold_comma :: "string list \<Rightarrow> string" where
  "fold_comma xs = fold (\<lambda>v acc. if acc = [] then v else acc @ '','' @ v) xs []"

definition group_by_property_list ::
  "(string, string list) hash_map \<Rightarrow> (string, string list) btree_map" where
  "group_by_property_list m =
     fold (\<lambda>(item, props) r.
        let k = fold_comma props
        in bm_insert k (bs_insert item (case bm_get r k of None \<Rightarrow> [] | Some s \<Rightarrow> s)) r) m []"

definition role_list :: "access_conf \<Rightarrow> string list \<Rightarrow> string" where
  "role_list conf rs =
     (case role_no_access conf of
        Some no_access \<Rightarrow> if no_access \<in> set rs then no_access else fold_comma rs
      | None \<Rightarrow> fold_comma rs)"

definition node_lines :: "access_conf \<Rightarrow> bool \<Rightarrow> acl_node \<Rightarrow> string \<Rightarrow> string" where
  "node_lines conf flag node path =
     concat (map (\<lambda>(uglist, rs).
        ''acl:'' @ (if flag then ''1'' else ''0'') @ '':'' @ (if path = [] then ''/'' else path) @ '':'' @
        uglist @ '':'' @ role_list conf rs @ [CHR 0x0A])
       (group_by_property_list (role_ug_map flag node)))"

fun write_node_config :: "access_conf \<Rightarrow> acl_node \<Rightarrow> string \<Rightarrow> string" where
  "write_node_config conf (AclTreeNode us gs ch) path =
     node_lines conf False (AclTreeNode us gs ch) path @ node_lines conf True (AclTreeNode us gs ch) path @
     concat (map (\<lambda>(name, child). write_node_config conf child (path @ ''/'' @ name)) ch)"

definition write_config :: "access_conf \<Rightarrow> acl_node \<Rightarrow> string" where
  "write_config conf tree = write_node_config conf tree []"

section \<open>Loading and the cache\<close>

text \<open>The outcome of reading the file: its content, \<open>None\<close> when it does not exist, or an error.\<close>

type_synonym read_result = "(error, string option) result"

definition load :: "schema_env \<Rightarrow> access_conf \<Rightarrow> (string \<Rightarrow> 'd) \<Rightarrow> read_result \<Rightarrow> (error, acl_node \<times> 'd) result" where
  "load env conf digest rd =
     and_then (case rd of Inr (Some v) \<Rightarrow> Inr v | Inr None \<Rightarrow> Inr [] | Inl e \<Rightarrow> Inl e)
       (\<lambda>raw. and_then (parse_lines env conf 0 (lines raw) acl_node_new) (\<lambda>tree. Inr (tree, digest raw)))"

record config_cache =
  cache_data :: "acl_node option"
  last_mtime :: int
  last_mtime_nsec :: int

definition config_cache_new :: config_cache where
  "config_cache_new = \<lparr>cache_data = None, last_mtime = 0, last_mtime_nsec = 0\<rparr>"

definition cached_config ::
  "schema_env \<Rightarrow> access_conf \<Rightarrow> (string \<Rightarrow> 'd) \<Rightarrow> config_cache \<Rightarrow> (error, (int \<times> int) option) result \<Rightarrow> read_result \<Rightarrow>
   config_cache \<times> (error, acl_node) result" where
  "cached_config env conf digest cache st rd =
     (case st of
        Inl e \<Rightarrow> (cache, Inl e)
      | Inr stat \<Rightarrow>
          (let hit = (case stat of
                        Some (mtime, nsec) \<Rightarrow> mtime = last_mtime cache \<and> nsec = last_mtime_nsec cache
                      | None \<Rightarrow> last_mtime cache = 0 \<and> last_mtime_nsec cache = 0)
           in case (cache_data cache, hit) of
                (Some config, True) \<Rightarrow> (cache, Inr config)
              | _ \<Rightarrow>
                  (case load env conf digest rd of
                     Inl e \<Rightarrow> (cache, Inl e)
                   | Inr (config, _) \<Rightarrow>
                       (let cache' = (case stat of
                              Some (mtime, nsec) \<Rightarrow> cache\<lparr>last_mtime := mtime, last_mtime_nsec := nsec\<rparr>
                            | None \<Rightarrow> cache)
                        in (cache'\<lparr>cache_data := Some config\<rparr>, Inr config)))))"

text \<open>A file that does not change between \<open>stat\<close> and the read: its modification time and content.\<close>

type_synonym file_state = "((int \<times> int) \<times> string) option"

definition cached_read ::
  "schema_env \<Rightarrow> access_conf \<Rightarrow> (string \<Rightarrow> 'd) \<Rightarrow> config_cache \<Rightarrow> file_state \<Rightarrow>
   config_cache \<times> (error, acl_node) result" where
  "cached_read env conf digest cache f = cached_config env conf digest cache (Inr (map_option fst f)) (Inr (map_option snd f))"

fun cached_reads ::
  "schema_env \<Rightarrow> access_conf \<Rightarrow> (string \<Rightarrow> 'd) \<Rightarrow> config_cache \<Rightarrow> file_state list \<Rightarrow> (error, acl_node) result list" where
  "cached_reads env conf digest cache [] = []"
| "cached_reads env conf digest cache (f # fs) =
     (let (cache', r) = cached_read env conf digest cache f in r # cached_reads env conf digest cache' fs)"

definition fresh_tree :: "schema_env \<Rightarrow> access_conf \<Rightarrow> file_state \<Rightarrow> (error, acl_node) result" where
  "fresh_tree env conf f = from_raw env conf (case f of None \<Rightarrow> [] | Some (_, raw) \<Rightarrow> raw)"

text \<open>The cache describes the file state \<open>g\<close> seen last.\<close>

definition cache_of :: "schema_env \<Rightarrow> access_conf \<Rightarrow> config_cache \<Rightarrow> file_state set \<Rightarrow> bool" where
  "cache_of env conf cache seen =
     (\<forall>t. cache_data cache = Some t \<longrightarrow>
        (\<exists>raw. Some ((last_mtime cache, last_mtime_nsec cache), raw) \<in> seen \<and> from_raw env conf raw = Inr t))"

lemma cached_read_spec:
  assumes "cache_of env conf cache seen" and "f = Some (m, raw)"
    and "\<And>m raw raw'. Some (m, raw) \<in> insert f seen \<Longrightarrow> Some (m, raw') \<in> insert f seen \<Longrightarrow> raw = raw'"
  shows "snd (cached_read env conf digest cache f) = fresh_tree env conf f \<and>
         cache_of env conf (fst (cached_read env conf digest cache f)) (insert f seen)"
proof (cases "\<exists>t. cache_data cache = Some t \<and> m = (last_mtime cache, last_mtime_nsec cache)")
  case True
  then obtain t raw' where t: "cache_data cache = Some t" "m = (last_mtime cache, last_mtime_nsec cache)"
    and raw': "Some (m, raw') \<in> seen" "from_raw env conf raw' = Inr t"
    using assms(1) by (auto simp: cache_of_def)
  have "raw' = raw" using assms(3) [of m raw' raw] raw'(1) assms(2) by simp
  with t raw' show ?thesis
    by (auto simp: cached_read_def cached_config_def assms(2) fresh_tree_def cache_of_def)
next
  case False
  have "load env conf digest (Inr (Some raw)) = and_then (from_raw env conf raw) (\<lambda>tree. Inr (tree, digest raw))"
    by (simp add: load_def from_raw_def)
  with False assms(1) show ?thesis
    by (cases "from_raw env conf raw"; cases m)
       (auto simp: cached_read_def cached_config_def assms(2) fresh_tree_def cache_of_def Let_def split: option.split)
qed

lemma cached_reads_fresh_aux:
  assumes "cache_of env conf cache seen" and "\<And>f. f \<in> set fs \<Longrightarrow> f \<noteq> None"
    and "\<And>m raw raw'. Some (m, raw) \<in> set fs \<union> seen \<Longrightarrow> Some (m, raw') \<in> set fs \<union> seen \<Longrightarrow> raw = raw'"
  shows "cached_reads env conf digest cache fs = map (fresh_tree env conf) fs"
  using assms
proof (induction fs arbitrary: cache seen)
  case (Cons f fs)
  obtain m raw where f: "f = Some (m, raw)" using Cons.prems(2) [of f] by auto
  have u: "raw = raw'" if "Some (m, raw) \<in> insert f seen" "Some (m, raw') \<in> insert f seen" for m raw raw'
    using Cons.prems(3) [of m raw raw'] that by auto
  note step = cached_read_spec [where digest = digest, OF Cons.prems(1) f u]
  have "cached_reads env conf digest (fst (cached_read env conf digest cache f)) fs = map (fresh_tree env conf) fs"
    by (rule Cons.IH [of _ "insert f seen"]) (use step Cons.prems in auto)
  with step show ?case by (simp add: split_beta Let_def)
qed simp

text \<open>C12: As long as the file exists and an unchanged modification time means an unchanged content, every
  call of \<open>cached_config\<close> in a sequence of calls returns what a fresh read of the file would return.\<close>

theorem cached_config_is_fresh:
  assumes "\<And>f. f \<in> set fs \<Longrightarrow> f \<noteq> None"
    and "\<And>m raw raw'. Some (m, raw) \<in> set fs \<Longrightarrow> Some (m, raw') \<in> set fs \<Longrightarrow> raw = raw'"
  shows "cached_reads env conf digest config_cache_new fs = map (fresh_tree env conf) fs"
  by (rule cached_reads_fresh_aux [of _ _ _ "{}"])
     (use assms in \<open>auto simp: cache_of_def config_cache_new_def\<close>)

definition acl_line1 :: string where
  "acl_line1 = ''acl:1:/:user1@pbs:Admin'' @ [CHR 0x0A]"

theorem cached_config_is_fresh_witness:
  "cached_reads id_env test_acm_config length config_cache_new
     [Some ((5, 0), acl_line1), Some ((6, 0), []), Some ((5, 0), acl_line1)] =
   map (fresh_tree id_env test_acm_config) [Some ((5, 0), acl_line1), Some ((6, 0), []), Some ((5, 0), acl_line1)]"
  by (rule cached_config_is_fresh) auto

text \<open>The cache is wrong when the file disappears in between: the empty tree is cached under the old
  modification time, and after the file comes back with that time the empty tree is returned.\<close>

theorem cached_config_stale_after_removal:
  "cached_reads id_env test_acm_config length config_cache_new
     [Some ((5, 0), acl_line1), None, Some ((5, 0), acl_line1)] ! 2 = Inr acl_node_new \<and>
   fresh_tree id_env test_acm_config (Some ((5, 0), acl_line1)) \<noteq> Inr acl_node_new"
  by code_simp

text \<open>The text form is not faithful for every valid user id. User names may contain commas and at
  signs, and the id list of a line is split at commas: the entry of the user \<open>x@pam,y@pbs\<close> is read back
  as two entries that give the role to the different users \<open>x@pam\<close> and \<open>y@pbs\<close>.\<close>

theorem comma_in_user_name_changes_owner:
  "let a = authid_of_user (userid_from_parts ''x@pam,y'' ''pbs'');
       x = authid_of_user (userid_from_parts ''x'' ''pam'');
       t = insert_user_role test_acm_config acl_node_new ''/'' a ''Admin'' True
   in authid_from_str id_env (authid_display a) = Inr a \<and>
      acl_entry t [] x ''Admin'' = None \<and>
      (case from_raw id_env test_acm_config (write_config test_acm_config t) of
         Inl _ \<Rightarrow> False
       | Inr t' \<Rightarrow> acl_entry t' [] x ''Admin'' = Some True \<and> acl_entry t' [] a ''Admin'' = None)"
  by code_simp

end
