(* ===== verification/Permission.thy ===== *)
theory Permission
  imports Acl_File
begin

text \<open>
  The declarative permissions of the router (\<open>proxmox-router/src/permission.rs\<close>): the \<open>Permission\<close> type and
  its test \<open>check_api_permission\<close> against a \<open>UserInformation\<close>, the trait through which the router asks
  the access control. The trait is the record \<open>user_information\<close>.
\<close>

unbundle bit_operations_syntax

section \<open>Permissions\<close>

datatype permission =
    Superuser
  | World
  | Anybody
  | User string
  | UserParam string
  | Group string
  | WithParam string permission
  | Privilege "string list" u64 bool
  | And "permission list"
  | Or "permission list"

record user_information =
  ui_is_superuser :: "string \<Rightarrow> bool"
  ui_is_group_member :: "string \<Rightarrow> string \<Rightarrow> bool"
  ui_lookup_privs :: "string \<Rightarrow> string list \<Rightarrow> u64"

text \<open>A path component \<open>{name}\<close> stands for the components of the parameter; the name is cut out with
  \<open>get_unchecked(1..comp.len() - 1)\<close>.\<close>

definition is_uri_var :: "string \<Rightarrow> bool" where
  "is_uri_var cmp = (cmp \<noteq> [] \<and> hd cmp = CHR ''{'' \<and> last cmp = CHR ''}'')"

definition uri_var_name :: "string \<Rightarrow> string" where
  "uri_var_name cmp = take (length cmp - 1 - 1) (drop 1 cmp)"

fun replace_uri_vars :: "(string, string) hash_map \<Rightarrow> string list \<Rightarrow> string list option" where
  "replace_uri_vars param [] = Some []"
| "replace_uri_vars param (cmp # comps) =
     (if is_uri_var cmp then
        (case hm_get param (uri_var_name cmp) of
           None \<Rightarrow> None
         | Some v \<Rightarrow> map_option ((@) (split_on CHR ''/'' v)) (replace_uri_vars param comps))
      else map_option ((#) cmp) (replace_uri_vars param comps))"

definition check_privilege :: "u64 \<Rightarrow> u64 \<Rightarrow> bool \<Rightarrow> bool" where
  "check_privilege privs expected part =
     (if privs = 0 then False
      else if part then expected AND privs \<noteq> 0
      else expected AND privs = expected)"

fun check_api_permission ::
    "permission \<Rightarrow> string option \<Rightarrow> (string, string) hash_map \<Rightarrow> user_information \<Rightarrow> bool"
and check_api_permission_tail ::
    "permission \<Rightarrow> string option \<Rightarrow> (string, string) hash_map \<Rightarrow> user_information \<Rightarrow> bool" where
  "check_api_permission perm userid param info =
     (if (case userid of None \<Rightarrow> False | Some u \<Rightarrow> ui_is_superuser info u) then True
      else check_api_permission_tail perm userid param info)"
| "check_api_permission_tail World userid param info = True"
| "check_api_permission_tail Anybody userid param info = (userid \<noteq> None)"
| "check_api_permission_tail Superuser userid param info =
     (case userid of None \<Rightarrow> False | Some u \<Rightarrow> ui_is_superuser info u)"
| "check_api_permission_tail (User expected) userid param info =
     (case userid of None \<Rightarrow> False | Some u \<Rightarrow> u = expected)"
| "check_api_permission_tail (UserParam name) userid param info =
     (case (userid, hm_get param name) of
        (None, _) \<Rightarrow> False
      | (_, None) \<Rightarrow> False
      | (Some u, Some expected) \<Rightarrow> u = expected)"
| "check_api_permission_tail (Group g) userid param info =
     (case userid of None \<Rightarrow> False | Some u \<Rightarrow> ui_is_group_member info u g)"
| "check_api_permission_tail (WithParam name subtest) userid param info =
     check_api_permission subtest (hm_get param name) param info"
| "check_api_permission_tail (Privilege path expected part) userid param info =
     (case replace_uri_vars param (split_all CHR ''/'' path) of
        None \<Rightarrow> False
      | Some new_path \<Rightarrow>
          (case userid of
             None \<Rightarrow> False
           | Some u \<Rightarrow> check_privilege (ui_lookup_privs info u new_path) expected part))"
| "check_api_permission_tail (And list) userid param info =
     list_all (\<lambda>subtest. check_api_permission_tail subtest userid param info) list"
| "check_api_permission_tail (Or list) userid param info =
     list_ex (\<lambda>subtest. check_api_permission_tail subtest userid param info) list"

declare check_api_permission.simps [simp del]

section \<open>Properties\<close>

text \<open>The unchecked slice that cuts the parameter name out of a path component is in bounds and not
  reversed, and what it cuts out is exactly what stands between the braces.\<close>

theorem uri_var_slice_in_bounds:
  assumes "is_uri_var cmp"
  shows "1 \<le> length cmp - 1 \<and> length cmp - 1 \<le> length cmp \<and> cmp = ''{'' @ uri_var_name cmp @ ''}''"
proof -
  obtain xs where xs: "cmp = CHR ''{'' # xs" using assms by (cases cmp) (auto simp: is_uri_var_def)
  with assms have "xs \<noteq> []" and "last xs = CHR ''}''" by (auto simp: is_uri_var_def split: if_splits)
  then obtain ys where "xs = ys @ ''}''" by (metis append_butlast_last_id)
  with xs show ?thesis by (simp add: uri_var_name_def)
qed

theorem uri_var_slice_in_bounds_witness:
  "is_uri_var ''{store}'' \<and> ''{store}'' = ''{'' @ uri_var_name ''{store}'' @ ''}''"
proof -
  have v: "is_uri_var ''{store}''" by code_simp
  show ?thesis using uri_var_slice_in_bounds [OF v] v by blast
qed

text \<open>Permissions that can hold without an authenticated user: those that follow from \<open>World\<close> and from
  tests of a parameter value.\<close>

fun open_permission :: "permission \<Rightarrow> bool" where
  "open_permission World = True"
| "open_permission (WithParam name subtest) = True"
| "open_permission (And list) = list_all open_permission list"
| "open_permission (Or list) = list_ex open_permission list"
| "open_permission _ = False"

lemma tail_anonymous: "check_api_permission_tail perm None param info \<Longrightarrow> open_permission perm"
  by (induction perm) (auto simp: list_all_iff list_ex_iff split: option.splits)

text \<open>C16: A request without an authenticated user passes only if the permission follows from \<open>World\<close> or a
  parameter test: no user, group, superuser or privilege test on the caller ever succeeds for it.\<close>

theorem anonymous_needs_open_permission:
  assumes "check_api_permission perm None param info"
  shows "open_permission perm"
  using assms tail_anonymous by (simp add: check_api_permission.simps)

theorem anonymous_needs_open_permission_witness:
  "check_api_permission (Or [Superuser, World]) None []
     \<lparr>ui_is_superuser = (\<lambda>_. True), ui_is_group_member = (\<lambda>_ _. True), ui_lookup_privs = (\<lambda>_ _. 1)\<rparr> \<and>
   open_permission (Or [Superuser, World])"
proof -
  have c: "check_api_permission (Or [Superuser, World]) None []
     \<lparr>ui_is_superuser = (\<lambda>_. True), ui_is_group_member = (\<lambda>_ _. True), ui_lookup_privs = (\<lambda>_ _. 1)\<rparr>"
    by code_simp
  show ?thesis using anonymous_needs_open_permission [OF c] c by blast
qed

text \<open>One source of user information gives at least what another gives.\<close>

definition info_le :: "user_information \<Rightarrow> user_information \<Rightarrow> bool" where
  "info_le i j =
     ((\<forall>u. ui_is_superuser i u \<longrightarrow> ui_is_superuser j u) \<and>
      (\<forall>u g. ui_is_group_member i u g \<longrightarrow> ui_is_group_member j u g) \<and>
      (\<forall>u p. ui_lookup_privs i u p AND ui_lookup_privs j u p = ui_lookup_privs i u p))"

lemma check_privilege_mono:
  assumes "p AND q = p" and "check_privilege p expected part"
  shows "check_privilege q expected part"
proof -
  have pq: "bit p i \<Longrightarrow> bit q i" for i using assms(1) by (metis bit_and_iff)
  have "p \<noteq> 0" using assms(2) by (auto simp: check_privilege_def)
  then have "q \<noteq> 0" using pq by (auto simp: bit_eq_iff)
  moreover have "expected AND q \<noteq> 0" if "expected AND p \<noteq> 0"
    using that pq by (auto simp: bit_eq_iff bit_and_iff)
  moreover have "expected AND q = expected" if "expected AND p = expected"
    using that pq by (auto simp: bit_eq_iff bit_and_iff)
  ultimately show ?thesis using assms(2) by (auto simp: check_privilege_def split: if_splits)
qed

lemma check_mono_aux:
  "info_le i j \<Longrightarrow> check_api_permission perm u param i \<Longrightarrow> check_api_permission perm u param j"
  "info_le i j \<Longrightarrow> check_api_permission_tail perm u param i \<Longrightarrow> check_api_permission_tail perm u param j"
proof (induction perm u param i and perm u param i rule: check_api_permission_check_api_permission_tail.induct)
  case (1 perm userid param info)
  then show ?case
    by (auto simp: check_api_permission.simps info_le_def split: option.splits if_splits)
next
  case (9 path expected part userid param info)
  then show ?case
    by (auto simp: info_le_def split: option.splits elim!: check_privilege_mono [rotated])
qed (auto simp: info_le_def list_all_iff list_ex_iff split: option.splits)

text \<open>C15: Permissions are monotone: whoever gets more groups, privileges or the superuser status never loses
  access to an API method.\<close>

theorem check_api_permission_mono:
  assumes "info_le i j" and "check_api_permission perm u param i"
  shows "check_api_permission perm u param j"
  using assms check_mono_aux(1) by blast

theorem check_api_permission_mono_witness:
  "check_api_permission (Privilege [''store''] 2 False) (Some ''u'') []
     \<lparr>ui_is_superuser = (\<lambda>_. False), ui_is_group_member = (\<lambda>_ _. False), ui_lookup_privs = (\<lambda>_ _. 3)\<rparr>"
proof -
  let ?i = "\<lambda>p. \<lparr>ui_is_superuser = (\<lambda>_. False), ui_is_group_member = (\<lambda>_ _. False), ui_lookup_privs = (\<lambda>_ _. p)\<rparr>"
  have le: "info_le (?i 2) (?i 3)" by (simp add: info_le_def)
  have c: "check_api_permission (Privilege [''store''] 2 False) (Some ''u'') [] (?i 2)" by code_simp
  show ?thesis using check_api_permission_mono [OF le c] .
qed

end
