(* ===== verification/Section_Config.thy ===== *)
theory Section_Config
  imports Schema_Params
begin

text \<open>
  Section configuration files (\<open>proxmox-section-config/src/lib.rs\<close>): a file is a list of sections with a
  type, an id and properties, checked against the schema of the type. This theory models the data, the
  two line syntaxes, the parser as a state machine over the lines and the writer.

  A value that is a panic of the source (a failed \<open>unwrap\<close>, or the one of \<open>parse_simple_value\<close>) is \<open>None\<close>.
  Two tables of the standard library are parameters (\<open>text_env\<close>): the shortest decimal form of a float and
  the alphabetic code points above ASCII.
\<close>

section \<open>Text\<close>

record text_env =
  t_schema :: schema_env
  show_f64 :: "f64 \<Rightarrow> string"
  uni_alphabetic :: "string \<Rightarrow> bool"

definition bind_result ::
  "('e, 'a) result option \<Rightarrow> ('a \<Rightarrow> ('e, 'b) result option) \<Rightarrow> ('e, 'b) result option" where
  "bind_result r f = Option.bind r (\<lambda>x. case x of Inl e \<Rightarrow> Some (Inl e) | Inr y \<Rightarrow> f y)"

lemma bind_result_simps [simp]:
  "bind_result None f = None" "bind_result (Some (Inl e)) f = Some (Inl e)" "bind_result (Some (Inr x)) f = f x"
  by (simp_all add: bind_result_def)

text \<open>\<open>char::is_control\<close> is U+0000 to U+001F and U+007F to U+009F.\<close>

fun has_control :: "string \<Rightarrow> bool" where
  "has_control [] = False"
| "has_control (c # s) =
     (c < CHR '' '' \<or> c = CHR 0x7F \<or>
      (c = CHR 0xC2 \<and> s \<noteq> [] \<and> CHR 0x80 \<le> hd s \<and> hd s \<le> CHR 0x9F) \<or> has_control s)"

definition starts_with_whitespace :: "string \<Rightarrow> bool" where
  "starts_with_whitespace s = (find_prefix white_space s \<noteq> None)"

definition starts_alphabetic :: "text_env \<Rightarrow> string \<Rightarrow> bool" where
  "starts_alphabetic tx s =
     (s \<noteq> [] \<and>
      (if hd s < CHR 0x80
       then CHR ''a'' \<le> hd s \<and> hd s \<le> CHR ''z'' \<or> CHR ''A'' \<le> hd s \<and> hd s \<le> CHR ''Z''
       else uni_alphabetic tx s))"

text \<open>\<open>splitn(2, c)\<close> and \<open>splitn(2, char::is_whitespace)\<close>: the text before the first separator and, if there is
  one, the text after it.\<close>

fun splitn2 :: "char \<Rightarrow> string \<Rightarrow> string \<times> string option" where
  "splitn2 c [] = ([], None)"
| "splitn2 c (x # s) =
     (if x = c then ([], Some s) else (case splitn2 c s of (a, b) \<Rightarrow> (x # a, b)))"

fun splitn2_whitespace :: "string \<Rightarrow> string \<times> string option" where
  "splitn2_whitespace [] = ([], None)"
| "splitn2_whitespace (x # s) =
     (case find_prefix white_space (x # s) of
        Some w \<Rightarrow> ([], Some (drop (length w) (x # s)))
      | None \<Rightarrow> (case splitn2_whitespace s of (a, b) \<Rightarrow> (x # a, b)))"

section \<open>Plugins and data\<close>

record section_config_plugin =
  type_name :: string
  plugin_properties :: schema
  id_property :: "string option"
  plugin_type_key :: "string option"

definition section_config_plugin_new :: "string \<Rightarrow> string option \<Rightarrow> schema \<Rightarrow> section_config_plugin" where
  "section_config_plugin_new t idp s =
     \<lparr>type_name = t, plugin_properties = s, id_property = idp, plugin_type_key = None\<rparr>"

definition plugin_with_type_key :: "string \<Rightarrow> section_config_plugin \<Rightarrow> section_config_plugin" where
  "plugin_with_type_key k p = p\<lparr>plugin_type_key := Some k\<rparr>"

definition get_id_schema :: "section_config_plugin \<Rightarrow> schema option" where
  "get_id_schema p =
     (case id_property p of
        None \<Rightarrow> None
      | Some id_prop \<Rightarrow> map_option snd (lookup_schema (plugin_properties p) id_prop (\<lambda>_. None)))"

record section_config_data =
  sections :: "(string, string \<times> json) hash_map"
  order :: "string list"

definition section_config_data_new :: section_config_data where
  "section_config_data_new = \<lparr>sections = [], order = []\<rparr>"

definition set_data :: "string \<Rightarrow> string \<Rightarrow> json \<Rightarrow> section_config_data \<Rightarrow> section_config_data" where
  "set_data section_id tn config d =
     d\<lparr>sections := hm_insert section_id (tn, config) (sections d)\<rparr>"

definition record_order :: "string \<Rightarrow> section_config_data \<Rightarrow> section_config_data" where
  "record_order section_id d = d\<lparr>order := order d @ [section_id]\<rparr>"

definition lookup_json :: "section_config_data \<Rightarrow> string \<Rightarrow> string \<Rightarrow> (error, json) result" where
  "lookup_json d tn i =
     (case hm_get (sections d) i of
        Some (section_type_name, config) \<Rightarrow>
          if tn \<noteq> section_type_name then Inl (Msg ''got unexpected type'') else Inr config
      | None \<Rightarrow> Inl (Msg ''no such section''))"

text \<open>\<open>T::deserialize\<close> of the typed lookups is a parameter.\<close>

definition lookup_typed ::
  "(json \<Rightarrow> (error, 'a) result) \<Rightarrow> section_config_data \<Rightarrow> string \<Rightarrow> string \<Rightarrow> (error, 'a) result" where
  "lookup_typed deserialize d tn i = and_then (lookup_json d tn i) deserialize"

fun collect_results :: "('e, 'a) result list \<Rightarrow> ('e, 'a list) result" where
  "collect_results [] = Inr []"
| "collect_results (r # rs) = and_then r (\<lambda>x. and_then (collect_results rs) (\<lambda>xs. Inr (x # xs)))"

definition convert_to_typed_array ::
  "(json \<Rightarrow> (error, 'a) result) \<Rightarrow> section_config_data \<Rightarrow> string \<Rightarrow> (error, 'a list) result" where
  "convert_to_typed_array deserialize d tn =
     collect_results
       (map (\<lambda>(_, _, v). deserialize v) (filter (\<lambda>(_, t, _). t = tn) (sections d)))"

text \<open>An item that is no object is an \<open>unwrap\<close> on \<open>None\<close>; the digest is given in its hexadecimal form.\<close>

fun convert_item :: "string \<Rightarrow> string option \<Rightarrow> string list \<Rightarrow> string \<Rightarrow> json \<Rightarrow> json option" where
  "convert_item id_prop digest skip section_id (JObject m) =
     (let m1 = fold bm_remove skip m;
          m2 = bm_insert id_prop (JString section_id) m1;
          m3 = (case digest of Some v \<Rightarrow> bm_insert ''digest'' (JString v) m2 | None \<Rightarrow> m2)
      in Some (JObject m3))"
| "convert_item id_prop digest skip section_id _ = None"

definition convert_to_array ::
  "section_config_data \<Rightarrow> string \<Rightarrow> string option \<Rightarrow> string list \<Rightarrow> json option" where
  "convert_to_array d id_prop digest skip =
     map_option JArray
       (those (map (\<lambda>(section_id, _, v). convert_item id_prop digest skip section_id v) (sections d)))"

section \<open>The two syntaxes\<close>

fun value_text :: "text_env \<Rightarrow> json \<Rightarrow> string option" where
  "value_text tx (JBool b) = Some (if b then ''true'' else ''false'')"
| "value_text tx (JString s) = Some s"
| "value_text tx (JInt i) = Some (show_int i)"
| "value_text tx (JFloat f) = Some (show_f64 tx f)"
| "value_text tx _ = None"

definition default_format_section_header :: "string \<Rightarrow> string \<Rightarrow> json \<Rightarrow> (error, string) result" where
  "default_format_section_header tn section_id data = Inr (tn @ '': '' @ section_id @ [CHR 0x0A])"

fun format_content ::
  "(string \<Rightarrow> string \<Rightarrow> string) \<Rightarrow> text_env \<Rightarrow> string \<Rightarrow> json \<Rightarrow> (error, string) result" where
  "format_content line tx key (JArray items) =
     and_then (collect_results (map (format_content line tx key) items)) (\<lambda>ls. Inr (concat ls))"
| "format_content line tx key JNull = Inr []"
| "format_content line tx key v =
     (case value_text tx v of
        None \<Rightarrow> Inl (Msg ''got unsupported type in section'')
      | Some t \<Rightarrow>
          if has_control t then Inl (Msg ''detected unexpected control character in section'')
          else Inr (line key t))"

definition default_format_section_content ::
  "text_env \<Rightarrow> string \<Rightarrow> string \<Rightarrow> string \<Rightarrow> json \<Rightarrow> (error, string) result" where
  "default_format_section_content tx tn section_id key v =
     format_content (\<lambda>k t. CHR 0x09 # k @ '' '' @ t @ [CHR 0x0A]) tx key v"

definition default_parse_section_content :: "string \<Rightarrow> (string \<times> string) option" where
  "default_parse_section_content line =
     (if line = [] then None
      else if \<not> starts_with_whitespace line then None
      else
        (case splitn2_whitespace (trim_start line) of
           (k, v) \<Rightarrow>
             if trim k = [] then None
             else (case v of None \<Rightarrow> None | Some v \<Rightarrow> Some (trim k, trim v))))"

definition default_parse_section_header :: "text_env \<Rightarrow> string \<Rightarrow> (string \<times> string) option" where
  "default_parse_section_header tx line =
     (if line = [] then None
      else if \<not> starts_alphabetic tx line then None
      else
        (case splitn2 CHR '':'' line of
           (t, i) \<Rightarrow>
             if trim t = [] then None
             else (case i of None \<Rightarrow> None | Some i \<Rightarrow> Some (trim t, trim i))))"

definition systemd_format_section_header :: "string \<Rightarrow> string \<Rightarrow> json \<Rightarrow> (error, string) result" where
  "systemd_format_section_header tn section_id data =
     (if tn \<noteq> section_id then Inl (Msg ''gut unexpected section type'')
      else Inr (''['' @ section_id @ '']'' @ [CHR 0x0A]))"

definition systemd_format_section_content ::
  "text_env \<Rightarrow> string \<Rightarrow> string \<Rightarrow> string \<Rightarrow> json \<Rightarrow> (error, string) result" where
  "systemd_format_section_content tx tn section_id key v =
     format_content (\<lambda>k t. k @ ''='' @ t @ [CHR 0x0A]) tx key v"

definition systemd_parse_section_content :: "string \<Rightarrow> (string \<times> string) option" where
  "systemd_parse_section_content l =
     (let line = trim_end l in
      if line = [] then None
      else if starts_with_whitespace line then None
      else
        (case splitn2 CHR ''='' line of
           (k, None) \<Rightarrow> None
         | (k, Some v) \<Rightarrow> Some (trim_end k, trim_start v)))"

definition systemd_parse_section_header :: "string \<Rightarrow> (string \<times> string) option" where
  "systemd_parse_section_header l =
     (let line = trim_end l in
      if line = [] then None
      else if hd line \<noteq> CHR ''['' \<or> last line \<noteq> CHR '']'' then None
      else
        (let sect = trim (take (length line - 1 - 1) (drop 1 line)) in
         if sect = [] then None else Some (sect, sect)))"

record section_config =
  plugins :: "(string, section_config_plugin) hash_map"
  id_schema :: schema
  parse_section_header :: "string \<Rightarrow> (string \<times> string) option"
  parse_section_content :: "string \<Rightarrow> (string \<times> string) option"
  format_section_header :: "string \<Rightarrow> string \<Rightarrow> json \<Rightarrow> (error, string) result"
  format_section_content :: "string \<Rightarrow> string \<Rightarrow> string \<Rightarrow> json \<Rightarrow> (error, string) result"
  allow_unknown_sections :: bool
  type_key :: "string option"

definition section_config_new :: "text_env \<Rightarrow> schema \<Rightarrow> section_config" where
  "section_config_new tx ids =
     \<lparr>plugins = [], id_schema = ids,
      parse_section_header = default_parse_section_header tx,
      parse_section_content = default_parse_section_content,
      format_section_header = default_format_section_header,
      format_section_content = default_format_section_content tx,
      allow_unknown_sections = False, type_key = None\<rparr>"

definition with_systemd_syntax :: "text_env \<Rightarrow> schema \<Rightarrow> section_config" where
  "with_systemd_syntax tx ids =
     \<lparr>plugins = [], id_schema = ids,
      parse_section_header = systemd_parse_section_header,
      parse_section_content = systemd_parse_section_content,
      format_section_header = systemd_format_section_header,
      format_section_content = systemd_format_section_content tx,
      allow_unknown_sections = False, type_key = None\<rparr>"

definition register_plugin :: "section_config_plugin \<Rightarrow> section_config \<Rightarrow> section_config" where
  "register_plugin p c = c\<lparr>plugins := hm_insert (type_name p) p (plugins c)\<rparr>"

section \<open>Writing\<close>

definition write_order :: "section_config_data \<Rightarrow> string list" where
  "write_order config =
     (let listed = filter (hm_contains_key (sections config)) (order config)
      in listed @ filter (\<lambda>i. i \<notin> set listed) (map fst (sections config)))"

fun write_properties ::
  "section_config \<Rightarrow> string \<Rightarrow> string \<Rightarrow> (string \<Rightarrow> bool) \<Rightarrow> (string \<times> json) list \<Rightarrow> (error, string) result" where
  "write_properties c tn section_id skip [] = Inr []"
| "write_properties c tn section_id skip ((key, v) # rest) =
     (if skip key then write_properties c tn section_id skip rest
      else
        and_then (format_section_content c tn section_id key v)
          (\<lambda>l. and_then (write_properties c tn section_id skip rest) (\<lambda>ls. Inr (l @ ls))))"

definition write_body ::
  "section_config \<Rightarrow> string \<Rightarrow> string \<Rightarrow> (string \<Rightarrow> bool) \<Rightarrow> json \<Rightarrow> string \<Rightarrow> (error, string) result option" where
  "write_body c tn section_id skip v raw =
     (let raw1 = (if raw \<noteq> [] then raw @ [CHR 0x0A] else raw)
      in bind_result (Some (format_section_header c tn section_id v))
           (\<lambda>header.
              case v of
                JObject m \<Rightarrow>
                  Some (and_then (write_properties c tn section_id skip m) (\<lambda>ls. Inr (raw1 @ header @ ls)))
              | _ \<Rightarrow> None))"

definition write_section ::
  "text_env \<Rightarrow> section_config \<Rightarrow> string \<Rightarrow> string \<times> json \<Rightarrow> string \<Rightarrow> (error, string) result option" where
  "write_section tx c section_id tv raw =
     (case tv of (tn, v) \<Rightarrow>
        case hm_get (plugins c) tn of
          Some plugin \<Rightarrow>
            (let ids = (case get_id_schema plugin of Some s \<Rightarrow> s | None \<Rightarrow> id_schema c) in
             case parse_simple_value (t_schema tx) ids section_id of
               None \<Rightarrow> None
             | Some (Inl e) \<Rightarrow> Some (Inl e)
             | Some (Inr _) \<Rightarrow>
                 if has_control section_id
                 then Some (Inl (Msg ''detected unexpected control character in section ID.''))
                 else
                   (case verify_json (t_schema tx) (plugin_properties plugin) v of
                      Inl e \<Rightarrow> Some (Inl e)
                    | Inr _ \<Rightarrow>
                        write_body c tn section_id
                          (\<lambda>key. id_property plugin = Some key \<or> plugin_type_key plugin = Some key \<or>
                             (plugin_type_key plugin = None \<and> type_key c = Some key))
                          v raw))
        | None \<Rightarrow>
            if allow_unknown_sections c then
              if has_control section_id
              then Some (Inl (Msg ''detected unexpected control character in section ID.''))
              else write_body c tn section_id (\<lambda>_. False) v raw
            else Some (Inl (Msg (''unknown section type'' @ tn))))"

fun write_sections ::
  "text_env \<Rightarrow> section_config \<Rightarrow> section_config_data \<Rightarrow> string list \<Rightarrow> string \<Rightarrow> (error, string) result option" where
  "write_sections tx c config [] raw = Some (Inr raw)"
| "write_sections tx c config (i # rest) raw =
     (case hm_get (sections config) i of
        None \<Rightarrow> None
      | Some tv \<Rightarrow> bind_result (write_section tx c i tv raw) (write_sections tx c config rest))"

definition write_do :: "text_env \<Rightarrow> section_config \<Rightarrow> section_config_data \<Rightarrow> (error, string) result option" where
  "write_do tx c config = write_sections tx c config (write_order config) []"

section \<open>Parsing\<close>

text \<open>An error carries the number of the line it is reported for.\<close>

type_synonym line_error = "nat \<times> error"

record inside_section =
  ins_plugin :: section_config_plugin
  ins_section_id :: string
  header_data :: "(string \<times> json) list"
  ins_properties :: "(nat \<times> string \<times> string) list"

datatype parse_phase =
    BeforeHeader
  | InsideSection inside_section
  | InsideUnknownSection string string "(string \<times> json) list"

definition ADDITIONAL_PROPERTY_SCHEMA :: schema where
  "ADDITIONAL_PROPERTY_SCHEMA = StringSchema None None None False"

definition parse_section_property ::
  "schema_env \<Rightarrow> schema \<Rightarrow> with_type_field \<Rightarrow> string \<Rightarrow> string \<Rightarrow> (string \<times> json) list \<Rightarrow>
   (error, (string \<times> json) list) result option" where
  "parse_section_property env s type_data key v config =
     (case (case lookup_schema s key type_data of
              Some (_, ArraySchema items _ _) \<Rightarrow> Inr (True, items)
            | Some (_, prop_schema) \<Rightarrow> Inr (False, prop_schema)
            | None \<Rightarrow> if additional_properties s then Inr (False, ADDITIONAL_PROPERTY_SCHEMA)
                      else Inl (Msg (''unknown property '' @ key))) of
        Inl e \<Rightarrow> Some (Inl e)
      | Inr (is_array, prop_schema) \<Rightarrow>
          bind_result (parse_simple_value env prop_schema v)
            (\<lambda>x.
               if is_array then
                 (case param config key of
                    JNull \<Rightarrow> Some (Inr (bm_insert key (JArray [x]) config))
                  | JArray xs \<Rightarrow> Some (Inr (bm_insert key (JArray (xs @ [x])) config))
                  | _ \<Rightarrow> None)
               else if param config key = JNull then Some (Inr (bm_insert key x config))
               else Some (Inl (Msg (''duplicate property '' @ key)))))"

definition section_type_data :: "inside_section \<Rightarrow> with_type_field" where
  "section_type_data ins key =
     (case as_str (param (header_data ins) key) of
        Some s \<Rightarrow> Some s
      | None \<Rightarrow> map_option (snd \<circ> snd) (List.find (\<lambda>(_, name, _). name = key) (ins_properties ins)))"

fun parse_section_properties ::
  "schema_env \<Rightarrow> schema \<Rightarrow> with_type_field \<Rightarrow> (nat \<times> string \<times> string) list \<Rightarrow> (string \<times> json) list \<Rightarrow>
   (line_error, (string \<times> json) list) result option" where
  "parse_section_properties env s type_data [] config = Some (Inr config)"
| "parse_section_properties env s type_data ((line, key, v) # rest) config =
     (case parse_section_property env s type_data key v config of
        None \<Rightarrow> None
      | Some (Inl e) \<Rightarrow> Some (Inl (line, e))
      | Some (Inr config') \<Rightarrow> parse_section_properties env s type_data rest config')"

definition test_required_properties ::
  "(string \<times> json) list \<Rightarrow> schema \<Rightarrow> string option \<Rightarrow> (error, unit) result" where
  "test_required_properties m s idp =
     (case List.find (\<lambda>(name, opt, _). idp \<noteq> Some name \<and> \<not> opt \<and> param m name = JNull)
             (map fst (all_properties (Some (type_field m)) s)) of
        Some (name, _) \<Rightarrow> Inl (Msg (''property is missing and it is not optional: '' @ name))
      | None \<Rightarrow> Inr ())"

definition at_line :: "nat \<Rightarrow> (error, 'a) result option \<Rightarrow> (line_error, 'a) result option" where
  "at_line n r = map_option (map_sum (Pair n) id) r"

text \<open>The index of a value: the entries of an object, none of any other value.\<close>

definition obj_entries :: "json \<Rightarrow> (string \<times> json) list" where
  "obj_entries v = (case v of JObject m \<Rightarrow> m | _ \<Rightarrow> [])"

definition finish_section ::
  "schema_env \<Rightarrow> nat \<Rightarrow> inside_section \<Rightarrow> section_config_data \<Rightarrow> (line_error, section_config_data) result option" where
  "finish_section env line_no ins result =
     (let plugin = ins_plugin ins; s = plugin_properties plugin in
      bind_result (parse_section_properties env s (section_type_data ins) (ins_properties ins) (header_data ins))
        (\<lambda>config.
           at_line line_no
             (Some
               (and_then (canonicalize_aliases s (JObject config))
                 (\<lambda>v. let m = obj_entries v in
                    and_then (test_required_properties m s (id_property plugin))
                      (\<lambda>_. and_then (errors_result (verify_type_fields s (type_field m)) ())
                         (\<lambda>_.
                            let m' = (case id_property plugin of
                                        Some idp \<Rightarrow> bm_insert idp (JString (ins_section_id ins)) m
                                      | None \<Rightarrow> m)
                            in Inr (record_order (ins_section_id ins)
                                 (set_data (ins_section_id ins) (type_name plugin) (JObject m') result)))))))))"

definition parse_header_line ::
  "text_env \<Rightarrow> section_config \<Rightarrow> string \<Rightarrow> (error, parse_phase) result option" where
  "parse_header_line tx c line =
     (case parse_section_header c line of
        None \<Rightarrow> Some (Inl (Msg ''syntax error (expected header)''))
      | Some (section_type, section_id) \<Rightarrow>
          (let header = (\<lambda>k. case k of Some tk \<Rightarrow> [(tk, JString section_type)] | None \<Rightarrow> []) in
           case hm_get (plugins c) section_type of
             Some plugin \<Rightarrow>
               (let ids = (case get_id_schema plugin of Some s \<Rightarrow> s | None \<Rightarrow> id_schema c) in
                case parse_simple_value (t_schema tx) ids section_id of
                  None \<Rightarrow> None
                | Some (Inl e) \<Rightarrow> Some (Inl e)
                | Some (Inr _) \<Rightarrow>
                    Some (Inr (InsideSection
                      \<lparr>ins_plugin = plugin, ins_section_id = section_id,
                       header_data = header (case plugin_type_key plugin of Some k \<Rightarrow> Some k | None \<Rightarrow> type_key c),
                       ins_properties = []\<rparr>)))
           | None \<Rightarrow>
               if allow_unknown_sections c
               then Some (Inr (InsideUnknownSection section_type section_id (header (type_key c))))
               else Some (Inl (Msg (''unknown section type '' @ section_type)))))"

definition add_unknown_property ::
  "string \<Rightarrow> string \<Rightarrow> (string \<times> json) list \<Rightarrow> (error, (string \<times> json) list) result" where
  "add_unknown_property key v config =
     (case param config key of
        JNull \<Rightarrow> Inr (bm_insert key (JString v) config)
      | JString current \<Rightarrow> Inr (bm_insert key (JArray [JString current, JString v]) config)
      | JArray xs \<Rightarrow> Inr (bm_insert key (JArray (xs @ [JString v])) config)
      | other \<Rightarrow> Inl (Msg ''got unexpected Value''))"

definition finish_unknown ::
  "string \<Rightarrow> string \<Rightarrow> (string \<times> json) list \<Rightarrow> section_config_data \<Rightarrow> section_config_data" where
  "finish_unknown t i config result = record_order i (set_data i t (JObject config) result)"

fun parse_line ::
  "text_env \<Rightarrow> section_config \<Rightarrow> nat \<Rightarrow> string \<Rightarrow> parse_phase \<Rightarrow> section_config_data \<Rightarrow>
   (line_error, parse_phase \<times> section_config_data) result option" where
  "parse_line tx c n line BeforeHeader result =
     (if trim line = [] then Some (Inr (BeforeHeader, result))
      else bind_result (at_line n (parse_header_line tx c line)) (\<lambda>st. Some (Inr (st, result))))"
| "parse_line tx c n line (InsideSection ins) result =
     (if trim line = [] then
        bind_result (finish_section (t_schema tx) n ins result) (\<lambda>r. Some (Inr (BeforeHeader, r)))
      else
        (case parse_section_content c line of
           Some (k, v) \<Rightarrow>
             Some (Inr (InsideSection (ins\<lparr>ins_properties := ins_properties ins @ [(n, k, v)]\<rparr>), result))
         | None \<Rightarrow> Some (Inl (n, Msg ''syntax error (expected section properties)''))))"
| "parse_line tx c n line (InsideUnknownSection t i config) result =
     (if trim line = [] then Some (Inr (BeforeHeader, finish_unknown t i config result))
      else
        (case parse_section_content c line of
           Some (k, v) \<Rightarrow>
             bind_result (at_line n (Some (add_unknown_property k v config)))
               (\<lambda>config'. Some (Inr (InsideUnknownSection t i config', result)))
         | None \<Rightarrow> Some (Inl (n, Msg ''syntax error (expected section properties)''))))"

fun finish_parse ::
  "text_env \<Rightarrow> nat \<Rightarrow> parse_phase \<Rightarrow> section_config_data \<Rightarrow> (line_error, section_config_data) result option" where
  "finish_parse tx n BeforeHeader result = Some (Inr result)"
| "finish_parse tx n (InsideSection ins) result = finish_section (t_schema tx) n ins result"
| "finish_parse tx n (InsideUnknownSection t i config) result = Some (Inr (finish_unknown t i config result))"

fun parse_section_lines ::
  "text_env \<Rightarrow> section_config \<Rightarrow> nat \<Rightarrow> string list \<Rightarrow> parse_phase \<Rightarrow> section_config_data \<Rightarrow>
   (line_error, section_config_data) result option" where
  "parse_section_lines tx c n [] st result = finish_parse tx n st result"
| "parse_section_lines tx c n (l # ls) st result =
     bind_result (parse_line tx c (n + 1) l st result)
       (\<lambda>(st', result'). parse_section_lines tx c (n + 1) ls st' result')"

definition section_config_parse ::
  "text_env \<Rightarrow> section_config \<Rightarrow> string \<Rightarrow> (line_error, section_config_data) result option" where
  "section_config_parse tx c raw = parse_section_lines tx c 0 (lines raw) BeforeHeader section_config_data_new"

end
