(* ===== verification/Section_Props.thy ===== *)
theory Section_Props
  imports Section_Config
begin

text \<open>
  Section configuration files: lines that are written are read back, the recorded order of a parsed
  file covers exactly its sections, and a section given twice is accepted and written twice.
\<close>

section \<open>Lines\<close>

lemma find_prefix_append_plain:
  assumes "plain_byte c"
  shows "find_prefix white_space (c # s) = None"
  using assms white_space_ends by (intro find_prefix_plain) auto

lemma splitn2_whitespace_plain:
  "(\<And>c. c \<in> set k \<Longrightarrow> plain_byte c) \<Longrightarrow> splitn2_whitespace (k @ CHR '' '' # t) = (k, Some t)"
proof (induction k)
  case Nil
  have "find_prefix white_space (CHR '' '' # t) = Some '' ''"
    by (simp add: white_space_code find_prefix_def)
  then show ?case by simp
qed (simp add: find_prefix_append_plain)

lemma splitn2_no_sep: "c \<notin> set k \<Longrightarrow> splitn2 c (k @ c # t) = (k, Some t)"
  by (induction k) auto

text \<open>A text that trimming leaves as it is.\<close>

definition trimmed :: "string \<Rightarrow> bool" where
  "trimmed t = (trim t = t)"

definition plain_key :: "string \<Rightarrow> bool" where
  "plain_key k = (k \<noteq> [] \<and> list_all plain_byte k)"

lemma trim_start_tab: "plain_key k \<Longrightarrow> trim_start (CHR 0x09 # k @ s) = k @ s"
proof -
  assume k: "plain_key k"
  then obtain c k' where c: "k = c # k'" "plain_byte c" by (cases k) (auto simp: plain_key_def)
  have "find_prefix white_space (CHR 0x09 # k @ s) = Some [CHR 0x09]"
    by (simp add: white_space_code find_prefix_def)
  then show ?thesis
    by (simp add: trim_start_def strip_all.simps [of white_space "CHR 0x09 # k @ s"])
       (simp add: c strip_all_unchanged find_prefix_append_plain)
qed

lemma trim_plain_key: "plain_key k \<Longrightarrow> trim k = k"
  by (rule trim_plain_all) (auto simp: plain_key_def list_all_iff)

lemma white_space_no_plain: "w \<in> set white_space \<Longrightarrow> c \<in> set w \<Longrightarrow> \<not> plain_byte c"
proof -
  have "\<forall>w \<in> set white_space. \<forall>c \<in> set w. \<not> plain_byte c"
    by (simp add: white_space_def plain_byte_def)
  then show "w \<in> set white_space \<Longrightarrow> c \<in> set w \<Longrightarrow> \<not> plain_byte c" by blast
qed

lemma trimmed_ends:
  assumes "trimmed t"
  shows "trim_start t = t" and "trim_end t = t"
proof -
  obtain m where m: "trim_start t = drop m t" using strip_all_suffix unfolding trim_start_def by blast
  obtain n where n: "trim_end (drop m t) = rev (drop n (rev (drop m t)))"
    using strip_all_suffix [of "map rev white_space" "rev (drop m t)"] unfolding trim_end_def by metis
  have "length (rev (drop n (rev (drop m t)))) = length t"
    using assms by (simp only: trimmed_def trim_def m n)
  then have "length t - m - n = length t" by simp
  then have "length t = 0 \<or> m = 0" by arith
  then have "drop m t = t" by auto
  with m show "trim_start t = t" by simp
  with assms show "trim_end t = t" by (simp add: trimmed_def trim_def)
qed

lemma trim_end_append_plain:
  assumes "trim_end t = t" and "plain_byte c"
  shows "trim_end (u @ c # t) = u @ c # t"
proof -
  let ?ws = "map rev white_space"
  have ne: "w \<noteq> []" if "w \<in> set ?ws" for w using that white_space_ends by auto
  have "find_prefix ?ws (rev (u @ c # t)) = None"
    unfolding find_prefix_None_iff
  proof (intro ballI notI)
    fix w assume w: "w \<in> set ?ws" and eq: "take (length w) (rev (u @ c # t)) = w"
    show False
    proof (cases "length w \<le> length t")
      case True
      with eq have pre: "take (length w) (rev t) = w" by simp
      then obtain v where v: "find_prefix ?ws (rev t) = Some v"
        using w by (cases "find_prefix ?ws (rev t)") (auto simp: find_prefix_None_iff)
      then have "v \<in> set ?ws" unfolding find_prefix_def by (metis find_Some_iff nth_mem)
      then have "v \<noteq> []" by (rule ne)
      moreover have "t \<noteq> []" using ne [OF w] pre by auto
      ultimately have "strip_all ?ws (rev t) = strip_all ?ws (drop (length v) (rev t))"
        using v by (simp add: strip_all.simps [of ?ws "rev t"])
      moreover obtain n where "strip_all ?ws (drop (length v) (rev t)) = drop n (drop (length v) (rev t))"
        using strip_all_suffix by blast
      ultimately have "rev t = drop n (drop (length v) (rev t))"
        using assms(1) unfolding trim_end_def by (metis rev_rev_ident)
      then have "length (rev t) = length (drop n (drop (length v) (rev t)))" by (rule arg_cong)
      then have "length t = length t - (n + length v)" by simp
      then have "length t = 0 \<or> length v = 0" by arith
      with \<open>v \<noteq> []\<close> \<open>t \<noteq> []\<close> show False by simp
    next
      case False
      then obtain n where "length w - length t = Suc n" by (cases "length w - length t") auto
      then have "c \<in> set (take (length w) (rev (u @ c # t)))" by simp
      with eq w assms(2) white_space_no_plain show False by auto
    qed
  qed
  then show ?thesis by (simp add: trim_end_def strip_all_unchanged)
qed



section \<open>The recorded order\<close>

definition order_covers :: "section_config_data \<Rightarrow> bool" where
  "order_covers d = (hm_wf (sections d) \<and> set (order d) = fst ` set (sections d))"

lemma keys_hm_insert: "fst ` set (hm_insert k v m) = insert k (fst ` set m)"
proof -
  have "x \<in> fst ` set n \<longleftrightarrow> hm_get n x \<noteq> None" for x and n :: "('a, 'b) hash_map"
    by (simp add: hm_get_None_iff)
  then show ?thesis by (intro set_eqI) simp
qed

lemma order_covers_new [simp]: "order_covers section_config_data_new"
  by (simp add: order_covers_def section_config_data_new_def)

lemma order_covers_add: "order_covers d \<Longrightarrow> order_covers (record_order i (set_data i t v d))"
  by (auto simp: order_covers_def record_order_def set_data_def keys_hm_insert)

lemma bind_result_eq_Inr:
  "bind_result r f = Some (Inr y) \<longleftrightarrow> (\<exists>x. r = Some (Inr x) \<and> f x = Some (Inr y))"
  by (cases r; cases "the r") auto

lemma at_line_eq_Inr: "at_line n r = Some (Inr y) \<longleftrightarrow> r = Some (Inr y)"
  by (cases r; cases "the r") (auto simp: at_line_def)

lemma finish_section_covers:
  "finish_section env n ins d = Some (Inr d') \<Longrightarrow> order_covers d \<Longrightarrow> order_covers d'"
  by (auto simp: finish_section_def bind_result_eq_Inr at_line_eq_Inr and_then_eq_Inr Let_def order_covers_add)

lemma parse_line_covers:
  "parse_line tx c n l st d = Some (Inr (st', d')) \<Longrightarrow> order_covers d \<Longrightarrow> order_covers d'"
  by (cases st)
     (auto simp: bind_result_eq_Inr finish_unknown_def order_covers_add finish_section_covers
       split: if_splits option.splits)

lemma parse_section_lines_covers:
  "parse_section_lines tx c n ls st d = Some (Inr d') \<Longrightarrow> order_covers d \<Longrightarrow> order_covers d'"
proof (induction ls arbitrary: n st d)
  case Nil
  then show ?case
    by (cases st) (auto simp: finish_section_covers finish_unknown_def order_covers_add)
next
  case (Cons l ls)
  then show ?case by (auto simp: bind_result_eq_Inr parse_line_covers)
qed

text \<open>C19: After a successful parse the recorded order names exactly the sections that were read, so the
  writer puts out every section and nothing in the arbitrary order of the hash map.\<close>

theorem parsed_order_covers_sections:
  assumes "section_config_parse tx c raw = Some (Inr d)"
  shows "set (order d) = fst ` set (sections d) \<and> write_order d = order d"
proof -
  have cov: "order_covers d"
    using assms parse_section_lines_covers by (auto simp: section_config_parse_def)
  then have "filter (hm_contains_key (sections d)) (order d) = order d"
    by (auto simp: order_covers_def filter_id_conv hm_contains_key_def hm_get_None_iff)
  with cov show ?thesis by (auto simp: write_order_def Let_def order_covers_def filter_empty_conv)
qed

text \<open>A configuration with one section type whose id is a plain string and with one optional property.\<close>

definition demo_text_env :: text_env where
  "demo_text_env = \<lparr>t_schema = plain_env, show_f64 = (\<lambda>_. ''0''), uni_alphabetic = (\<lambda>_. False)\<rparr>"

definition demo_config :: section_config where
  "demo_config =
     register_plugin
       (section_config_plugin_new ''lvm'' (Some ''name'')
          (ObjectSchema [(''content'', True, StringSchema None None None False),
                         (''name'', False, StringSchema None None None False)] False None []))
       (section_config_new demo_text_env (StringSchema None None None False))"

definition demo_raw :: string where
  "demo_raw = ''lvm: a'' @ [CHR 0x0A, CHR 0x09] @ ''content x'' @ [CHR 0x0A]"

theorem parsed_order_covers_sections_witness:
  "\<exists>d. section_config_parse demo_text_env demo_config demo_raw = Some (Inr d) \<and>
       order d = [''a''] \<and> write_order d = order d"
proof -
  have p: "section_config_parse demo_text_env demo_config demo_raw =
      Some (Inr \<lparr>sections = [(''a'', (''lvm'', JObject [(''content'', JString ''x''), (''name'', JString ''a'')]))],
                order = [''a'']\<rparr>)"
    by code_simp
  show ?thesis using parsed_order_covers_sections [OF p] p by auto
qed

text \<open>A section id that occurs twice in a file is not reported: the second section replaces the data of
  the first, its id is recorded twice, and writing the configuration back puts the section out twice.\<close>

theorem duplicate_section_written_twice:
  "let raw = demo_raw @ [CHR 0x0A] @ ''lvm: a'' @ [CHR 0x0A, CHR 0x09] @ ''content y'' @ [CHR 0x0A];
       sect = ''lvm: a'' @ [CHR 0x0A, CHR 0x09] @ ''content y'' @ [CHR 0x0A]
   in case section_config_parse demo_text_env demo_config raw of
        Some (Inr d) \<Rightarrow>
          order d = [''a'', ''a''] \<and> length (sections d) = 1 \<and>
          write_do demo_text_env demo_config d = Some (Inr (sect @ [CHR 0x0A] @ sect))
      | _ \<Rightarrow> False"
  by code_simp

text \<open>A section of an unknown type does not survive being written and read again when the configuration has a
  type key: the writer puts the type key out as a property although the header already sets it, and the
  reader then collects both into an array.\<close>

theorem unknown_section_type_key_doubles:
  "let c = (section_config_new demo_text_env (StringSchema None None None False))
             \<lparr>allow_unknown_sections := True, type_key := Some ''type''\<rparr>;
       raw = ''foo: a'' @ [CHR 0x0A, CHR 0x09] @ ''k v'' @ [CHR 0x0A];
       typ = (\<lambda>d. map_option (\<lambda>(_, v). bm_get (obj_entries v) ''type'') (hm_get (sections d) ''a''))
   in case section_config_parse demo_text_env c raw of
        Some (Inr d) \<Rightarrow>
          typ d = Some (Some (JString ''foo'')) \<and>
          (case write_do demo_text_env c d of
             Some (Inr raw') \<Rightarrow>
               (case section_config_parse demo_text_env c raw' of
                  Some (Inr d') \<Rightarrow> typ d' = Some (Some (JArray [JString ''foo'', JString ''foo'']))
                | _ \<Rightarrow> False)
           | _ \<Rightarrow> False)
      | _ \<Rightarrow> False"
  by code_simp

end
