(* ===== verification/User_Info.thy ===== *)
theory User_Info
  imports Permission Section_Props
begin

text \<open>
  Users, API tokens and the cached user information of \<open>proxmox-access-control\<close> (\<open>types.rs\<close>,
  \<open>cached_user_info.rs\<close>): what the router sees of the access control through \<open>UserInformation\<close>. The serde
  deserialisation of the entries is a parameter (\<open>entry_serde\<close>), and so are the clock and the results of
  reading the two configuration files.
\<close>

unbundle bit_operations_syntax

section \<open>Users and tokens\<close>

record api_user =
  u_userid :: userid
  u_comment :: "string option"
  u_enable :: "bool option"
  u_expire :: "int option"
  u_firstname :: "string option"
  u_lastname :: "string option"
  u_email :: "string option"

record api_token =
  t_tokenid :: authid
  t_comment :: "string option"
  t_enable :: "bool option"
  t_expire :: "int option"

definition user_is_active :: "int \<Rightarrow> api_user \<Rightarrow> bool" where
  "user_is_active now u =
     (if \<not> (case u_enable u of None \<Rightarrow> True | Some b \<Rightarrow> b) then False
      else (case u_expire u of
              Some expire \<Rightarrow> \<not> (expire > 0 \<and> expire \<le> now)
            | None \<Rightarrow> True))"

definition token_is_active :: "int \<Rightarrow> api_token \<Rightarrow> bool" where
  "token_is_active now t =
     (if \<not> (case t_enable t of None \<Rightarrow> True | Some b \<Rightarrow> b) then False
      else (case t_expire t of
              Some expire \<Rightarrow> \<not> (expire > 0 \<and> expire \<le> now)
            | None \<Rightarrow> True))"

record entry_serde =
  de_user :: "json \<Rightarrow> (error, api_user) result"
  de_token :: "json \<Rightarrow> (error, api_token) result"
  ser_token :: "api_token \<Rightarrow> (error, json) result"

section \<open>Cached user information\<close>

record cached_user_info =
  user_cfg :: section_config_data
  acl_tree :: acl_node

record info_cache =
  ic_data :: "cached_user_info option"
  last_update :: int
  last_user_cache_generation :: nat

definition info_cache_new :: info_cache where
  "info_cache_new = \<lparr>ic_data = None, last_update = 0, last_user_cache_generation = 0\<rparr>"

text \<open>\<open>CachedUserInfo::new\<close> at the time \<open>now\<close>, with the cache generation the product reports and the results of
  the two cached configurations.\<close>

definition cached_user_info_new ::
  "int \<Rightarrow> nat option \<Rightarrow> (error, section_config_data) result \<Rightarrow> (error, acl_node) result \<Rightarrow> info_cache \<Rightarrow>
   info_cache \<times> (error, cached_user_info) result" where
  "cached_user_info_new now generation ucfg acl cache =
     (case (case generation of
              Some g \<Rightarrow>
                if g = last_user_cache_generation cache \<and> now - last_update cache < 5 then ic_data cache else None
            | None \<Rightarrow> None) of
        Some config \<Rightarrow> (cache, Inr config)
      | None \<Rightarrow>
          (case and_then ucfg (\<lambda>u. and_then acl (\<lambda>t. Inr \<lparr>user_cfg = u, acl_tree = t\<rparr>)) of
             Inl e \<Rightarrow> (cache, Inl e)
           | Inr config \<Rightarrow>
               (cache\<lparr>last_user_cache_generation :=
                         (case generation of Some g \<Rightarrow> g | None \<Rightarrow> last_user_cache_generation cache),
                      last_update := now, ic_data := Some config\<rparr>,
                Inr config)))"

definition is_active_user_id :: "entry_serde \<Rightarrow> int \<Rightarrow> cached_user_info \<Rightarrow> userid \<Rightarrow> bool" where
  "is_active_user_id serde now info u =
     (case lookup_typed (de_user serde) (user_cfg info) ''user'' (data u) of
        Inr entry \<Rightarrow> user_is_active now entry
      | Inl _ \<Rightarrow> False)"

definition is_active_auth_id :: "entry_serde \<Rightarrow> int \<Rightarrow> cached_user_info \<Rightarrow> authid \<Rightarrow> bool" where
  "is_active_auth_id serde now info a =
     (if \<not> is_active_user_id serde now info (user a) then False
      else if is_token a then
        (case lookup_typed (de_token serde) (user_cfg info) ''token'' (authid_display a) of
           Inr entry \<Rightarrow> token_is_active now entry
         | Inl _ \<Rightarrow> False)
      else True)"

definition info_check_privs ::
  "access_conf \<Rightarrow> cached_user_info \<Rightarrow> authid \<Rightarrow> string list \<Rightarrow> u64 \<Rightarrow> bool \<Rightarrow> (error, unit) result" where
  "info_check_privs conf info a path required part = check_privs conf (acl_tree info) a path required part"

text \<open>\<open>impl UserInformation for CachedUserInfo\<close>: ids that do not parse have no rights.\<close>

definition cached_user_information ::
  "schema_env \<Rightarrow> access_conf \<Rightarrow> cached_user_info \<Rightarrow> user_information" where
  "cached_user_information env conf info =
     \<lparr>ui_is_superuser = (\<lambda>s. case authid_from_str env s of Inr a \<Rightarrow> is_superuser conf a | Inl _ \<Rightarrow> False),
      ui_is_group_member = (\<lambda>s g. case userid_from_str env s of Inr u \<Rightarrow> is_group_member conf u g | Inl _ \<Rightarrow> False),
      ui_lookup_privs = (\<lambda>s path. case authid_from_str env s of
                           Inr a \<Rightarrow> lookup_privs conf (acl_tree info) a path
                         | Inl _ \<Rightarrow> 0)\<rparr>"

section \<open>Active ids\<close>

definition entry_active :: "bool option \<Rightarrow> int option \<Rightarrow> int \<Rightarrow> bool" where
  "entry_active enable expire now =
     (enable \<noteq> Some False \<and> (\<forall>e. expire = Some e \<longrightarrow> e \<le> 0 \<or> now < e))"

lemma user_is_active_iff: "user_is_active now u \<longleftrightarrow> entry_active (u_enable u) (u_expire u) now"
  by (auto simp: user_is_active_def entry_active_def split: option.splits)

lemma token_is_active_iff: "token_is_active now t \<longleftrightarrow> entry_active (t_enable t) (t_expire t) now"
  by (auto simp: token_is_active_def entry_active_def split: option.splits)


text \<open>One user that is disabled, with one token.\<close>

definition demo_serde :: entry_serde where
  "demo_serde =
     \<lparr>de_user = (\<lambda>_. Inr \<lparr>u_userid = userid_from_parts ''u'' ''pam'', u_comment = None, u_enable = Some True,
                  u_expire = Some 100, u_firstname = None, u_lastname = None, u_email = None\<rparr>),
      de_token = (\<lambda>_. Inr \<lparr>t_tokenid = \<lparr>user = userid_from_parts ''u'' ''pam'', tokenname = Some ''t''\<rparr>,
                  t_comment = None, t_enable = None, t_expire = Some 0\<rparr>),
      ser_token = (\<lambda>_. Inr (JObject []))\<rparr>"

definition demo_users :: section_config_data where
  "demo_users = \<lparr>sections = [(''u@pam'', (''user'', JObject [])), (''u@pam!t'', (''token'', JObject []))],
                 order = [''u@pam'', ''u@pam!t'']\<rparr>"


section \<open>Staleness\<close>

record info_call =
  call_now :: int
  call_generation :: nat
  call_users :: "(error, section_config_data) result"
  call_acl :: "(error, acl_node) result"

definition call_fresh :: "info_call \<Rightarrow> (error, cached_user_info) result" where
  "call_fresh c = and_then (call_users c) (\<lambda>u. and_then (call_acl c) (\<lambda>t. Inr \<lparr>user_cfg = u, acl_tree = t\<rparr>))"

fun info_calls :: "info_cache \<Rightarrow> info_call list \<Rightarrow> (error, cached_user_info) result list" where
  "info_calls cache [] = []"
| "info_calls cache (c # cs) =
     (let (cache', r) = cached_user_info_new (call_now c) (Some (call_generation c)) (call_users c) (call_acl c) cache
      in r # info_calls cache' cs)"

text \<open>The data comes from a call that is at most five seconds back and saw the same generation.\<close>

definition recent :: "info_call list \<Rightarrow> info_call \<Rightarrow> cached_user_info \<Rightarrow> bool" where
  "recent seen c x =
     (\<exists>c' \<in> set seen. call_fresh c' = Inr x \<and> call_generation c' = call_generation c \<and> call_now c - call_now c' < 5)"

definition cache_from :: "info_call list \<Rightarrow> info_cache \<Rightarrow> bool" where
  "cache_from seen cache =
     (\<forall>x. ic_data cache = Some x \<longrightarrow>
        (\<exists>c' \<in> set seen. call_fresh c' = Inr x \<and> call_generation c' = last_user_cache_generation cache \<and>
           call_now c' = last_update cache))"

lemma cached_user_info_step:
  assumes "cache_from seen cache"
    and "cached_user_info_new (call_now c) (Some (call_generation c)) (call_users c) (call_acl c) cache = (cache', r)"
  shows "cache_from (seen @ [c]) cache' \<and> (\<forall>x. r = Inr x \<longrightarrow> call_fresh c = Inr x \<or> recent seen c x)"
proof (cases "call_generation c = last_user_cache_generation cache \<and> call_now c - last_update cache < 5 \<and> ic_data cache \<noteq> None")
  case True
  then obtain x where "ic_data cache = Some x" by blast
  with True assms(2) have "cache' = cache" "r = Inr x" by (simp_all add: cached_user_info_new_def)
  with assms(1) True \<open>ic_data cache = Some x\<close> show ?thesis by (auto simp: cache_from_def recent_def)
next
  case False
  then have "cached_user_info_new (call_now c) (Some (call_generation c)) (call_users c) (call_acl c) cache =
      (case call_fresh c of
         Inl e \<Rightarrow> (cache, Inl e)
       | Inr config \<Rightarrow>
           (cache\<lparr>last_user_cache_generation := call_generation c, last_update := call_now c, ic_data := Some config\<rparr>,
            Inr config))"
    by (auto simp: cached_user_info_new_def call_fresh_def split: sum.split)
  with assms show ?thesis by (cases "call_fresh c") (auto simp: cache_from_def)
qed

lemma info_calls_recent:
  "cache_from seen cache \<Longrightarrow> i < length cs \<Longrightarrow> info_calls cache cs ! i = Inr x \<Longrightarrow>
     call_fresh (cs ! i) = Inr x \<or> recent (seen @ take i cs) (cs ! i) x"
proof (induction cs arbitrary: seen cache i)
  case (Cons c cs)
  obtain cache' r where st: "cached_user_info_new (call_now c) (Some (call_generation c)) (call_users c) (call_acl c) cache = (cache', r)"
    by fastforce
  note step = cached_user_info_step [OF Cons.prems(1) st]
  show ?case
  proof (cases i)
    case 0
    with Cons.prems(3) st step show ?thesis by simp
  next
    case (Suc j)
    with Cons.prems(2,3) st Cons.IH [of "seen @ [c]" cache' j] step show ?thesis by simp
  qed
qed simp

text \<open>C13: In any sequence of calls of \<open>CachedUserInfo::new\<close> with a product that reports a cache generation, the
  data returned is either read in that call or was read in an earlier call of the same generation less than
  five seconds before.\<close>

theorem cached_user_info_bounded_staleness:
  assumes "i < length cs" and "info_calls info_cache_new cs ! i = Inr x"
  shows "call_fresh (cs ! i) = Inr x \<or> recent (take i cs) (cs ! i) x"
  using info_calls_recent [of "[]" info_cache_new i cs x] assms
  by (simp add: cache_from_def info_cache_new_def)

definition demo_call :: "int \<Rightarrow> nat \<Rightarrow> acl_node \<Rightarrow> info_call" where
  "demo_call now g t =
     \<lparr>call_now = now, call_generation = g, call_users = Inr section_config_data_new, call_acl = Inr t\<rparr>"

theorem cached_user_info_bounded_staleness_witness:
  "let t = AclTreeNode [] [(''g'', [])] [];
       x = \<lparr>user_cfg = section_config_data_new, acl_tree = acl_node_new\<rparr>
   in info_calls info_cache_new [demo_call 10 1 acl_node_new, demo_call 12 1 t] ! 1 = Inr x \<and>
      call_fresh (demo_call 12 1 t) \<noteq> Inr x \<and> recent [demo_call 10 1 acl_node_new] (demo_call 12 1 t) x"
proof -
  let ?t = "AclTreeNode [] [(''g'', [])] []"
  let ?x = "\<lparr>user_cfg = section_config_data_new, acl_tree = acl_node_new\<rparr>"
  let ?cs = "[demo_call 10 1 acl_node_new, demo_call 12 1 ?t]"
  have r: "info_calls info_cache_new ?cs ! 1 = Inr ?x" by code_simp
  have "call_fresh (demo_call 12 1 ?t) \<noteq> Inr ?x" by code_simp
  with cached_user_info_bounded_staleness [of 1 ?cs ?x] r show ?thesis by (simp add: Let_def)
qed

section \<open>Tokens and their owners\<close>

text \<open>What the permission check relies on: an id with an owner has no privilege its owner lacks.\<close>

locale owned_principals =
  fixes privs :: "'i \<Rightarrow> string list \<Rightarrow> u64"
    and owner :: "'i \<Rightarrow> 'i option"
    and superuser :: "'i \<Rightarrow> bool"
  assumes owner_limits: "owner a = Some o' \<Longrightarrow> \<not> superuser a \<Longrightarrow> privs a path AND privs o' path = privs a path"
begin

lemma owner_passes:
  "owner a = Some o' \<Longrightarrow> \<not> superuser a \<Longrightarrow> check_privilege (privs a path) expected part \<Longrightarrow>
     check_privilege (privs o' path) expected part"
  using owner_limits check_privilege_mono by blast

end

definition token_owner :: "authid \<Rightarrow> authid option" where
  "token_owner a = (if is_token a then Some (authid_of_user (user a)) else None)"

lemma token_privs_limited:
  assumes "is_token a" and "\<not> is_superuser conf a"
  shows "lookup_privs conf t a path AND lookup_privs conf t (authid_of_user (user a)) path = lookup_privs conf t a path"
  using assms by (simp add: lookup_privs_def lookup_privs_details_token Let_def and.assoc)

interpretation acl: owned_principals "lookup_privs conf tree" token_owner "is_superuser conf" for conf tree
  by unfold_locales (auto simp: token_owner_def token_privs_limited split: if_splits)

text \<open>Permissions that ask the caller for privileges only.\<close>

fun privilege_permission :: "permission \<Rightarrow> bool" where
  "privilege_permission World = True"
| "privilege_permission Anybody = True"
| "privilege_permission (Privilege _ _ _) = True"
| "privilege_permission (And list) = list_all privilege_permission list"
| "privilege_permission (Or list) = list_all privilege_permission list"
| "privilege_permission _ = False"

lemma tail_owner:
  assumes "safe_id_spec env" and a: "authid_from_str env s = Inr a" and "is_token a" and "\<not> is_superuser conf a"
  shows "privilege_permission perm \<Longrightarrow>
    check_api_permission_tail perm (Some s) prm (cached_user_information env conf info) \<Longrightarrow>
    check_api_permission_tail perm (Some (data (user a))) prm (cached_user_information env conf info)"
proof (induction perm)
  case (Privilege path expected part)
  have "authid_wf env (authid_of_user (user a))"
    using authid_from_str_display [OF a] by (simp add: authid_wf_def authid_of_user_def)
  from authid_display_from_str [OF assms(1) this]
  have o': "authid_from_str env (data (user a)) = Inr (authid_of_user (user a))"
    by (simp add: authid_display_def authid_of_user_def)
  have "token_owner a = Some (authid_of_user (user a))" using assms(3) by (simp add: token_owner_def)
  from acl.owner_passes [OF this assms(4)] Privilege.prems(2) show ?case
    by (auto simp: cached_user_information_def a o' split: option.splits)
qed (auto simp: list_all_iff list_ex_iff)

text \<open>C3: A request made with an API token that is not itself a superuser passes a permission built from
  privileges, \<open>Anybody\<close> and \<open>World\<close> only if the same request of the user who owns the token passes too.\<close>

theorem token_request_needs_owner:
  assumes "safe_id_spec env" and "authid_from_str env s = Inr a" and "is_token a" and "\<not> is_superuser conf a"
    and "privilege_permission perm"
    and "check_api_permission perm (Some s) prm (cached_user_information env conf info)"
  shows "check_api_permission perm (Some (data (user a))) prm (cached_user_information env conf info)"
proof -
  have "\<not> ui_is_superuser (cached_user_information env conf info) s"
    using assms(2,4) by (simp add: cached_user_information_def)
  with assms(6) have "check_api_permission_tail perm (Some s) prm (cached_user_information env conf info)"
    by (simp add: check_api_permission.simps)
  with tail_owner [OF assms(1-5)] show ?thesis by (simp add: check_api_permission.simps)
qed

theorem token_request_needs_owner_witness:
  "let t = insert_user_role test_acm_config
             (insert_user_role test_acm_config acl_node_new ''/store'' user1 ''Admin'' True)
             ''/store'' (user1\<lparr>tokenname := Some ''t''\<rparr>) ''DatastoreReader'' True;
       info = cached_user_information id_env test_acm_config \<lparr>user_cfg = section_config_data_new, acl_tree = t\<rparr>;
       perm = Privilege [''store'', ''{name}''] 8 False
   in check_api_permission perm (Some ''user1@pbs!t'') [(''name'', ''a'')] info \<and>
      check_api_permission perm (Some ''user1@pbs'') [(''name'', ''a'')] info"
proof -
  let ?a = "user1\<lparr>tokenname := Some ''t''\<rparr>"
  let ?t = "insert_user_role test_acm_config
             (insert_user_role test_acm_config acl_node_new ''/store'' user1 ''Admin'' True)
             ''/store'' ?a ''DatastoreReader'' True"
  let ?ui = "cached_user_information id_env test_acm_config \<lparr>user_cfg = section_config_data_new, acl_tree = ?t\<rparr>"
  let ?perm = "Privilege [''store'', ''{name}''] 8 False"
  have c: "check_api_permission ?perm (Some ''user1@pbs!t'') [(''name'', ''a'')] ?ui" by code_simp
  have p: "authid_from_str id_env ''user1@pbs!t'' = Inr ?a" by code_simp
  have d: "data (user ?a) = ''user1@pbs''" by code_simp
  have t: "is_token ?a" "\<not> is_superuser test_acm_config ?a" "privilege_permission ?perm"
    by (simp_all add: is_token_def test_acm_config_def)
  show ?thesis using token_request_needs_owner [OF id_env_spec p t c] c unfolding d Let_def by blast
qed

end
