(* ===== verification/Acl_Api.thy ===== *)
theory Acl_Api
  imports User_Info
begin

text \<open>
  The API methods on the ACL (\<open>proxmox-access-control/src/api/acl.rs\<close>): listing the entries a caller may see
  and changing entries. The surroundings of a call, the caches, the lock and the file, are the record
  \<open>acl_io\<close>; a successful update returns the text it writes. A panic of the source is \<open>None\<close>.
\<close>

unbundle bit_operations_syntax

section \<open>Reading\<close>

datatype acl_ugid_type = UgidUser | UgidGroup

record acl_list_item =
  item_path :: string
  ugid :: string
  ugid_type :: acl_ugid_type
  item_propagate :: bool
  roleid :: string

definition acl_item :: "string \<Rightarrow> acl_ugid_type \<Rightarrow> string \<Rightarrow> string \<times> bool \<Rightarrow> acl_list_item" where
  "acl_item path ty name rp =
     \<lparr>item_path = (if path = [] then ''/'' else path), ugid = name, ugid_type = ty,
      item_propagate = snd rp, roleid = fst rp\<rparr>"

definition node_items ::
  "access_conf \<Rightarrow> bool \<Rightarrow> authid option \<Rightarrow> string \<Rightarrow> acl_node \<Rightarrow> acl_list_item list" where
  "node_items conf all_for_authid auth_filter path node =
     (if all_for_authid then
        (case auth_filter of
           Some a \<Rightarrow> map (acl_item path UgidUser (authid_display a)) (extract_roles conf node a True)
         | None \<Rightarrow> [])
      else
        concat (map (\<lambda>(u, rs).
            if (case auth_filter of Some f \<Rightarrow> \<not> is_token u \<or> user u \<noteq> user f | None \<Rightarrow> False) then []
            else map (acl_item path UgidUser (authid_display u)) rs) (users node)) @
        (if auth_filter \<noteq> None then []
         else concat (map (\<lambda>(g, rs). map (acl_item path UgidGroup g) rs) (groups node))))"

fun node_count :: "acl_node \<Rightarrow> nat" where
  "node_count (AclTreeNode us gs ch) = Suc (sum_list (map (\<lambda>(_, n). node_count n) ch))"

text \<open>The work list is a stack; its head is the end of the vector.\<close>

function acl_items_loop ::
  "access_conf \<Rightarrow> bool \<Rightarrow> bool \<Rightarrow> authid option \<Rightarrow> (string \<times> acl_node) list \<Rightarrow> acl_list_item list" where
  "acl_items_loop conf all_for_authid exact auth_filter [] = []"
| "acl_items_loop conf all_for_authid exact auth_filter ((path, node) # nodes) =
     node_items conf all_for_authid auth_filter path node @
     acl_items_loop conf all_for_authid exact auth_filter
       (if exact then nodes
        else rev (map (\<lambda>(c, child). (path @ ''/'' @ c, child)) (children node)) @ nodes)"
  by pat_completeness auto
termination
proof (relation "measure (\<lambda>(_, _, _, _, nodes). sum_list (map (\<lambda>(_, n). node_count n) nodes))", simp)
  fix conf all_for_authid exact auth_filter path node nodes
  show "((conf, all_for_authid, exact, auth_filter,
          if exact then nodes else rev (map (\<lambda>(c, child). (path @ ''/'' @ c, child)) (children node)) @ nodes),
         conf, all_for_authid, exact, auth_filter, (path, node) # nodes)
        \<in> measure (\<lambda>(_, _, _, _, nodes). sum_list (map (\<lambda>(_, n). node_count n) nodes))"
    by (cases node) (auto simp: rev_map [symmetric] comp_def case_prod_unfold sum_list_rev)
qed

definition extract_acl_node_data ::
  "access_conf \<Rightarrow> acl_node \<Rightarrow> string option \<Rightarrow> bool \<Rightarrow> bool \<Rightarrow> authid option \<Rightarrow> acl_list_item list" where
  "extract_acl_node_data conf node path all_for_authid exact auth_filter =
     (if \<not> all_for_authid \<and> (case auth_filter of Some f \<Rightarrow> is_token f | None \<Rightarrow> False) then []
      else acl_items_loop conf all_for_authid exact auth_filter
             [(case path of Some p \<Rightarrow> p | None \<Rightarrow> [], node)])"

record acl_io =
  io_auth_id :: "string option"
  io_info :: "(error, cached_user_info) result"
  io_users :: "(error, section_config_data) result"
  io_lock :: "(error, unit) result"
  io_read :: read_result
  io_digest :: "string \<Rightarrow> string"
  io_replace :: "string \<Rightarrow> (error, unit) result"

definition acl_path :: "string list" where
  "acl_path = [''access'', ''acl'']"

definition read_acl ::
  "schema_env \<Rightarrow> access_conf \<Rightarrow> acl_io \<Rightarrow> string option \<Rightarrow> bool \<Rightarrow> bool \<Rightarrow> (error, acl_list_item list) result" where
  "read_acl env conf io path exact all_for_authid =
     and_then (and_then (ok_or (Msg ''endpoint called without an auth id'') (io_auth_id io)) (authid_from_str env))
       (\<lambda>a. and_then (io_info io)
         (\<lambda>info.
            let filter_entries = \<not> is_ok (info_check_privs conf info a acl_path (acl_audit_privileges conf)
                                             (allow_partial_permission_match conf));
                auth_filter = (if filter_entries \<or> all_for_authid then Some a else None)
            in and_then (load env conf (io_digest io) (io_read io))
                 (\<lambda>(tree, _).
                    case (case path of Some p \<Rightarrow> find_node tree p | None \<Rightarrow> Some tree) of
                      None \<Rightarrow> Inr []
                    | Some node \<Rightarrow> Inr (extract_acl_node_data conf node path all_for_authid exact auth_filter))))"

section \<open>Updating\<close>

definition detect_modification :: "string \<Rightarrow> string option \<Rightarrow> (error, unit) result" where
  "detect_modification d user_digest =
     (case user_digest of
        Some u \<Rightarrow> if u \<noteq> d then Inl (Msg ''detected modified configuration - file changed by other user? Try again.'')
                  else Inr ()
      | None \<Rightarrow> Inr ())"

text \<open>The checks for a caller without the privilege to modify ACLs.\<close>

definition unprivileged_check :: "authid \<Rightarrow> authid option \<Rightarrow> string option \<Rightarrow> (error, unit) result" where
  "unprivileged_check current auth_id grp =
     (if grp = None \<and> \<not> is_token current \<and>
         (case auth_id of Some i \<Rightarrow> is_token i \<and> user current = user i | None \<Rightarrow> False)
      then Inr ()
      else if grp \<noteq> None then Inl (Msg ''Unprivileged users are not allowed to create group ACL item.'')
      else
        (case auth_id of
           None \<Rightarrow> Inl (Msg ''Unprivileged user needs to provide auth_id to update ACL item.'')
         | Some i \<Rightarrow>
             if is_token current then Inl (Msg ''Unprivileged API tokens can not set ACL items.'')
             else if \<not> is_token i then Inl (Msg ''Unprivileged users can only set ACL items for API tokens.'')
             else if user current \<noteq> user i
             then Inl (Msg ''Unprivileged users can only set ACL items for their own API tokens.'')
             else Inl (Msg ''Unprivileged user is trying to set an invalid ACL item.'')))"

definition check_target :: "acl_io \<Rightarrow> authid option \<Rightarrow> string option \<Rightarrow> bool \<Rightarrow> (error, unit) result" where
  "check_target io auth_id grp del =
     (case auth_id of
        Some a \<Rightarrow>
          if del then Inr ()
          else
            and_then (io_users io)
              (\<lambda>ucfg. if hm_contains_key (sections ucfg) (authid_display a) then Inr ()
                      else if is_token a then Inl (Msg ''no such API token'')
                      else Inl (Msg ''no such user.''))
      | None \<Rightarrow>
          if grp \<noteq> None then Inl (Msg ''parameter group - groups are currently not supported'')
          else Inl (Msg ''missing userid parameter''))"

definition apply_update ::
  "access_conf \<Rightarrow> string \<Rightarrow> string \<Rightarrow> bool \<Rightarrow> authid option \<Rightarrow> string option \<Rightarrow> bool \<Rightarrow> acl_node \<Rightarrow> acl_node" where
  "apply_update conf path role propagate auth_id grp del tree =
     (case auth_id of
        Some a \<Rightarrow> if del then delete_user_role tree path a role else insert_user_role conf tree path a role propagate
      | None \<Rightarrow>
          (case grp of
             Some g \<Rightarrow> if del then delete_group_role tree path g role
                       else insert_group_role conf tree path g role propagate
           | None \<Rightarrow> tree))"

text \<open>The part of the update under the lock.\<close>

definition write_update ::
  "schema_env \<Rightarrow> access_conf \<Rightarrow> acl_io \<Rightarrow> (acl_node \<Rightarrow> acl_node) \<Rightarrow> string option \<Rightarrow> (error, string) result" where
  "write_update env conf io change digest =
     and_then (io_lock io)
       (\<lambda>_. and_then (load env conf (io_digest io) (io_read io))
          (\<lambda>(tree, expected). and_then (detect_modification expected digest)
             (\<lambda>_. let raw = write_config conf (change tree) in and_then (io_replace io raw) (\<lambda>_. Inr raw))))"

definition update_acl ::
  "schema_env \<Rightarrow> access_conf \<Rightarrow> acl_io \<Rightarrow> string \<Rightarrow> string \<Rightarrow> bool option \<Rightarrow> authid option \<Rightarrow> string option \<Rightarrow>
   bool \<Rightarrow> string option \<Rightarrow> (error, string) result option" where
  "update_acl env conf io path role propagate auth_id grp del digest =
     (if \<not> hm_contains_key (conf_roles conf) role
      then Some (Inl (Msg ''Role does not exist, please make sure to specify a valid role!''))
      else
        (case io_auth_id io of
           None \<Rightarrow> None
         | Some s \<Rightarrow>
             Some
               (and_then (authid_from_str env s)
                 (\<lambda>current. and_then (io_info io)
                   (\<lambda>info. and_then
                     (if is_ok (info_check_privs conf info current acl_path (acl_modify_privileges conf)
                                  (allow_partial_permission_match conf))
                      then Inr () else unprivileged_check current auth_id grp)
                     (\<lambda>_. and_then (check_target io auth_id grp del)
                       (\<lambda>_. and_then
                         (if del then Inr () else (case check_acl_path conf path of None \<Rightarrow> Inr () | Some e \<Rightarrow> Inl e))
                         (\<lambda>_. write_update env conf io
                            (apply_update conf path role (case propagate of Some b \<Rightarrow> b | None \<Rightarrow> True) auth_id grp del)
                            digest))))))))"

section \<open>Roles\<close>

record role_info =
  ri_roleid :: string
  ri_privs :: "string list"
  ri_comment :: "string option"

definition list_roles :: "access_conf \<Rightarrow> role_info list" where
  "list_roles conf =
     map (\<lambda>(role, privs, comment).
        \<lparr>ri_roleid = role, ri_privs = map fst (filter (\<lambda>(_, p). privs AND p > 0) (privileges conf)),
         ri_comment = Some comment\<rparr>) (conf_roles conf)"

section \<open>Who sees and changes what\<close>

text \<open>Every item of the listing comes from a node at or below the starting node.\<close>

lemma acl_items_loop_set:
  "it \<in> set (acl_items_loop conf afa exact flt nodes) \<Longrightarrow>
     \<exists>path n. it \<in> set (node_items conf afa flt path n)"
  by (induction conf afa exact flt nodes rule: acl_items_loop.induct) auto

lemma acl_items_loop_complete:
  "(p, n) \<in> set nodes \<Longrightarrow> node_at n cs = Some m \<Longrightarrow> it \<in> set (node_items conf afa flt (p @ concat (map (\<lambda>c. CHR ''/'' # c) cs)) m) \<Longrightarrow>
     it \<in> set (acl_items_loop conf afa False flt nodes)"
proof (induction conf afa False flt nodes arbitrary: p n cs rule: acl_items_loop.induct)
  case (2 conf afa flt path node nodes)
  show ?case
  proof (cases "(p, n) = (path, node)")
    case False
    with 2 show ?thesis by auto
  next
    case here: True
    show ?thesis
    proof (cases cs)
      case Nil
      with 2 here show ?thesis by auto
    next
      case (Cons c cs')
      with "2.prems"(2) here obtain n' where n': "bm_get (children node) c = Some n'" "node_at n' cs' = Some m"
        by (auto split: option.splits)
      then have "(path @ ''/'' @ c, n') \<in>
          set (rev (map (\<lambda>(c, child). (path @ ''/'' @ c, child)) (children node)) @ nodes)"
        by (force dest: bm_get_SomeD)
      from "2.hyps" [of "path @ ''/'' @ c" n' cs'] this n'(2) "2.prems"(3) here Cons show ?thesis by simp
    qed
  qed
qed simp

text \<open>C5: A caller without the audit privilege on \<open>/access/acl\<close> is shown nothing but entries of API tokens of the
  same user, or, when asking for the entries of the own id only, entries of that id.\<close>

theorem unprivileged_read_own_only:
  assumes "read_acl env conf io path exact afa = Inr items" and "it \<in> set items"
    and "io_auth_id io = Some s" and "authid_from_str env s = Inr a" and "io_info io = Inr info"
    and "\<not> is_ok (info_check_privs conf info a acl_path (acl_audit_privileges conf) (allow_partial_permission_match conf))"
  shows "ugid_type it = UgidUser \<and>
    (if afa then ugid it = authid_display a
     else \<exists>t. is_token t \<and> user t = user a \<and> ugid it = authid_display t)"
proof -
  from assms obtain n where "it \<in> set (extract_acl_node_data conf n path afa exact (Some a))"
    by (auto simp: read_acl_def and_then_eq_Inr Let_def split: option.splits)
  then obtain p m where "it \<in> set (node_items conf afa (Some a) p m)"
    using acl_items_loop_set by (fastforce simp: extract_acl_node_data_def split: if_splits)
  then show ?thesis
    by (auto simp: node_items_def acl_item_def split: if_splits)
qed

text \<open>C9: A caller with the audit privilege sees every entry at or below the requested path.\<close>

theorem privileged_read_complete:
  assumes "acl_entry tree (split_acl_path p @ cs) u r = Some b" and "find_node tree p = Some node"
  shows "acl_item (p @ concat (map (\<lambda>c. CHR ''/'' # c) cs)) UgidUser (authid_display u) (r, b) \<in>
         set (extract_acl_node_data conf node (Some p) False False None)"
proof -
  have node: "node_at tree (split_acl_path p) = Some node"
    using assms(2) by (simp add: find_node_def get_node_def)
  then obtain m rs where m: "node_at node cs = Some m" and rs: "hm_get (users m) u = Some rs" "hm_get rs r = Some b"
    using assms(1) by (auto simp: acl_entry_def node_view_def node_at_append Option.bind_eq_Some_conv split: option.splits)
  have "acl_item (p @ concat (map (\<lambda>c. CHR ''/'' # c) cs)) UgidUser (authid_display u) (r, b) \<in>
      set (node_items conf False None (p @ concat (map (\<lambda>c. CHR ''/'' # c) cs)) m)"
    using hm_get_SomeD [OF rs(1)] hm_get_SomeD [OF rs(2)] by (force simp: node_items_def)
  from acl_items_loop_complete [OF _ m this, of "[(p, node)]"] show ?thesis
    by (simp add: extract_acl_node_data_def)
qed

text \<open>Listing with the path \<open>/\<close> reports the entries below the root under paths with two leading slashes,
  unlike listing without a path.\<close>

theorem read_acl_root_path_doubles_slash:
  "let t = insert_user_role test_acm_config acl_node_new ''/store'' user1 ''Admin'' True;
       paths = (\<lambda>p. map item_path (extract_acl_node_data test_acm_config t p False False None))
   in find_node t ''/'' = Some t \<and> paths (Some ''/'') = [''//store''] \<and> paths None = [''/store'']"
  by code_simp

lemma apply_update_user:
  "x \<noteq> a \<Longrightarrow> acl_entry (apply_update conf path role b (Some a) grp del t) q x r = acl_entry t q x r"
  "acl_group_entry (apply_update conf path role b (Some a) grp del t) q g r = acl_group_entry t q g r"
  by (auto simp: apply_update_def acl_entry_def acl_group_entry_def node_view_insert_user_role
      node_view_delete_user_role Let_def)

lemma unprivileged_check_ok:
  "unprivileged_check current auth_id grp = Inr () \<longleftrightarrow>
     grp = None \<and> \<not> is_token current \<and> (\<exists>t. auth_id = Some t \<and> is_token t \<and> user t = user current)"
  by (auto simp: unprivileged_check_def split: option.splits if_splits)

text \<open>C4: A caller without the privilege to modify ACLs can change nothing but the entries of API tokens of the
  same user, and only when calling as the user and not with a token: the tree that is written differs from
  the one read at most in entries of one such token, and no group entry changes.\<close>

theorem unprivileged_update_own_tokens_only:
  assumes "update_acl env conf io path role propagate auth_id grp del digest = Some (Inr raw)"
    and "io_auth_id io = Some s" and "authid_from_str env s = Inr current" and "io_info io = Inr info"
    and "\<not> is_ok (info_check_privs conf info current acl_path (acl_modify_privileges conf) (allow_partial_permission_match conf))"
  shows "\<not> is_token current \<and>
    (\<exists>tree d tree' t. load env conf (io_digest io) (io_read io) = Inr (tree, d) \<and>
       raw = write_config conf tree' \<and> is_token t \<and> user t = user current \<and>
       (\<forall>q x r. x \<noteq> t \<longrightarrow> acl_entry tree' q x r = acl_entry tree q x r) \<and>
       (\<forall>q g r. acl_group_entry tree' q g r = acl_group_entry tree q g r))"
proof -
  let ?change = "apply_update conf path role (case propagate of Some b \<Rightarrow> b | None \<Rightarrow> True) auth_id grp del"
  from assms have c: "unprivileged_check current auth_id grp = Inr ()"
    and w: "write_update env conf io ?change digest = Inr raw"
    by (auto simp: update_acl_def and_then_eq_Inr split: if_splits)
  from c obtain t where t: "auth_id = Some t" "is_token t" "user t = user current" and cur: "\<not> is_token current"
    by (auto simp: unprivileged_check_ok)
  from w obtain tree d where "load env conf (io_digest io) (io_read io) = Inr (tree, d)"
    and "raw = write_config conf (?change tree)"
    by (auto simp: write_update_def and_then_eq_Inr Let_def)
  moreover have "\<forall>q x r. x \<noteq> t \<longrightarrow> acl_entry (?change tree) q x r = acl_entry tree q x r"
    and "\<forall>q g r. acl_group_entry (?change tree) q g r = acl_group_entry tree q g r"
    by (simp_all add: t(1) apply_update_user)
  ultimately show ?thesis using t(2,3) cur by blast
qed

text \<open>The user \<open>user1@pbs\<close> without any role sets a role of an own token.\<close>

definition demo_io :: acl_io where
  "demo_io =
     \<lparr>io_auth_id = Some ''user1@pbs'',
      io_info = Inr \<lparr>user_cfg = section_config_data_new, acl_tree = acl_node_new\<rparr>,
      io_users = Inr \<lparr>sections = [(''user1@pbs!t'', (''token'', JObject []))], order = [''user1@pbs!t'']\<rparr>,
      io_lock = Inr (), io_read = Inr None, io_digest = (\<lambda>_. ''00''), io_replace = (\<lambda>_. Inr ())\<rparr>"

definition demo_conf :: access_conf where
  "demo_conf = test_acm_config\<lparr>acl_audit_privileges := 1, acl_modify_privileges := 2\<rparr>"

theorem unprivileged_update_own_tokens_only_witness:
  "\<exists>raw. update_acl id_env demo_conf demo_io ''/store'' ''Admin'' None (Some (user1\<lparr>tokenname := Some ''t''\<rparr>)) None False None =
      Some (Inr raw) \<and> raw = ''acl:1:/store:user1@pbs!t:Admin'' @ [CHR 0x0A] \<and> \<not> is_token user1"
proof -
  let ?raw = "''acl:1:/store:user1@pbs!t:Admin'' @ [CHR 0x0A]"
  have u: "update_acl id_env demo_conf demo_io ''/store'' ''Admin'' None (Some (user1\<lparr>tokenname := Some ''t''\<rparr>)) None False None =
      Some (Inr ?raw)" by code_simp
  have s: "io_auth_id demo_io = Some ''user1@pbs''" "authid_from_str id_env ''user1@pbs'' = Inr user1"
    "io_info demo_io = Inr \<lparr>user_cfg = section_config_data_new, acl_tree = acl_node_new\<rparr>" by code_simp+
  have p: "\<not> is_ok (info_check_privs demo_conf \<lparr>user_cfg = section_config_data_new, acl_tree = acl_node_new\<rparr>
      user1 acl_path (acl_modify_privileges demo_conf) (allow_partial_permission_match demo_conf))" by code_simp
  show ?thesis using unprivileged_update_own_tokens_only [OF u s p] u by blast
qed

theorem unprivileged_read_own_only_witness:
  "\<exists>items. read_acl id_env demo_conf
       (demo_io\<lparr>io_read := Inr (Some (''acl:1:/:user1@pbs!t,user1@pbs:Admin'' @ [CHR 0x0A]))\<rparr>) None False False = Inr items \<and>
     map ugid items = [''user1@pbs!t''] \<and> (\<forall>i < length items. ugid_type (items ! i) = UgidUser)"
proof -
  let ?io = "demo_io\<lparr>io_read := Inr (Some (''acl:1:/:user1@pbs!t,user1@pbs:Admin'' @ [CHR 0x0A]))\<rparr>"
  let ?info = "\<lparr>user_cfg = section_config_data_new, acl_tree = acl_node_new\<rparr>"
  let ?it = "\<lparr>item_path = ''/'', ugid = ''user1@pbs!t'', ugid_type = UgidUser, item_propagate = True, roleid = ''Admin''\<rparr>"
  have r: "read_acl id_env demo_conf ?io None False False = Inr [?it]" by code_simp
  have s: "io_auth_id ?io = Some ''user1@pbs''" "authid_from_str id_env ''user1@pbs'' = Inr user1"
    "io_info ?io = Inr ?info" by code_simp+
  have p: "\<not> is_ok (info_check_privs demo_conf ?info user1 acl_path (acl_audit_privileges demo_conf)
      (allow_partial_permission_match demo_conf))" by code_simp
  show ?thesis using unprivileged_read_own_only [OF r _ s p, of ?it] r by auto
qed

theorem privileged_read_complete_witness:
  "let t = insert_user_role test_acm_config acl_node_new ''/store/a'' user1 ''Admin'' True
   in \<exists>node. find_node t ''/store'' = Some node \<and>
        acl_item ''/store/a'' UgidUser ''user1@pbs'' (''Admin'', True) \<in>
          set (extract_acl_node_data test_acm_config node (Some ''/store'') False False None)"
proof -
  let ?t = "insert_user_role test_acm_config acl_node_new ''/store/a'' user1 ''Admin'' True"
  let ?n = "AclTreeNode [] [] [(''a'', AclTreeNode [(user1, [(''Admin'', True)])] [] [])]"
  have n: "find_node ?t ''/store'' = Some ?n" by code_simp
  have e: "acl_entry ?t (split_acl_path ''/store'' @ [''a'']) user1 ''Admin'' = Some True" by code_simp
  have "authid_display user1 = ''user1@pbs''" by code_simp
  with privileged_read_complete [OF e n, of test_acm_config] n show ?thesis by (simp add: Let_def)
qed

end
