(* ===== verification/Acl_Roundtrip.thy ===== *)
theory Acl_Roundtrip
  imports Acl_File
begin

text \<open>
  The text of an ACL tree is read back as the same table of entries: \<open>write_config\<close> followed by the parser
  of \<open>proxmox-access-control/src/acl.rs\<close>. The writer groups the entries of a node by role and then by
  the list of ids, so a line stands for all pairs of an id and a role it lists.
\<close>

section \<open>Entries the text form can hold\<close>

definition word_ok :: "string \<Rightarrow> bool" where
  "word_ok s = (s \<noteq> [] \<and> trim s = s \<and> CHR '','' \<notin> set s \<and> CHR '':'' \<notin> set s \<and> CHR 0x0A \<notin> set s)"

definition role_ok :: "access_conf \<Rightarrow> string \<Rightarrow> bool" where
  "role_ok conf r = (word_ok r \<and> plain_byte (last r) \<and> hm_contains_key (conf_roles conf) r)"

definition id_ok :: "schema_env \<Rightarrow> authid \<Rightarrow> bool" where
  "id_ok env a =
     (word_ok (authid_display a) \<and> hd (authid_display a) \<noteq> CHR ''@'' \<and> authid_from_str env (authid_display a) = Inr a)"

fun storable :: "schema_env \<Rightarrow> access_conf \<Rightarrow> acl_node \<Rightarrow> bool" where
  "storable env conf (AclTreeNode us gs ch) =
     (list_all (\<lambda>(a, m). id_ok env a \<and> list_all (\<lambda>(r, _). role_ok conf r) m) us \<and>
      list_all (\<lambda>(g, m). word_ok (CHR ''@'' # g) \<and> list_all (\<lambda>(r, _). role_ok conf r) m) gs \<and>
      list_all (\<lambda>(c, n). CHR '':'' \<notin> set c \<and> CHR 0x0A \<notin> set c \<and> storable env conf n) ch)"

definition is_root :: "authid \<Rightarrow> bool" where
  "is_root a = (\<not> is_token a \<and> data (user a) = ''root@pam'')"

text \<open>The entry of an id, as it is spelled in the file, at a node.\<close>

definition has_entry :: "acl_node \<Rightarrow> bool \<Rightarrow> string \<Rightarrow> string \<Rightarrow> bool" where
  "has_entry n flag ug r =
     ((\<exists>a m. (a, m) \<in> set (users n) \<and> \<not> is_root a \<and> ug = authid_display a \<and> (r, flag) \<in> set m) \<or>
      (\<exists>g m. (g, m) \<in> set (groups n) \<and> ug = CHR ''@'' # g \<and> (r, flag) \<in> set m))"

section \<open>What the writer groups\<close>

lemma set_bs_insert [simp]: "set (bs_insert x s) = insert x (set s)"
  by (auto simp: bs_insert_def set_insort_key)

definition ugs_of :: "(string, string list) hash_map \<Rightarrow> string \<Rightarrow> string set" where
  "ugs_of m r = (case hm_get m r of None \<Rightarrow> {} | Some s \<Rightarrow> set s)"

definition ug_map_ok :: "(string, string list) hash_map \<Rightarrow> bool" where
  "ug_map_ok m = (hm_wf m \<and> (\<forall>r. (r, []) \<notin> set m))"

lemma add_role_ug_ok: "ug_map_ok m \<Longrightarrow> ug_map_ok (add_role_ug flag ug rp m)"
  by (auto simp: ug_map_ok_def add_role_ug_def hm_entry_def hm_wf_intros split: prod.splits
      dest!: set_hm_insert arg_cong [where f = set])

lemma ugs_of_add: "ugs_of (add_role_ug flag ug rp m) r = ugs_of m r \<union> (if rp = (r, flag) then {ug} else {})"
  by (auto simp: add_role_ug_def ugs_of_def split: prod.splits option.splits)

lemma ugs_of_fold:
  "ug_map_ok m \<Longrightarrow> ug_map_ok (fold (add_role_ug flag ug) rs m)"
  "ugs_of (fold (add_role_ug flag ug) rs m) r = ugs_of m r \<union> (if (r, flag) \<in> set rs then {ug} else {})"
  by (induction rs arbitrary: m) (auto simp: add_role_ug_ok ugs_of_add)

lemma ugs_of_users:
  fixes us :: "(authid \<times> role_map) list"
  defines "step \<equiv> \<lambda>flag. \<lambda>(a, rs) m. if \<not> is_token a \<and> data (user a) = ''root@pam'' then m
                 else fold (add_role_ug flag (authid_display a)) rs m"
  shows "ug_map_ok m \<Longrightarrow> ug_map_ok (fold (step flag) us m)"
    and "ugs_of (fold (step flag) us m) r =
      ugs_of m r \<union> {authid_display a |a rs. (a, rs) \<in> set us \<and> \<not> is_root a \<and> (r, flag) \<in> set rs}"
proof -
  have step: "step flag (a, rs) m = (if is_root a then m else fold (add_role_ug flag (authid_display a)) rs m)" for a rs m
    by (simp add: step_def is_root_def)
  show "ug_map_ok m \<Longrightarrow> ug_map_ok (fold (step flag) us m)"
    by (induction us arbitrary: m) (auto simp: step ugs_of_fold)
  show "ugs_of (fold (step flag) us m) r =
      ugs_of m r \<union> {authid_display a |a rs. (a, rs) \<in> set us \<and> \<not> is_root a \<and> (r, flag) \<in> set rs}"
  proof (induction us arbitrary: m)
    case (Cons x us)
    obtain a rs where x: "x = (a, rs)" by (cases x)
    show ?case using Cons [of "step flag x m"] by (cases "is_root a") (auto simp: x step ugs_of_fold)
  qed simp
qed

lemma ugs_of_groups:
  fixes gs :: "(string \<times> role_map) list"
  defines "step \<equiv> \<lambda>flag. \<lambda>(g, rs). fold (add_role_ug flag (CHR ''@'' # g)) rs"
  shows "ug_map_ok m \<Longrightarrow> ug_map_ok (fold (step flag) gs m)"
    and "ugs_of (fold (step flag) gs m) r =
      ugs_of m r \<union> {CHR ''@'' # g |g rs. (g, rs) \<in> set gs \<and> (r, flag) \<in> set rs}"
  by (induction gs arbitrary: m) (auto simp: step_def ugs_of_fold split: if_splits)

lemma role_ug_map_spec:
  "ug_map_ok (role_ug_map flag n)" "ugs_of (role_ug_map flag n) r = {ug. has_entry n flag ug r}"
proof -
  have "ug_map_ok []" by (simp add: ug_map_ok_def)
  then show "ug_map_ok (role_ug_map flag n)"
    unfolding role_ug_map_def Let_def case_prod_unfold
    using ugs_of_groups(1) ugs_of_users(1) by (simp add: case_prod_unfold)
  have "ugs_of [] r = {}" by (simp add: ugs_of_def)
  then show "ugs_of (role_ug_map flag n) r = {ug. has_entry n flag ug r}"
    unfolding role_ug_map_def Let_def
    using ugs_of_groups(2) ugs_of_users(2) by (auto simp: has_entry_def case_prod_unfold)
qed

text \<open>Grouping by the list of ids.\<close>

lemma group_by_spec:
  "set (case bm_get (group_by_property_list m) k of None \<Rightarrow> [] | Some s \<Rightarrow> s) =
     {r. \<exists>ugs. (r, ugs) \<in> set m \<and> fold_comma ugs = k}"
  "bm_wf (group_by_property_list m)"
  "bm_get (group_by_property_list m) k \<noteq> Some []"
proof -
  define step where "step = (\<lambda>(item :: string, props) r.
        let k = fold_comma props
        in bm_insert k (bs_insert item (case bm_get r k of None \<Rightarrow> [] | Some s \<Rightarrow> s)) r)"
  have "bm_wf (fold step m g)" if "bm_wf g" for g
    using that by (induction m arbitrary: g) (auto simp: step_def Let_def)
  then show "bm_wf (group_by_property_list m)" by (simp add: group_by_property_list_def step_def)
  have "bm_get (fold step m g) k \<noteq> Some []" if "\<And>k. bm_get g k \<noteq> Some []" for g
    using that
  proof (induction m arbitrary: g)
    case (Cons x m)
    have "bs_insert y s \<noteq> []" for y s by (metis set_bs_insert empty_not_insert list.set(1))
    then have "bm_get (step x g) k' \<noteq> Some []" for k' using Cons.prems by (simp add: step_def Let_def split: prod.split)
    then show ?case using Cons.IH [of "step x g"] by simp
  qed simp
  then show "bm_get (group_by_property_list m) k \<noteq> Some []" by (simp add: group_by_property_list_def step_def)
  have "set (case bm_get (fold step m g) k of None \<Rightarrow> [] | Some s \<Rightarrow> s) =
     set (case bm_get g k of None \<Rightarrow> [] | Some s \<Rightarrow> s) \<union> {r. \<exists>ugs. (r, ugs) \<in> set m \<and> fold_comma ugs = k}" for g
  proof (induction m arbitrary: g)
    case (Cons x m)
    obtain r0 u0 where x: "x = (r0, u0)" by (cases x)
    have "set (case bm_get (step x g) k of None \<Rightarrow> [] | Some s \<Rightarrow> s) =
      set (case bm_get g k of None \<Rightarrow> [] | Some s \<Rightarrow> s) \<union> (if fold_comma u0 = k then {r0} else {})"
      by (auto simp: x step_def Let_def)
    then show ?case using Cons [of "step x g"] by (auto simp: x)
  qed simp
  from this [of "[]"] show "set (case bm_get (group_by_property_list m) k of None \<Rightarrow> [] | Some s \<Rightarrow> s) =
     {r. \<exists>ugs. (r, ugs) \<in> set m \<and> fold_comma ugs = k}"
    by (simp add: group_by_property_list_def step_def)
qed

lemma fold_comma_join:
  assumes "[] \<notin> set xs"
  shows "fold_comma xs = join '','' xs"
proof -
  have "fold (\<lambda>v acc. if acc = [] then v else acc @ '','' @ v) ys acc = join '','' (acc # ys)" if "acc \<noteq> []" "[] \<notin> set ys" for ys acc
    using that
  proof (induction ys arbitrary: acc)
    case (Cons y ys)
    then show ?case using Cons.IH [of "acc @ '','' @ y"] by (cases ys) auto
  qed simp
  then show ?thesis using assms by (cases xs) (auto simp: fold_comma_def)
qed

lemma words_comma:
  assumes "xs \<noteq> []" "\<And>x. x \<in> set xs \<Longrightarrow> word_ok x"
  shows "map trim (split_on CHR '','' (fold_comma xs)) = xs"
    and "CHR '':'' \<notin> set (fold_comma xs)" and "CHR 0x0A \<notin> set (fold_comma xs)" and "fold_comma xs \<noteq> []"
proof -
  have j: "fold_comma xs = join '','' xs" by (rule fold_comma_join) (use assms(2) in \<open>auto simp: word_ok_def\<close>)
  have "split_on CHR '','' (join '','' xs) = xs" by (rule split_on_join) (use assms in \<open>auto simp: word_ok_def\<close>)
  then show "map trim (split_on CHR '','' (fold_comma xs)) = xs"
    using assms(2) by (auto simp: j word_ok_def intro: map_idI)
  have "set (join '','' ys) \<subseteq> insert CHR '','' (\<Union> (set ` set ys))" for ys
    by (induction "'',''" ys rule: join.induct) auto
  then show "CHR '':'' \<notin> set (fold_comma xs)" "CHR 0x0A \<notin> set (fold_comma xs)"
    using assms(2) by (fastforce simp: j word_ok_def)+
  show "fold_comma xs \<noteq> []" using assms unfolding j by (cases xs; cases "tl xs") (auto simp: word_ok_def)
qed

text \<open>The lines of a node: the ids and roles of a line, all of whose pairs are entries, and every entry.\<close>

definition written_items :: "bool \<Rightarrow> acl_node \<Rightarrow> (string \<times> string list) list" where
  "written_items flag n = group_by_property_list (role_ug_map flag n)"

lemma storable_entry:
  assumes "storable env conf n" "has_entry n flag ug r"
  shows "word_ok ug" and "role_ok conf r"
    and "(\<exists>g. ug = CHR ''@'' # g) \<or> hd ug \<noteq> CHR ''@'' \<and> (\<exists>a. authid_from_str env ug = Inr a)"
  using assms by (cases n; auto simp: has_entry_def list_all_iff id_ok_def)+

lemma role_ug_map_words:
  assumes "storable env conf n" "(r, ugs) \<in> set (role_ug_map flag n)"
  shows "ugs \<noteq> []" "set ugs = {ug. has_entry n flag ug r}" "\<And>ug. ug \<in> set ugs \<Longrightarrow> word_ok ug"
proof -
  note m = role_ug_map_spec [of flag n]
  show "ugs \<noteq> []" using m(1) assms(2) by (auto simp: ug_map_ok_def)
  have "hm_get (role_ug_map flag n) r = Some ugs" using m(1) assms(2) by (simp add: ug_map_ok_def hm_get_Some_iff)
  then show s: "set ugs = {ug. has_entry n flag ug r}" using m(2) [of r] by (simp add: ugs_of_def)
  show "word_ok ug" if "ug \<in> set ugs" for ug using storable_entry(1) [OF assms(1)] that unfolding s by blast
qed

lemma written_items_iff:
  assumes "(k, rs) \<in> set (written_items flag n)"
  shows "set rs = {r. \<exists>ugs. (r, ugs) \<in> set (role_ug_map flag n) \<and> fold_comma ugs = k}" and "rs \<noteq> []"
proof -
  have "bm_get (written_items flag n) k = Some rs"
    using assms bm.entries_iff [OF group_by_spec(2)] by (simp add: written_items_def)
  then show "set rs = {r. \<exists>ugs. (r, ugs) \<in> set (role_ug_map flag n) \<and> fold_comma ugs = k}" "rs \<noteq> []"
    using group_by_spec(1,3) [of "role_ug_map flag n" k] by (auto simp: written_items_def)
qed

lemma written_items_sound:
  assumes "storable env conf n" "(k, rs) \<in> set (written_items flag n)"
  shows "\<exists>ugs. ugs \<noteq> [] \<and> rs \<noteq> [] \<and> k = fold_comma ugs \<and> (\<forall>ug \<in> set ugs. \<forall>r \<in> set rs. has_entry n flag ug r)"
proof -
  note rs = written_items_iff [OF assms(2)]
  note words = role_ug_map_words [OF assms(1)]
  obtain r0 ugs where r0: "(r0, ugs) \<in> set (role_ug_map flag n)" "fold_comma ugs = k"
    using rs(1) list.set_sel(1) [OF rs(2)] by blast
  have "has_entry n flag ug r" if "ug \<in> set ugs" "r \<in> set rs" for ug r
  proof -
    obtain ugs' where r: "(r, ugs') \<in> set (role_ug_map flag n)" "fold_comma ugs' = k" using rs(1) \<open>r \<in> set rs\<close> by blast
    have "ugs' = ugs"
      using words_comma(1) [OF words(1,3) [OF r(1)]] words_comma(1) [OF words(1,3) [OF r0(1)]] r(2) r0(2) by metis
    with words(2) [OF r(1)] that(1) show ?thesis by blast
  qed
  with words(1) [OF r0(1)] rs(2) r0(2) show ?thesis by blast
qed

lemma written_items_complete:
  assumes "storable env conf n" "has_entry n flag ug r"
  shows "\<exists>k rs ugs. (k, rs) \<in> set (written_items flag n) \<and> k = fold_comma ugs \<and> ug \<in> set ugs \<and> r \<in> set rs \<and>
    (\<forall>u \<in> set ugs. word_ok u)"
proof -
  have "ug \<in> ugs_of (role_ug_map flag n) r" using assms(2) by (simp add: role_ug_map_spec)
  then obtain ugs where ugs: "(r, ugs) \<in> set (role_ug_map flag n)" "ug \<in> set ugs"
    by (auto simp: ugs_of_def split: option.splits dest: hm_get_SomeD)
  then obtain rs where "bm_get (written_items flag n) (fold_comma ugs) = Some rs" "r \<in> set rs"
    using group_by_spec(1) [of "role_ug_map flag n" "fold_comma ugs"]
    by (cases "bm_get (written_items flag n) (fold_comma ugs)") (auto simp: written_items_def)
  with ugs role_ug_map_words(3) [OF assms(1) ugs(1)] show ?thesis by (blast dest: bm_get_SomeD)
qed

text \<open>The role without access is alone in its line, so the list of roles is complete.\<close>

definition roles_written :: "access_conf \<Rightarrow> string list \<Rightarrow> string list" where
  "roles_written conf rs = (case role_no_access conf of Some x \<Rightarrow> if x \<in> set rs then [x] else rs | None \<Rightarrow> rs)"

lemma entry_maps:
  assumes "node_wf conf n" "storable env conf n" "has_entry n flag ug r" "has_entry n flag' ug r'"
  shows "\<exists>m. role_map_ok conf m \<and> (r, flag) \<in> set m \<and> (r', flag') \<in> set m"
proof -
  obtain us gs ch where n: "n = AclTreeNode us gs ch" by (cases n)
  have ids: "hd (authid_display a) \<noteq> CHR ''@''" "authid_from_str env (authid_display a) = Inr a" if "(a, m) \<in> set us" for a m
    using assms(2) that by (auto simp: n list_all_iff id_ok_def)
  have uniq: "(a, m) \<in> set us \<Longrightarrow> (a, m') \<in> set us \<Longrightarrow> m = m'" "(g, l) \<in> set gs \<Longrightarrow> (g, l') \<in> set gs \<Longrightarrow> l = l'" for a g m m' l l'
    using assms(1) by (auto simp: n hm_wf_def dest: eq_key_imp_eq_value)
  have ok: "(a, m) \<in> set us \<Longrightarrow> role_map_ok conf m" "(g, m) \<in> set gs \<Longrightarrow> role_map_ok conf m" for a g m
    using assms(1) by (auto simp: n list_all_iff)
  consider a m where "(a, m) \<in> set us" "ug = authid_display a" "(r, flag) \<in> set m"
    | g m where "(g, m) \<in> set gs" "ug = CHR ''@'' # g" "(r, flag) \<in> set m"
    using assms(3) unfolding has_entry_def n acl_node.sel by blast
  then show ?thesis
  proof cases
    case 1
    then obtain b m' where b: "(b, m') \<in> set us" "ug = authid_display b" "(r', flag') \<in> set m'"
      using assms(4) ids(1) [of a m] unfolding has_entry_def n acl_node.sel by auto
    have "b = a" using ids(2) [OF b(1)] ids(2) [OF 1(1)] b(2) 1(2) by simp
    then have "m' = m" using uniq(1) b(1) 1(1) by blast
    then show ?thesis using ok(1) 1 b(3) by blast
  next
    case 2
    then obtain m' where m': "(g, m') \<in> set gs" "(r', flag') \<in> set m'"
      using assms(4) ids(1) unfolding has_entry_def n acl_node.sel by (metis list.sel(1) list.inject)
    then have "m' = m" using uniq(2) 2(1) by blast
    then show ?thesis using ok(2) 2 m'(2) by blast
  qed
qed

lemma roles_written_set:
  assumes "node_wf conf n" "storable env conf n" "(k, rs) \<in> set (written_items flag n)"
  shows "set (roles_written conf rs) = set rs" and "role_list conf rs = fold_comma (roles_written conf rs)"
proof -
  obtain ugs where ugs: "ugs \<noteq> []" "\<forall>ug \<in> set ugs. \<forall>r \<in> set rs. has_entry n flag ug r"
    using written_items_sound [OF assms(2,3)] by blast
  have "r = x" if "role_no_access conf = Some x" "x \<in> set rs" "r \<in> set rs" for x r
  proof -
    have "has_entry n flag (hd ugs) x" "has_entry n flag (hd ugs) r" using ugs that by auto
    from entry_maps [OF assms(1,2) this] obtain m where "role_map_ok conf m" "(x, flag) \<in> set m" "(r, flag) \<in> set m" by blast
    then have "x \<in> set (map fst m)" "r \<in> set (map fst m)" "map fst m = [x]"
      using that(1) by (force simp: role_map_ok_def hm_contains_key_def hm_get_None_iff)+
    then show ?thesis by simp
  qed
  then show "set (roles_written conf rs) = set rs" by (auto simp: roles_written_def split: option.split)
  show "role_list conf rs = fold_comma (roles_written conf rs)"
    by (auto simp: role_list_def roles_written_def fold_comma_def split: option.split)
qed

section \<open>The lines of a tree\<close>

definition path_text :: "string list \<Rightarrow> string" where
  "path_text p = concat (map (\<lambda>c. CHR ''/'' # c) p)"

definition item_line :: "access_conf \<Rightarrow> string list \<times> bool \<times> string \<times> string list \<Rightarrow> string" where
  "item_line conf = (\<lambda>(p, flag, k, rs).
     ''acl:'' @ (if flag then ''1'' else ''0'') @ '':'' @ (if p = [] then ''/'' else path_text p) @ '':'' @ k @ '':'' @
     role_list conf rs)"

fun tree_items :: "acl_node \<Rightarrow> string list \<Rightarrow> (string list \<times> bool \<times> string \<times> string list) list" where
  "tree_items (AclTreeNode us gs ch) p =
     (let n = AclTreeNode us gs ch
      in map (\<lambda>(k, rs). (p, False, k, rs)) (written_items False n) @ map (\<lambda>(k, rs). (p, True, k, rs)) (written_items True n) @
         concat (map (\<lambda>(c, m). tree_items m (p @ [c])) ch))"

lemma node_lines_items:
  "list_all (\<lambda>c. c \<noteq> []) p \<Longrightarrow>
   node_lines conf flag n (path_text p) =
     concat (map (\<lambda>i. item_line conf i @ [CHR 0x0A]) (map (\<lambda>(k, rs). (p, flag, k, rs)) (written_items flag n)))"
proof -
  have "path_text p = [] \<longleftrightarrow> p = []" by (cases p) (auto simp: path_text_def)
  then show ?thesis by (simp add: node_lines_def written_items_def item_line_def comp_def case_prod_unfold)
qed

lemma write_node_config_items:
  "list_all (\<lambda>c. c \<noteq> []) p \<Longrightarrow> node_wf conf n \<Longrightarrow>
   write_node_config conf n (path_text p) = concat (map (\<lambda>i. item_line conf i @ [CHR 0x0A]) (tree_items n p))"
proof (induction n p rule: tree_items.induct)
  case (1 us gs ch p)
  have "write_node_config conf m (path_text p @ ''/'' @ c) =
      concat (map (\<lambda>i. item_line conf i @ [CHR 0x0A]) (tree_items m (p @ [c])))" if "(c, m) \<in> set ch" for c m
  proof -
    have "node_wf conf m" "c \<noteq> []" using 1(3) that by (auto simp: list_all_iff)
    then show ?thesis using 1(1) [OF refl that refl] 1(2) by (simp add: path_text_def)
  qed
  then have "concat (map (\<lambda>(c, m). write_node_config conf m (path_text p @ ''/'' @ c)) ch) =
      concat (map (\<lambda>i. item_line conf i @ [CHR 0x0A]) (concat (map (\<lambda>(c, m). tree_items m (p @ [c])) ch)))"
    by (induction ch) auto
  then show ?case using node_lines_items [OF 1(2)] by (simp add: Let_def)
qed

lemma tree_items_iff:
  "node_wf conf n \<Longrightarrow> (q, flag, k, rs) \<in> set (tree_items n p) \<longleftrightarrow>
     (\<exists>q' m. q = p @ q' \<and> node_at n q' = Some m \<and> (k, rs) \<in> set (written_items flag m))"
proof (induction n p arbitrary: q rule: tree_items.induct)
  case (1 us gs ch p)
  let ?n = "AclTreeNode us gs ch"
  have wf: "node_wf conf m" if "(c, m) \<in> set ch" for c m using 1(2) that by (auto simp: list_all_iff)
  have get: "bm_get ch c = Some m \<longleftrightarrow> (c, m) \<in> set ch" for c m using 1(2) bm.entries_iff [of ch c m] by simp
  have "(q, flag, k, rs) \<in> set (tree_items ?n p) \<longleftrightarrow>
      q = p \<and> (k, rs) \<in> set (written_items flag ?n) \<or> (\<exists>c m. (c, m) \<in> set ch \<and> (q, flag, k, rs) \<in> set (tree_items m (p @ [c])))"
    by (cases flag) (auto simp: Let_def)
  also have "\<dots> \<longleftrightarrow> q = p \<and> (k, rs) \<in> set (written_items flag ?n) \<or>
      (\<exists>c m. (c, m) \<in> set ch \<and> (\<exists>q' l. q = p @ c # q' \<and> node_at m q' = Some l \<and> (k, rs) \<in> set (written_items flag l)))"
    using 1(1) [OF refl _ refl wf] by auto
  also have "\<dots> \<longleftrightarrow> (\<exists>q' m. q = p @ q' \<and> node_at ?n q' = Some m \<and> (k, rs) \<in> set (written_items flag m))"
    (is "?L \<longleftrightarrow> ?R")
  proof
    assume ?L
    then show ?R
    proof (elim disjE exE conjE)
      assume "q = p" "(k, rs) \<in> set (written_items flag ?n)"
      then show ?R by (intro exI [of _ "[]"]) simp
    next
      fix c m q' l
      assume "(c, m) \<in> set ch" "q = p @ c # q'" "node_at m q' = Some l" "(k, rs) \<in> set (written_items flag l)"
      then show ?R using get [of c m] by (intro exI [of _ "c # q'"]) simp
    qed
  next
    assume ?R
    then obtain q' l where l: "q = p @ q'" "node_at ?n q' = Some l" "(k, rs) \<in> set (written_items flag l)" by blast
    show ?L
    proof (cases q')
      case (Cons c q'')
      then obtain m where "(c, m) \<in> set ch" "node_at m q'' = Some l" using l(2) get by (auto split: option.splits)
      with l Cons show ?thesis by blast
    qed (use l in simp)
  qed
  finally show ?case .
qed

section \<open>Reading a line\<close>

definition add_entry :: "schema_env \<Rightarrow> access_conf \<Rightarrow> bool \<Rightarrow> string \<Rightarrow> string \<Rightarrow> acl_node \<Rightarrow> acl_node" where
  "add_entry env conf flag ug r n =
     (case strip_prefix_char CHR ''@'' ug of
        Some g \<Rightarrow> node_insert_group_role conf g r flag n
      | None \<Rightarrow> (case authid_from_str env ug of Inr a \<Rightarrow> node_insert_user_role conf a r flag n | Inl _ \<Rightarrow> n))"

definition add_line :: "schema_env \<Rightarrow> access_conf \<Rightarrow> bool \<Rightarrow> string list \<Rightarrow> string list \<Rightarrow> acl_node \<Rightarrow> acl_node" where
  "add_line env conf flag ugs rs = fold (\<lambda>ug. fold (add_entry env conf flag ug) rs) ugs"

definition ug_valid :: "schema_env \<Rightarrow> string \<Rightarrow> bool" where
  "ug_valid env ug = ((\<exists>g. ug = CHR ''@'' # g) \<or> hd ug \<noteq> CHR ''@'' \<and> (\<exists>a. authid_from_str env ug = Inr a))"

lemma insert_ugs_add_line:
  assumes "\<And>ug. ug \<in> set ugs \<Longrightarrow> ug_valid env ug" "\<And>r. r \<in> set rs \<Longrightarrow> role_ok conf r"
  shows "insert_ugs env conf flag ugs rs n = Inr (add_line env conf flag ugs rs n)"
proof -
  have entry: "insert_ug_role env conf flag ug r m = Inr (add_entry env conf flag ug r m)" if "ug_valid env ug" "role_ok conf r" for ug r m
    using that by (auto simp: insert_ug_role_def add_entry_def role_ok_def ug_valid_def strip_prefix_char_def split: list.splits)
  have roles: "insert_roles env conf flag ug rs m = Inr (fold (add_entry env conf flag ug) rs m)" if "ug_valid env ug" for ug m
    using assms(2) that by (induction rs arbitrary: m) (auto simp: entry)
  show ?thesis
    using assms(1) by (induction ugs arbitrary: n) (auto simp: add_line_def roles)
qed

lemma children_add_entry [simp]: "children (add_entry env conf flag ug r n) = children n"
  using keeps_children_ops by (auto simp: add_entry_def keeps_children_def split: option.split sum.split)

lemma keeps_children_add_line: "keeps_children (add_line env conf flag ugs rs)"
proof -
  have "children (fold (add_entry env conf flag ug) rs n) = children n" for ug n by (induction rs arbitrary: n) auto
  then have "children (add_line env conf flag ugs rs n) = children n" for n
    unfolding add_line_def by (induction ugs arbitrary: n) auto
  then show ?thesis by (simp add: keeps_children_def)
qed

lemma insert_at_node_or_new: "insert_at (\<lambda>_. f (node_or_new t p)) t p = insert_at f t p"
proof (induction p arbitrary: t)
  case (Cons c p)
  obtain us gs ch where t: "t = AclTreeNode us gs ch" by (cases t)
  show ?case using Cons [of "case bm_get ch c of None \<Rightarrow> acl_node_new | Some n' \<Rightarrow> n'"]
    by (simp add: t node_or_new_Cons)
qed (simp add: node_or_new_def)

lemma node_at_insert_at: "node_at (insert_at f t p) p = Some (f (node_or_new t p))"
proof (induction p arbitrary: t)
  case (Cons c p)
  obtain us gs ch where t: "t = AclTreeNode us gs ch" by (cases t)
  show ?case using Cons [of "case bm_get ch c of None \<Rightarrow> acl_node_new | Some n' \<Rightarrow> n'"]
    by (simp add: t node_or_new_Cons)
qed (simp add: node_or_new_def)

lemma split_path_text:
  assumes "clean_path p"
  shows "split_acl_path (if p = [] then ''/'' else path_text p) = p"
proof -
  have "split_on CHR ''/'' (c @ path_text q) = c # q" if "clean_path (c # q)" for c q
    using that
  proof (induction q arbitrary: c)
    case (Cons d q)
    then show ?case by (simp add: path_text_def clean_path_def split_on_append)
  qed (simp add: path_text_def clean_path_def)
  then have "split_on CHR ''/'' (path_text p) = [] # p" if "p \<noteq> []"
    using assms that by (cases p) (auto simp: path_text_def)
  then show ?thesis using assms by (auto simp: split_acl_path_def clean_path_def list_all_iff intro: filter_True)
qed

lemma parse_item_line:
  assumes "clean_path p" "\<And>c. c \<in> set p \<Longrightarrow> CHR '':'' \<notin> set c"
    and ugs: "ugs \<noteq> []" "k = fold_comma ugs" "\<And>ug. ug \<in> set ugs \<Longrightarrow> word_ok ug \<and> ug_valid env ug"
    and rs: "rs' \<noteq> []" "role_list conf rs = fold_comma rs'" "\<And>r. r \<in> set rs' \<Longrightarrow> role_ok conf r"
  shows "parse_acl_line env conf t (item_line conf (p, flag, k, rs)) = Inr (insert_at (add_line env conf flag ugs rs') t p)"
proof -
  let ?path = "if p = [] then ''/'' else path_text p"
  have words: "\<And>ug. ug \<in> set ugs \<Longrightarrow> word_ok ug" "\<And>r. r \<in> set rs' \<Longrightarrow> word_ok r"
    using ugs(3) rs(3) by (auto simp: role_ok_def)
  note u = words_comma [OF ugs(1) words(1)] and v = words_comma [OF rs(1) words(2)]
  have "CHR '':'' \<notin> set ?path" using assms(2) by (auto simp: path_text_def)
  then have items: "split_on CHR '':'' (item_line conf (p, flag, k, rs)) =
      [''acl'', if flag then ''1'' else ''0'', ?path, fold_comma ugs, fold_comma rs']"
    using u(2) v(2) unfolding item_line_def prod.case ugs(2) rs(2)
    using split_on_append [of "CHR '':''" "''acl''"] split_on_append [of "CHR '':''" "if flag then ''1'' else ''0''"]
      split_on_append [of "CHR '':''" ?path] split_on_append [of "CHR '':''" "fold_comma ugs"]
    by simp
  have "insert_ugs env conf flag ugs rs' (node_or_new t p) = Inr (add_line env conf flag ugs rs' (node_or_new t p))"
    by (rule insert_ugs_add_line) (use ugs(3) rs(3) in auto)
  then show ?thesis
    using split_all_acl_path [of ?path] unfolding split_path_text [OF assms(1)]
    unfolding parse_acl_line_def items
    by (cases flag) (simp_all add: split_path_text [OF assms(1)] u(1) v(1) get_node_def get_or_insert_node_def
      node_at_insert_at insert_at_node_or_new del: if_split)
qed

section \<open>The table of a partly read file\<close>

definition entry_of :: "('k \<times> role_map) list \<Rightarrow> 'k \<Rightarrow> string \<Rightarrow> bool option" where
  "entry_of us a r = hm_get (case hm_get us a of None \<Rightarrow> [] | Some m \<Rightarrow> m) r"

lemma acl_entry_of: "acl_entry t p a r = entry_of (users (node_or_new t p)) a r"
  "acl_group_entry t p g r = entry_of (groups (node_or_new t p)) g r"
  by (auto simp: acl_entry_def acl_group_entry_def entry_of_def node_view_or_new split: option.split)

text \<open>The node \<open>n'\<close> holds the entries of \<open>n\<close> in the set \<open>S\<close>.\<close>

definition holds :: "acl_node \<Rightarrow> (string \<times> string) set \<Rightarrow> acl_node \<Rightarrow> bool" where
  "holds n S n' =
     ((\<forall>a r. entry_of (users n') a r = (if (authid_display a, r) \<in> S then entry_of (users n) a r else None)) \<and>
      (\<forall>g r. entry_of (groups n') g r = (if (CHR ''@'' # g, r) \<in> S then entry_of (groups n) g r else None)))"

lemma entry_of_add:
  assumes "role_map_ok conf m" "hm_get us a = Some m" "(r, flag) \<in> set m"
    and "\<forall>r. entry_of us' a r = (if r \<in> R then entry_of us a r else None)"
  shows "entry_of (hm_entry a [] (insert_role conf r flag) us') a r' = (if r' = r \<or> r' \<in> R then entry_of us a r' else None)"
proof -
  have wf: "hm_wf m" using assms(1) by (simp add: role_map_ok_def)
  have r: "hm_get m r = Some flag" using assms(3) wf by (simp add: hm_get_Some_iff)
  have alone: "s = r" if "hm_get m s \<noteq> None" "role_no_access conf = Some x" "x = r \<or> x = s" for s x
  proof -
    have "hm_contains_key m x" using that r by (auto simp: hm_contains_key_def)
    then have "map fst m = [x]" using assms(1) that(2) by (auto simp: role_map_ok_def)
    then show ?thesis using that(1) r by (auto simp: hm_get_None_iff hm_get_def dest!: map_of_SomeD)
  qed
  have "entry_of (hm_entry a [] (insert_role conf r flag) us') a r' =
      (if r' = r then Some flag else if role_no_access conf = Some r \<or> role_no_access conf = Some r' then None else entry_of us' a r')"
    by (simp add: entry_of_def get_insert_role)
  moreover have "entry_of us a s = hm_get m s" for s using assms(2) by (simp add: entry_of_def)
  moreover have "hm_get m r' = None" if "r' \<noteq> r" "role_no_access conf = Some r \<or> role_no_access conf = Some r'"
    using alone [of r'] that by blast
  ultimately show ?thesis using assms(4) r by simp
qed

lemma entry_of_other: "a' \<noteq> a \<Longrightarrow> entry_of (hm_entry a d f us) a' r = entry_of us a' r"
  by (simp add: entry_of_def)

lemma holds_add_entry:
  assumes "node_wf conf n" "storable env conf n" "has_entry n flag ug r" "holds n S n'"
  shows "holds n (insert (ug, r) S) (add_entry env conf flag ug r n')"
proof -
  obtain us gs ch where n: "n = AclTreeNode us gs ch" by (cases n)
  have wf: "hm_wf us" "hm_wf gs" using assms(1) by (simp_all add: n)
  have ok: "(a, m) \<in> set us \<Longrightarrow> role_map_ok conf m" "(g, m) \<in> set gs \<Longrightarrow> role_map_ok conf m" for a g m
    using assms(1) by (auto simp: n list_all_iff)
  have ids: "hd (authid_display a) \<noteq> CHR ''@''" "authid_display a \<noteq> []" "authid_from_str env (authid_display a) = Inr a"
    if "(a, m) \<in> set us" for a m
    using assms(2) that by (auto simp: n list_all_iff id_ok_def word_ok_def)
  have known: "entry_of us a s = None" if "a \<notin> fst ` set us" for a s
    using that by (simp add: entry_of_def hm_get_None_iff [THEN iffD2])
  consider a m where "(a, m) \<in> set us" "ug = authid_display a" "(r, flag) \<in> set m"
    | g m where "(g, m) \<in> set gs" "ug = CHR ''@'' # g" "(r, flag) \<in> set m"
    using assms(3) unfolding has_entry_def n acl_node.sel by blast
  then show ?thesis
  proof cases
    case 1
    have add: "add_entry env conf flag ug r n' = node_insert_user_role conf a r flag n'"
      using ids [OF 1(1)] by (cases "authid_display a") (auto simp: add_entry_def 1(2) strip_prefix_char_def)
    have "entry_of (hm_entry a [] (insert_role conf r flag) (users n')) x s =
        (if (authid_display x, s) \<in> insert (ug, r) S then entry_of us x s else None)" for x s
    proof (cases "x = a")
      case True
      then show ?thesis
        using entry_of_add [OF ok(1) [OF 1(1)], of us a r flag "users n'" "{s. (authid_display a, s) \<in> S}" s] 1 wf(1) assms(4)
        by (auto simp: hm_get_Some_iff holds_def n)
    next
      case False
      have "entry_of us x s = None" if "authid_display x = ug"
        using known [of x s] ids(3) [OF 1(1)] ids(3) [of x] that 1(2) False by (metis (no_types) imageE prod.collapse sum.inject(2))
      then show ?thesis using False assms(4) by (auto simp: entry_of_other holds_def n)
    qed
    moreover have "(CHR ''@'' # g, s) \<in> insert (ug, r) S \<longleftrightarrow> (CHR ''@'' # g, s) \<in> S" for g s
      using ids(1) [OF 1(1)] 1(2) by (metis insert_iff list.sel(1) prod.inject)
    ultimately show ?thesis using assms(4) unfolding add by (auto simp: holds_def n)
  next
    case 2
    have add: "add_entry env conf flag ug r n' = node_insert_group_role conf g r flag n'"
      by (auto simp: add_entry_def 2(2) strip_prefix_char_def)
    have "entry_of (hm_entry g [] (insert_role conf r flag) (groups n')) x s =
        (if (CHR ''@'' # x, s) \<in> insert (ug, r) S then entry_of gs x s else None)" for x s
    proof (cases "x = g")
      case True
      then show ?thesis
        using entry_of_add [OF ok(2) [OF 2(1)], of gs g r flag "groups n'" "{s. (CHR ''@'' # g, s) \<in> S}" s] 2 wf(2) assms(4)
        by (auto simp: hm_get_Some_iff holds_def n)
    next
      case False
      then show ?thesis using 2(2) assms(4) by (auto simp: entry_of_other holds_def n)
    qed
    moreover have "entry_of us a s = None" if "authid_display a = ug" for a s
      using known [of a s] ids(1) [of a] that 2(2) by (metis (no_types) imageE list.sel(1) prod.collapse)
    ultimately show ?thesis using assms(4) unfolding add by (auto simp: holds_def n)
  qed
qed

lemma holds_add_line:
  assumes "node_wf conf n" "storable env conf n" "\<And>ug r. ug \<in> set ugs \<Longrightarrow> r \<in> set rs \<Longrightarrow> has_entry n flag ug r" "holds n S n'"
  shows "holds n (S \<union> set ugs \<times> set rs) (add_line env conf flag ugs rs n')"
proof -
  have roles: "holds n (T \<union> {ug} \<times> set rs) (fold (add_entry env conf flag ug) rs m)"
    if "holds n T m" "\<And>r. r \<in> set rs \<Longrightarrow> has_entry n flag ug r" for ug T m
    using that
  proof (induction rs arbitrary: T m)
    case (Cons r rs)
    have "holds n (insert (ug, r) T \<union> {ug} \<times> set rs) (fold (add_entry env conf flag ug) rs (add_entry env conf flag ug r m))"
      using Cons.prems by (intro Cons.IH holds_add_entry [OF assms(1,2)]) auto
    then show ?case by (simp add: insert_Times_insert Un_commute insert_commute)
  qed simp
  show ?thesis
    using assms(3,4) unfolding add_line_def
  proof (induction ugs arbitrary: S n')
    case (Cons ug ugs)
    have "holds n (S \<union> {ug} \<times> set rs \<union> set ugs \<times> set rs)
        (fold (\<lambda>ug. fold (add_entry env conf flag ug) rs) ugs (fold (add_entry env conf flag ug) rs n'))"
      using Cons.prems by (intro Cons.IH roles) auto
    moreover have "S \<union> {ug} \<times> set rs \<union> set ugs \<times> set rs = S \<union> set (ug # ugs) \<times> set rs" by auto
    ultimately show ?case by simp
  qed simp
qed

definition tree_holds :: "acl_node \<Rightarrow> (string list \<Rightarrow> (string \<times> string) set) \<Rightarrow> acl_node \<Rightarrow> bool" where
  "tree_holds t S t' = (\<forall>p. holds (node_or_new t p) (S p) (node_or_new t' p))"

lemma tree_holds_insert:
  assumes "tree_holds t S t'" "keeps_children f" "holds (node_or_new t p) T (f (node_or_new t' p))"
  shows "tree_holds t (S(p := T)) (insert_at f t' p)"
proof -
  have "users (node_or_new (insert_at f t' p) q) = users (if q = p then f (node_or_new t' p) else node_or_new t' q)"
    "groups (node_or_new (insert_at f t' p) q) = groups (if q = p then f (node_or_new t' p) else node_or_new t' q)" for q
    by (simp_all add: node_view_or_new node_view_insert_at [OF assms(2)])
  with assms(1,3) show ?thesis by (auto simp: tree_holds_def holds_def)
qed

lemma storable_node_at:
  "node_at t p = Some n \<Longrightarrow> storable env conf t \<Longrightarrow> node_wf conf t \<Longrightarrow>
     storable env conf n \<and> clean_path p \<and> list_all (\<lambda>c. CHR '':'' \<notin> set c \<and> CHR 0x0A \<notin> set c) p"
proof (induction t p rule: node_at.induct)
  case (2 t c cs)
  obtain us gs ch where t: "t = AclTreeNode us gs ch" by (cases t)
  obtain m where m: "bm_get ch c = Some m" "node_at m cs = Some n" using 2(2) by (auto simp: t split: option.splits)
  have "(c, m) \<in> set ch" using m(1) by (rule bm_get_SomeD)
  then have c: "storable env conf m" "node_wf conf m" "c \<noteq> []" "CHR ''/'' \<notin> set c" "CHR '':'' \<notin> set c" "CHR 0x0A \<notin> set c"
    using 2(3,4) by (auto simp: t list_all_iff)
  have "bm_get (children t) c = Some m" using m(1) by (simp add: t)
  from 2(1) [OF this m(2) c(1,2)] c(3-) show ?case by (simp add: clean_path_def)
qed (simp add: clean_path_def)

definition item_in :: "acl_node \<Rightarrow> string list \<times> bool \<times> string \<times> string list \<Rightarrow> bool" where
  "item_in t = (\<lambda>(p, flag, k, rs). \<exists>n. node_at t p = Some n \<and> (k, rs) \<in> set (written_items flag n))"

fun item_pairs :: "string list \<times> bool \<times> string \<times> string list \<Rightarrow> (string \<times> string) set" where
  "item_pairs (p, flag, k, rs) = set (map trim (split_on CHR '','' k)) \<times> set rs"

lemma read_item:
  assumes "node_wf conf t" "storable env conf t" "item_in t i" "tree_holds t S t'"
  shows "\<exists>t''. parse_acl_line env conf t' (item_line conf i) = Inr t'' \<and>
      tree_holds t (S(fst i := S (fst i) \<union> item_pairs i)) t'' \<and> CHR 0x0A \<notin> set (item_line conf i) \<and>
      plain_byte (last (item_line conf i))"
proof -
  obtain p flag k rs where i: "i = (p, flag, k, rs)" by (cases i)
  from assms(3) obtain n where n: "node_at t p = Some n" "(k, rs) \<in> set (written_items flag n)" by (auto simp: item_in_def i)
  note st = storable_node_at [OF n(1) assms(2,1)]
  have wf: "node_wf conf n" by (rule node_wf_node_at [OF assms(1) n(1)])
  obtain ugs where ugs: "ugs \<noteq> []" "rs \<noteq> []" "k = fold_comma ugs" "\<forall>ug \<in> set ugs. \<forall>r \<in> set rs. has_entry n flag ug r"
    using written_items_sound [OF conjunct1 [OF st] n(2)] by blast
  note rw = roles_written_set [OF wf conjunct1 [OF st] n(2)]
  let ?rs = "roles_written conf rs"
  have "?rs \<noteq> []" using rw(1) ugs(2) by (metis set_empty)
  have words: "word_ok ug \<and> ug_valid env ug" if "ug \<in> set ugs" for ug
    using storable_entry [OF conjunct1 [OF st], of flag ug "hd rs"] ugs that by (auto simp: ug_valid_def)
  have roles: "role_ok conf r" if "r \<in> set ?rs" for r
    using storable_entry(2) [OF conjunct1 [OF st], of flag "hd ugs" r] ugs that unfolding rw(1) by auto
  have "parse_acl_line env conf t' (item_line conf i) = Inr (insert_at (add_line env conf flag ugs ?rs) t' p)"
    unfolding i by (rule parse_item_line) (use st words roles ugs \<open>?rs \<noteq> []\<close> rw in \<open>auto simp: list_all_iff\<close>)
  moreover have "tree_holds t (S(p := S p \<union> item_pairs i)) (insert_at (add_line env conf flag ugs ?rs) t' p)"
  proof (rule tree_holds_insert [OF assms(4) keeps_children_add_line])
    have "node_or_new t p = n" using n(1) by (simp add: node_or_new_def)
    moreover have "holds (node_or_new t p) (S p) (node_or_new t' p)" using assms(4) by (simp add: tree_holds_def)
    moreover have "item_pairs i = set ugs \<times> set ?rs"
      using words_comma(1) [OF ugs(1)] words by (simp add: i ugs(3) rw(1))
    ultimately show "holds (node_or_new t p) (S p \<union> item_pairs i) (add_line env conf flag ugs ?rs (node_or_new t' p))"
      using holds_add_line [OF wf conjunct1 [OF st], of ugs ?rs flag "S p" "node_or_new t' p"] ugs(4) rw(1) by auto
  qed
  moreover have "CHR 0x0A \<notin> set (item_line conf i)"
  proof -
    have "CHR 0x0A \<notin> set (fold_comma ugs)" "CHR 0x0A \<notin> set (fold_comma ?rs)"
      using words_comma(3) [OF ugs(1)] words words_comma(3) [OF \<open>?rs \<noteq> []\<close>] roles by (auto simp: role_ok_def)
    then show ?thesis using st by (auto simp: i item_line_def rw(2) ugs(3) path_text_def list_all_iff)
  qed
  moreover have "plain_byte (last (item_line conf i))"
  proof -
    have last: "join '','' xs \<noteq> [] \<and> plain_byte (last (join '','' xs))"
      if "xs \<noteq> []" "\<forall>x \<in> set xs. x \<noteq> [] \<and> plain_byte (last x)" for xs
      using that by (induction "'',''" xs rule: join.induct) auto
    have "fold_comma ?rs = join '','' ?rs" by (rule fold_comma_join) (use roles in \<open>auto simp: role_ok_def word_ok_def\<close>)
    moreover have "fold_comma ?rs \<noteq> []" using words_comma(4) [OF \<open>?rs \<noteq> []\<close>] roles by (simp add: role_ok_def)
    ultimately show ?thesis
      using last [OF \<open>?rs \<noteq> []\<close>] roles by (auto simp: i item_line_def rw(2) role_ok_def word_ok_def)
  qed
  ultimately show ?thesis by (auto simp: i)
qed

lemma read_items:
  assumes "node_wf conf t" "storable env conf t" "\<And>i. i \<in> set items \<Longrightarrow> item_in t i" "tree_holds t S t'"
  shows "\<exists>t''. parse_lines env conf nr (map strip_cr (map (item_line conf) items)) t' = Inr t'' \<and>
      tree_holds t (\<lambda>p. S p \<union> (\<Union>i \<in> {i \<in> set items. fst i = p}. item_pairs i)) t''"
  using assms(3,4)
proof (induction items arbitrary: S t' nr)
  case (Cons i items)
  obtain u where u: "parse_acl_line env conf t' (item_line conf i) = Inr u"
    "tree_holds t (S(fst i := S (fst i) \<union> item_pairs i)) u" "plain_byte (last (item_line conf i))"
    using read_item [OF assms(1,2) _ Cons.prems(2), of i] Cons.prems(1) by auto
  have "last (item_line conf i) \<noteq> char_of (13 :: nat)" using u(3) by (auto simp: plain_byte_def)
  then have line: "trim (strip_cr (item_line conf i)) = item_line conf i" "item_line conf i \<noteq> []"
    using u(3) by (auto simp: strip_cr_def item_line_def plain_byte_def split: prod.splits intro!: trim_plain)
  obtain w where w: "parse_lines env conf (nr + 1) (map strip_cr (map (item_line conf) items)) u = Inr w"
    "tree_holds t (\<lambda>p. (S(fst i := S (fst i) \<union> item_pairs i)) p \<union> (\<Union>j \<in> {j \<in> set items. fst j = p}. item_pairs j)) w"
    using Cons.IH [OF Cons.prems(1) u(2)] by auto
  have "(\<lambda>p. (S(fst i := S (fst i) \<union> item_pairs i)) p \<union> (\<Union>j \<in> {j \<in> set items. fst j = p}. item_pairs j)) =
      (\<lambda>p. S p \<union> (\<Union>j \<in> {j \<in> set (i # items). fst j = p}. item_pairs j))"
    by (rule ext) (auto simp del: item_pairs.simps)
  with w(2) have "tree_holds t (\<lambda>p. S p \<union> (\<Union>j \<in> {j \<in> set (i # items). fst j = p}. item_pairs j)) w" by simp
  then show ?case using w(1) u(1) line by (simp add: Let_def)
qed simp

lemma newline_char: "char_of (10 :: nat) = CHR 0x0A"
  by code_simp

lemma items_cover:
  assumes "node_wf conf t" "storable env conf t"
  shows "(\<Union>i \<in> {i \<in> set (tree_items t []). fst i = p}. item_pairs i) = {(ug, r). \<exists>flag. has_entry (node_or_new t p) flag ug r}"
    (is "?S = ?E")
proof -
  have items: "(p, flag, k, rs) \<in> set (tree_items t []) \<longleftrightarrow> (\<exists>n. node_at t p = Some n \<and> (k, rs) \<in> set (written_items flag n))" for flag k rs
    using tree_items_iff [OF assms(1), where p = "[]"] by simp
  have "?S \<subseteq> ?E"
  proof clarify
    fix ug r i
    assume i: "(ug, r) \<in> item_pairs i" "i \<in> set (tree_items t [])" "p = fst i"
    then obtain flag k rs n where n: "i = (p, flag, k, rs)" "node_at t p = Some n" "(k, rs) \<in> set (written_items flag n)"
      using items by (cases i) auto
    note st = conjunct1 [OF storable_node_at [OF n(2) assms(2,1)]]
    obtain ugs where ugs: "ugs \<noteq> []" "rs \<noteq> []" "k = fold_comma ugs" "\<forall>ug \<in> set ugs. \<forall>r \<in> set rs. has_entry n flag ug r"
      using written_items_sound [OF st n(3)] by blast
    have "word_ok u" if "u \<in> set ugs" for u using storable_entry(1) [OF st, of flag u "hd rs"] ugs that by simp
    then have "ug \<in> set ugs" "r \<in> set rs" using i(1) words_comma(1) [OF ugs(1)] by (simp_all add: n(1) ugs(3))
    with ugs(4) show "\<exists>flag. has_entry (node_or_new t (fst i)) flag ug r" using n(2) i(3) by (auto simp: node_or_new_def)
  qed
  moreover have "?E \<subseteq> ?S"
  proof clarify
    fix ug r flag
    assume e: "has_entry (node_or_new t p) flag ug r"
    obtain n where n: "node_at t p = Some n"
      using e by (cases "node_at t p") (auto simp: node_or_new_def has_entry_def acl_node_new_def)
    note st = conjunct1 [OF storable_node_at [OF n assms(2,1)]]
    obtain k rs ugs where k: "(k, rs) \<in> set (written_items flag n)" "k = fold_comma ugs" "ug \<in> set ugs" "r \<in> set rs" "\<forall>u \<in> set ugs. word_ok u"
      using written_items_complete [OF st, of flag ug r] e by (auto simp: n node_or_new_def)
    then have "(p, flag, k, rs) \<in> set (tree_items t [])" using items n by blast
    moreover have "(ug, r) \<in> item_pairs (p, flag, k, rs)" using words_comma(1) [of ugs] k by (cases "ugs = []") auto
    ultimately show "(ug, r) \<in> ?S" by (force simp del: item_pairs.simps)
  qed
  ultimately show ?thesis by blast
qed

lemma holds_all:
  assumes "node_wf conf n" "storable env conf n" "holds n {(ug, r). \<exists>flag. has_entry n flag ug r} n'"
  shows "entry_of (users n') a r = (if is_root a then None else entry_of (users n) a r)"
    and "entry_of (groups n') g r = entry_of (groups n) g r"
proof -
  obtain us gs ch where n: "n = AclTreeNode us gs ch" by (cases n)
  have ids: "hd (authid_display b) \<noteq> CHR ''@''" "authid_from_str env (authid_display b) = Inr b" if "(b, m) \<in> set us" for b m
    using assms(2) that by (auto simp: n list_all_iff id_ok_def)
  have some: "\<exists>m. (k, m) \<in> set l \<and> (r, flag) \<in> set m" if "entry_of l k r = Some flag" for l :: "('k \<times> role_map) list" and k flag
    using that by (cases "hm_get l k") (auto simp: entry_of_def dest!: hm_get_SomeD)
  note h = assms(3) [unfolded holds_def mem_Collect_eq prod.case]
  show "entry_of (groups n') g r = entry_of (groups n) g r"
  proof (cases "entry_of (groups n) g r")
    case None
    then show ?thesis using h by simp
  next
    case (Some flag)
    then have "has_entry n flag (CHR ''@'' # g) r" using some [OF Some] unfolding has_entry_def by blast
    then show ?thesis using h by auto
  qed
  have root: "\<not> has_entry n flag (authid_display a) r" if ra: "is_root a" and er: "entry_of us a r \<noteq> None" for flag
  proof
    assume e: "has_entry n flag (authid_display a) r"
    obtain m where a: "(a, m) \<in> set us" using some [of us a] er by blast
    obtain b m' where b: "(b, m') \<in> set us" "\<not> is_root b" "authid_display a = authid_display b"
      using e ids(1) [OF a] unfolding has_entry_def n acl_node.sel by (elim disjE exE conjE) auto
    have "a = b" using ids(2) [OF a, unfolded b(3)] ids(2) [OF b(1)] by simp
    with b(2) ra show False by simp
  qed
  show "entry_of (users n') a r = (if is_root a then None else entry_of (users n) a r)"
  proof (cases "entry_of us a r")
    case None
    then show ?thesis using h by (simp add: n)
  next
    case (Some flag)
    show ?thesis
    proof (cases "is_root a")
      case True
      then show ?thesis using h root Some by (simp add: n)
    next
      case False
      then have "has_entry n flag (authid_display a) r" using some [OF Some] unfolding has_entry_def n acl_node.sel by blast
      then show ?thesis using h False by (auto simp: n)
    qed
  qed
qed

text \<open>C11: A tree is read back from the text that is written for it: the parser accepts the text, and the
  table of the tree it returns has the same entries, except those of the user root, which are not written.
  This holds for every tree that satisfies the invariant of reachable trees and whose paths, ids and
  roles the format can hold: no separator or line feed in a name, and ids that are their own parse.\<close>

theorem acl_file_roundtrip:
  assumes "node_wf conf t" and "storable env conf t"
  shows "\<exists>t'. from_raw env conf (write_config conf t) = Inr t' \<and>
    (\<forall>p a r. acl_entry t' p a r = (if is_root a then None else acl_entry t p a r)) \<and>
    (\<forall>p g r. acl_group_entry t' p g r = acl_group_entry t p g r)"
proof -
  let ?items = "tree_items t []"
  have items: "item_in t i" if "i \<in> set ?items" for i
  proof -
    obtain p flag k rs where "i = (p, flag, k, rs)" by (rule prod_cases4)
    then show ?thesis using that tree_items_iff [OF assms(1), where p = "[]"] by (simp add: item_in_def)
  qed
  have start: "tree_holds t (\<lambda>_. {}) acl_node_new"
    by (simp add: tree_holds_def holds_def acl_entry_of [symmetric]) (simp add: acl_entry_def acl_group_entry_def)
  obtain t' where t': "parse_lines env conf 0 (map strip_cr (map (item_line conf) ?items)) acl_node_new = Inr t'"
    and h: "tree_holds t (\<lambda>p. {} \<union> (\<Union>i \<in> {i \<in> set ?items. fst i = p}. item_pairs i)) t'"
    using read_items [OF assms, of ?items, OF items start] by blast
  have "CHR 0x0A \<notin> set (item_line conf i)" if "i \<in> set ?items" for i
    using read_item [OF assms items [OF that] start] by blast
  then have "lines (concat (map (\<lambda>l. l @ [CHR 0x0A]) (map (item_line conf) ?items))) = map strip_cr (map (item_line conf) ?items)"
    by (intro lines_join_newline [unfolded newline_char]) auto
  then have "from_raw env conf (write_config conf t) = Inr t'"
    using t' write_node_config_items [of "[]" conf t, OF _ assms(1)]
    by (simp add: from_raw_def write_config_def path_text_def comp_def)
  moreover have "acl_entry t' p a r = (if is_root a then None else acl_entry t p a r) \<and>
      acl_group_entry t' p g r = acl_group_entry t p g r" for p a g r
  proof -
    have "node_wf conf (node_or_new t p)" "storable env conf (node_or_new t p)"
      using node_wf_node_at [OF assms(1)] storable_node_at [OF _ assms(2,1)]
      by (auto simp: node_or_new_def acl_node_new_def split: option.split)
    moreover have "holds (node_or_new t p) {(ug, r). \<exists>flag. has_entry (node_or_new t p) flag ug r} (node_or_new t' p)"
      using h by (simp only: tree_holds_def items_cover [OF assms] Un_empty_left)
    ultimately show ?thesis unfolding acl_entry_of by (blast intro: holds_all)
  qed
  ultimately show ?thesis by blast
qed

definition stored_tree :: acl_node where
  "stored_tree =
     insert_group_role test_acm_config
       (insert_user_role test_acm_config acl_node_new ''/store/a'' user1 ''Admin'' True) ''/'' ''ops'' ''NoAccess'' False"

theorem acl_file_roundtrip_witness:
  "storable id_env test_acm_config stored_tree \<and>
   (\<exists>t'. from_raw id_env test_acm_config (write_config test_acm_config stored_tree) = Inr t' \<and>
      acl_entry t' [''store'', ''a''] user1 ''Admin'' = Some True \<and> acl_group_entry t' [] ''ops'' ''NoAccess'' = Some False)"
proof -
  have "acl_reachable id_env test_acm_config stored_tree" unfolding stored_tree_def
    by (rule acl_insert_group, rule acl_insert_user, rule acl_new)
  then have wf: "node_wf test_acm_config stored_tree" by (rule acl_reachable_node_wf)
  have st: "storable id_env test_acm_config stored_tree" by code_simp
  have e: "acl_entry stored_tree [''store'', ''a''] user1 ''Admin'' = Some True"
    "acl_group_entry stored_tree [] ''ops'' ''NoAccess'' = Some False" "\<not> is_root user1" by code_simp+
  obtain t' where "from_raw id_env test_acm_config (write_config test_acm_config stored_tree) = Inr t'"
    "\<forall>p a r. acl_entry t' p a r = (if is_root a then None else acl_entry stored_tree p a r)"
    "\<forall>p g r. acl_group_entry t' p g r = acl_group_entry stored_tree p g r"
    using acl_file_roundtrip [OF wf st] by blast
  with st e show ?thesis by simp
qed

end
