(* ===== verification/Section_Typed.thy ===== *)
theory Section_Typed
  imports Section_Props
begin

text \<open>
  Typed section configurations (\<open>proxmox-section-config/src/typed.rs\<close>): the conversion between raw and typed
  entries and the ordered map \<open>SectionConfigData<T>\<close>. The serialisation of the entry type is a parameter.
\<close>

section \<open>Entries\<close>

definition from_value ::
  "bool \<Rightarrow> string option \<Rightarrow> (json \<Rightarrow> (error, 'a) result) \<Rightarrow> string \<Rightarrow> json \<Rightarrow> (error, 'a) result" where
  "from_value uses_type_key internally_tagged deserialize ty v =
     (if uses_type_key then deserialize v
      else
        (case internally_tagged of
           Some tag \<Rightarrow>
             (case v of
                JObject m \<Rightarrow> deserialize (JObject (bm_insert tag (JString ty) m))
              | _ \<Rightarrow> Inl (Msg ''cannot add type property to non-object''))
         | None \<Rightarrow> deserialize (JObject [(ty, v)])))"

definition to_pair :: "json \<Rightarrow> string option \<Rightarrow> bool \<Rightarrow> (error, string \<times> json) result" where
  "to_pair v tag strip_tag =
     (case v of
        JObject m \<Rightarrow>
          (case tag of
             Some tag \<Rightarrow>
               (case bm_get m tag of
                  None \<Rightarrow> Inl (Msg ''tag missing in object'')
                | Some (JString i) \<Rightarrow> Inr (i, JObject (if strip_tag then bm_remove tag m else m))
                | Some _ \<Rightarrow> Inl (Msg ''tag has invalid value (not a string)''))
           | None \<Rightarrow>
               (case m of [(k, x)] \<Rightarrow> Inr (k, x) | _ \<Rightarrow> Inl (Msg ''unexpected serialization method'')))
      | _ \<Rightarrow> Inl (Msg ''unexpected serialization method''))"

definition into_pair ::
  "bool \<Rightarrow> string option \<Rightarrow> ('a \<Rightarrow> (error, json) result) \<Rightarrow> 'a \<Rightarrow> (error, string \<times> json) result" where
  "into_pair uses_type_key internally_tagged serialize x =
     and_then (serialize x) (\<lambda>v. to_pair v internally_tagged (\<not> uses_type_key))"

lemma bm_remove_insert_new: "bm_get m k = None \<Longrightarrow> bm_remove k (bm_insert k v m) = m"
proof (induction m)
  case (Cons x m)
  obtain a b where x: "x = (a, b)" by (cases x)
  have "filter (\<lambda>(k', _). k' \<noteq> k) m = m" if "bm_get m k = None"
    using that by (induction m) (auto simp: bm_get_Cons split: if_splits)
  with Cons x show ?case by (auto simp: bm_remove_def bm_get_Cons split: if_splits)
qed (simp add: bm_remove_def)

text \<open>If serialising undoes deserialising, a raw section that converts to a typed entry converts back to the
  same type and value. For internally tagged entries the section must not already have the tag as a property;
  when the section configuration keeps the type key, it must hold the type.\<close>

theorem typed_entry_roundtrip:
  assumes "from_value utk tag deserialize ty v = Inr x"
    and serde: "\<And>w y. deserialize w = Inr y \<Longrightarrow> serialize y = Inr w"
    and "\<And>t m. tag = Some t \<Longrightarrow> v = JObject m \<Longrightarrow> bm_get m t = (if utk then Some (JString ty) else None)"
    and "utk \<Longrightarrow> tag \<noteq> None \<and> (\<exists>m. v = JObject m)"
  shows "into_pair utk tag serialize x = Inr (ty, v)"
proof (cases utk)
  case True
  with assms(4) obtain t m where "tag = Some t" "v = JObject m" by auto
  with True assms(1) assms(3) [of t m] serde [of v x] show ?thesis
    by (simp add: from_value_def into_pair_def to_pair_def)
next
  case False
  show ?thesis
  proof (cases tag)
    case None
    with False assms(1) serde [of "JObject [(ty, v)]" x] show ?thesis
      by (simp add: from_value_def into_pair_def to_pair_def)
  next
    case (Some t)
    with False assms(1) obtain m where m: "v = JObject m"
      and x: "deserialize (JObject (bm_insert t (JString ty) m)) = Inr x"
      by (cases v) (auto simp: from_value_def)
    with False Some assms(3) [of t m] serde [OF x] show ?thesis
      by (simp add: into_pair_def to_pair_def bm_remove_insert_new)
  qed
qed

theorem typed_entry_roundtrip_witness:
  "into_pair False (Some ''type'') (\<lambda>v. Inr v) (JObject [(''a'', JInt 1), (''type'', JString ''x'')]) =
   Inr (''x'', JObject [(''a'', JInt 1)])"
proof (rule typed_entry_roundtrip [where deserialize = "\<lambda>v. Inr v"])
  show "from_value False (Some ''type'') (\<lambda>v. Inr v) ''x'' (JObject [(''a'', JInt 1)]) =
      Inr (JObject [(''a'', JInt 1), (''type'', JString ''x'')])" by code_simp
qed (auto simp: bm_get_def)

section \<open>The ordered map\<close>

record 'a typed_data =
  t_sections :: "(string, 'a) hash_map"
  t_order :: "string list"

definition typed_new :: "'a typed_data" where
  "typed_new = \<lparr>t_sections = [], t_order = []\<rparr>"

definition typed_insert :: "string \<Rightarrow> 'a \<Rightarrow> 'a typed_data \<Rightarrow> 'a option \<times> 'a typed_data" where
  "typed_insert key v d =
     (let previous = hm_get (t_sections d) key;
          d1 = d\<lparr>t_sections := hm_insert key v (t_sections d)\<rparr>
      in (previous, if previous = None then d1\<lparr>t_order := t_order d1 @ [key]\<rparr> else d1))"

text \<open>\<open>Vec::remove\<close> at the first position of the key.\<close>

definition typed_remove :: "string \<Rightarrow> 'a typed_data \<Rightarrow> 'a option \<times> 'a typed_data" where
  "typed_remove key d =
     (let removed = hm_get (t_sections d) key;
          d1 = d\<lparr>t_sections := hm_remove key (t_sections d)\<rparr>
      in (removed, if removed \<noteq> None then d1\<lparr>t_order := remove1 key (t_order d1)\<rparr> else d1))"

text \<open>The two iterators: by reference, and consuming the map.\<close>

fun typed_iter :: "(string, 'a) hash_map \<Rightarrow> string list \<Rightarrow> (string \<times> 'a) list" where
  "typed_iter m [] = []"
| "typed_iter m (i # ks) =
     (case hm_get m i of Some v \<Rightarrow> (i, v) # typed_iter m ks | None \<Rightarrow> typed_iter m ks)"

fun typed_into_iter :: "(string, 'a) hash_map \<Rightarrow> string list \<Rightarrow> (string \<times> 'a) list" where
  "typed_into_iter m [] = []"
| "typed_into_iter m (i # ks) =
     (case hm_get m i of
        Some v \<Rightarrow> (i, v) # typed_into_iter (hm_remove i m) ks
      | None \<Rightarrow> typed_into_iter (hm_remove i m) ks)"

definition typed_from_iter :: "(string \<times> 'a) list \<Rightarrow> 'a typed_data" where
  "typed_from_iter kvs =
     \<lparr>t_sections = fold (\<lambda>(k, v). hm_insert k v) kvs [], t_order = map fst kvs\<rparr>"

definition typed_from_map :: "(string, 'a) hash_map \<Rightarrow> 'a typed_data" where
  "typed_from_map m = \<lparr>t_sections = m, t_order = []\<rparr>"

definition typed_ok :: "'a typed_data \<Rightarrow> bool" where
  "typed_ok d = (hm_wf (t_sections d) \<and> distinct (t_order d) \<and> set (t_order d) = fst ` set (t_sections d))"

lemma keys_hm_remove: "fst ` set (hm_remove k m) = fst ` set m - {k}"
proof -
  have "x \<in> fst ` set n \<longleftrightarrow> hm_get n x \<noteq> None" for x and n :: "('a, 'b) hash_map"
    by (simp add: hm_get_None_iff)
  then show ?thesis by (intro set_eqI) auto
qed

lemma typed_iter_distinct:
  "distinct ks \<Longrightarrow> typed_into_iter m ks = typed_iter m ks"
proof (induction ks arbitrary: m)
  case (Cons i ks)
  have "typed_iter (hm_remove i m) js = typed_iter m js" if "i \<notin> set js" for js
    using that by (induction js) (auto split: option.split)
  with Cons show ?case by (auto split: option.split)
qed simp

lemma typed_iter_append: "typed_iter m (xs @ ys) = typed_iter m xs @ typed_iter m ys"
  by (induction xs) (auto split: option.split)

lemma typed_iter_subset: "(k, x) \<in> set (typed_iter m ks) \<Longrightarrow> k \<in> set ks"
  by (induction ks) (auto split: option.splits)

lemma typed_iter_insert:
  "hm_get m key \<noteq> None \<or> key \<notin> set ks \<Longrightarrow>
     typed_iter (hm_insert key v m) ks = map (\<lambda>(k, x). if k = key then (k, v) else (k, x)) (typed_iter m ks)"
  by (induction ks) (auto split: option.split)

lemma typed_iter_keys: "set ks \<subseteq> fst ` set m \<Longrightarrow> map fst (typed_iter m ks) = ks"
proof (induction ks)
  case (Cons k ks)
  then have "hm_get m k \<noteq> None" by (auto simp: hm_get_None_iff)
  with Cons show ?case by (auto split: option.split)
qed simp

lemma typed_iter_remove:
  "distinct ks \<Longrightarrow> typed_iter (hm_remove key m) (remove1 key ks) = filter (\<lambda>(k, _). k \<noteq> key) (typed_iter m ks)"
proof (induction ks)
  case (Cons k ks)
  have "typed_iter (hm_remove key m) js = typed_iter m js \<and> filter (\<lambda>(k, _). k \<noteq> key) (typed_iter m js) = typed_iter m js"
    if "key \<notin> set js" for js
    using that by (induction js) (auto split: option.split)
  with Cons show ?case by (auto split: option.split)
qed simp

text \<open>C20: Built by insertions and removals, the typed map keeps its invariant: the order names every section once.
  Inserting a new key appends it, inserting an existing one replaces the value in place, removing a key drops
  exactly this entry, and the consuming iterator yields the same entries as the borrowing one.\<close>

theorem typed_map_operations:
  assumes "typed_ok d"
  shows "let it = (\<lambda>d. typed_iter (t_sections d) (t_order d));
             ins = snd (typed_insert key v d); rm = snd (typed_remove key d)
         in typed_ok ins \<and> typed_ok rm \<and>
            it ins = (if hm_get (t_sections d) key = None then it d @ [(key, v)]
                      else map (\<lambda>(k, x). if k = key then (k, v) else (k, x)) (it d)) \<and>
            it rm = filter (\<lambda>(k, _). k \<noteq> key) (it d) \<and>
            typed_into_iter (t_sections d) (t_order d) = it d \<and> map fst (it d) = t_order d"
proof -
  have wf: "hm_wf (t_sections d)" "distinct (t_order d)" and keys: "set (t_order d) = fst ` set (t_sections d)"
    using assms by (auto simp: typed_ok_def)
  have none: "hm_get (t_sections d) key = None \<longleftrightarrow> key \<notin> set (t_order d)"
    by (simp add: keys hm_get_None_iff)
  have "typed_ok (snd (typed_insert key v d))"
    using wf keys none by (auto simp: typed_ok_def typed_insert_def Let_def keys_hm_insert insert_absorb)
  moreover have "typed_ok (snd (typed_remove key d))"
    using wf keys none by (auto simp: typed_ok_def typed_remove_def Let_def hm_wf_intros remove1_idem keys_hm_remove)
  moreover have "typed_iter (t_sections (snd (typed_insert key v d))) (t_order (snd (typed_insert key v d))) =
      (if hm_get (t_sections d) key = None then typed_iter (t_sections d) (t_order d) @ [(key, v)]
       else map (\<lambda>(k, x). if k = key then (k, v) else (k, x)) (typed_iter (t_sections d) (t_order d)))"
    using none typed_iter_insert [of "t_sections d" key "t_order d" v] typed_iter_keys [of "t_order d" "t_sections d"] keys
    by (auto simp: typed_insert_def Let_def typed_iter_append intro!: map_idI dest!: typed_iter_subset)
  moreover have "typed_iter (t_sections (snd (typed_remove key d))) (t_order (snd (typed_remove key d))) =
      filter (\<lambda>(k, _). k \<noteq> key) (typed_iter (t_sections d) (t_order d))"
    using typed_iter_remove [OF wf(2), of key "t_sections d"] none
    by (auto simp: typed_remove_def Let_def remove1_idem)
  ultimately show ?thesis
    using typed_iter_distinct [OF wf(2)] typed_iter_keys [of "t_order d" "t_sections d"] keys by (simp add: Let_def)
qed

theorem typed_map_operations_witness:
  "let d = \<lparr>t_sections = [(''a'', True)], t_order = [''a'']\<rparr>
   in typed_ok d \<and> typed_ok (snd (typed_insert ''b'' False d)) \<and>
      typed_iter (t_sections (snd (typed_insert ''b'' False d))) (t_order (snd (typed_insert ''b'' False d))) =
        [(''a'', True), (''b'', False)]"
proof -
  let ?d = "\<lparr>t_sections = [(''a'', True)], t_order = [''a'']\<rparr>"
  have ok: "typed_ok ?d" by (simp add: typed_ok_def hm_wf_def)
  show ?thesis using typed_map_operations [OF ok, of "''b''" False] ok by (simp add: Let_def hm_get_def)
qed

text \<open>A typed map made from an iterator with a repeated key records the key twice: the borrowing iterator
  yields the entry twice, the consuming one once, and after a removal and a new insertion of such a key the
  borrowing iterator still yields it twice.\<close>

theorem repeated_key_iterates_twice:
  "let d = typed_from_iter [(''a'', 1), (''a'', 2 :: nat)];
       d' = snd (typed_insert ''a'' 3 (snd (typed_remove ''a'' d)))
   in typed_iter (t_sections d) (t_order d) = [(''a'', 2), (''a'', 2)] \<and>
      typed_into_iter (t_sections d) (t_order d) = [(''a'', 2)] \<and>
      typed_iter (t_sections d') (t_order d') = [(''a'', 3), (''a'', 3)]"
  by code_simp

end
