(* ===== verification/Rate_Limiter.thy ===== *)
theory Rate_Limiter
  imports Prelude
begin

text \<open>
  The token bucket of \<open>proxmox-rate-limiter/src/rate_limiter.rs\<close>. An \<open>Instant\<close> is a number of nanoseconds, at
  most the largest one the platform represents; \<open>u64\<close> and \<open>u128\<close> values are natural numbers with the
  saturation of the source written out.
\<close>

section \<open>The bucket\<close>

definition u64_max :: nat where
  "u64_max = 2 ^ 64 - 1"

definition u128_max :: nat where
  "u128_max = 2 ^ 128 - 1"

definition instant_max :: nat where
  "instant_max = (2 ^ 63 - 1) * 1000000000 + 999999999"

definition sat64 :: "nat \<Rightarrow> nat" where
  "sat64 n = min n u64_max"

definition sat128 :: "nat \<Rightarrow> nat" where
  "sat128 n = min n u128_max"

definition div_ceil :: "nat \<Rightarrow> nat \<Rightarrow> nat" where
  "div_ceil a b = (a + b - 1) div b"

record tbf_state =
  traffic :: nat
  last_update :: nat
  consumed_tokens :: nat

definition refill_bucket :: "nat \<Rightarrow> nat \<Rightarrow> tbf_state \<Rightarrow> tbf_state" where
  "refill_bucket rate now s =
     (if now < last_update s then s
      else
        (let time_diff = now - last_update s;
             allowed = sat128 (time_diff * rate) div 1000000000
         in if allowed = 0 then s
            else if allowed \<ge> consumed_tokens s then s\<lparr>consumed_tokens := 0, last_update := now\<rparr>
            else
              (let used = sat64 (min (div_ceil (sat128 (allowed * 1000000000)) rate) time_diff);
                   upd = last_update s + used
               in s\<lparr>consumed_tokens := consumed_tokens s - allowed,
                    last_update := (if upd \<le> instant_max then upd else now)\<rparr>)))"

definition tbf_register_traffic :: "nat \<Rightarrow> nat \<Rightarrow> nat \<Rightarrow> nat \<Rightarrow> tbf_state \<Rightarrow> nat \<times> tbf_state" where
  "tbf_register_traffic rate bucket_size now data_len s =
     (let s1 = refill_bucket rate now s;
          s2 = s1\<lparr>traffic := sat64 (traffic s1 + data_len), consumed_tokens := sat64 (consumed_tokens s1 + data_len)\<rparr>
      in (if consumed_tokens s2 \<le> bucket_size then 0
          else if rate = 0 then 0
          else sat64 ((consumed_tokens s2 - bucket_size) * 1000000000) div rate, s2))"

record rate_limiter =
  rate :: nat
  bucket_size :: nat
  state :: tbf_state

definition with_start_time :: "nat \<Rightarrow> nat \<Rightarrow> nat \<Rightarrow> rate_limiter" where
  "with_start_time r b start =
     \<lparr>rate = r, bucket_size = b, state = \<lparr>traffic = 0, last_update = start, consumed_tokens = b\<rparr>\<rparr>"

definition update_rate :: "nat \<Rightarrow> nat \<Rightarrow> rate_limiter \<Rightarrow> rate_limiter" where
  "update_rate r b l =
     (let st = state l;
          st' = (if b < bucket_size l \<and> consumed_tokens st > b then st\<lparr>consumed_tokens := b\<rparr> else st)
      in \<lparr>rate = r, bucket_size = b, state = st'\<rparr>)"

definition register_traffic :: "nat \<Rightarrow> nat \<Rightarrow> rate_limiter \<Rightarrow> nat \<times> rate_limiter" where
  "register_traffic now data_len l =
     (case tbf_register_traffic (rate l) (bucket_size l) now data_len (state l) of
        (d, st) \<Rightarrow> (d, l\<lparr>state := st\<rparr>))"

section \<open>Groups\<close>

record rate_limiter_vec =
  v_rate :: nat
  v_bucket_size :: nat
  v_state :: "tbf_state list"

definition vec_with_start_time :: "nat \<Rightarrow> nat \<Rightarrow> nat \<Rightarrow> nat \<Rightarrow> rate_limiter_vec" where
  "vec_with_start_time group_size r b start =
     \<lparr>v_rate = r, v_bucket_size = b,
      v_state = replicate group_size \<lparr>traffic = 0, last_update = start, consumed_tokens = b\<rparr>\<rparr>"

definition vec_traffic :: "nat \<Rightarrow> rate_limiter_vec \<Rightarrow> (string, nat) result" where
  "vec_traffic i v =
     (if i \<ge> length (v_state v) then Inl ''RateLimiterVec::traffic - index out of range''
      else Inr (traffic (v_state v ! i)))"

definition vec_register_traffic :: "nat \<Rightarrow> nat \<Rightarrow> nat \<Rightarrow> rate_limiter_vec \<Rightarrow> (string, nat \<times> rate_limiter_vec) result" where
  "vec_register_traffic i now data_len v =
     (if i \<ge> length (v_state v) then Inl ''RateLimiterVec::register_traffic - index out of range''
      else
        (case tbf_register_traffic (v_rate v) (v_bucket_size v) now data_len (v_state v ! i) of
           (d, st) \<Rightarrow> Inr (d, v\<lparr>v_state := (v_state v)[i := st]\<rparr>)))"

section \<open>Accounting\<close>

lemma div_ceil_upper: "0 < b \<Longrightarrow> a \<le> div_ceil a b * b"
proof -
  assume b: "0 < b"
  have "a + b - 1 < ((a + b - 1) div b + 1) * b"
    using b by (metis Suc_eq_plus1 dividend_less_div_times mult.commute mult_Suc_right add.commute)
  with b show ?thesis unfolding div_ceil_def by simp
qed

lemma div_ceil_least: "0 < b \<Longrightarrow> a \<le> k * b \<Longrightarrow> div_ceil a b \<le> k"
proof -
  assume b: "0 < b" and "a \<le> k * b"
  then have "(a + b - 1) div b < k + 1"
    by (subst div_less_iff_less_mult) auto
  then show ?thesis by (simp add: div_ceil_def)
qed

text \<open>What one refill takes from the debt is paid for by the time it accounts for.\<close>

lemma refill_accounting:
  fixes r now :: nat and s :: tbf_state
  assumes "now \<le> instant_max" and "now \<le> last_update s + u64_max" and "consumed_tokens s \<le> u64_max"
  defines "s' \<equiv> refill_bucket r now s"
  shows "consumed_tokens s' \<le> consumed_tokens s \<and> last_update s \<le> last_update s' \<and>
         last_update s' \<le> max now (last_update s) \<and> traffic s' = traffic s \<and>
         (consumed_tokens s - consumed_tokens s') * 1000000000 \<le> r * (last_update s' - last_update s)"
proof (cases "now < last_update s")
  case True
  then have "s' = s" by (simp add: s'_def refill_bucket_def)
  then show ?thesis by simp
next
  case False
  let ?d = "now - last_update s"
  define A where "A = sat128 (?d * r) div 1000000000"
  have A: "A * 1000000000 \<le> ?d * r"
  proof -
    have "A * 1000000000 \<le> sat128 (?d * r)" unfolding A_def by simp
    also have "\<dots> \<le> ?d * r" by (simp add: sat128_def)
    finally show ?thesis .
  qed
  have def: "s' = (if A = 0 then s
            else if A \<ge> consumed_tokens s then s\<lparr>consumed_tokens := 0, last_update := now\<rparr>
            else
              (let used = sat64 (min (div_ceil (sat128 (A * 1000000000)) r) ?d);
                   upd = last_update s + used
               in s\<lparr>consumed_tokens := consumed_tokens s - A,
                    last_update := (if upd \<le> instant_max then upd else now)\<rparr>))"
    using False unfolding s'_def refill_bucket_def Let_def A_def by simp
  consider "A = 0" | "A \<noteq> 0" "A \<ge> consumed_tokens s" | "A \<noteq> 0" "A < consumed_tokens s" by linarith
  then show ?thesis
  proof cases
    case 1
    then show ?thesis using False by (simp add: def)
  next
    case 2
    then have "consumed_tokens s * 1000000000 \<le> ?d * r" using A by (meson le_trans mult_le_mono1)
    with 2 show ?thesis using False by (simp add: def mult.commute)
  next
    case 3
    have r: "0 < r" using A 3(1) by (cases r) auto
    have small: "A * 1000000000 \<le> u128_max"
    proof -
      have "A * 1000000000 \<le> u64_max * 1000000000" using 3(2) assms(3) by simp
      also have "\<dots> \<le> u128_max" by (simp add: u64_max_def u128_max_def)
      finally show ?thesis .
    qed
    define used where "used = div_ceil (A * 1000000000) r"
    have used: "A * 1000000000 \<le> used * r" "used \<le> ?d"
      using div_ceil_upper [OF r] div_ceil_least [OF r] A by (auto simp: used_def)
    have "sat64 (min (div_ceil (sat128 (A * 1000000000)) r) ?d) = used"
      using used(2) small assms(2) by (simp add: sat64_def sat128_def used_def)
    moreover have "last_update s + used \<le> now" using used(2) False by simp
    ultimately have "s' = s\<lparr>consumed_tokens := consumed_tokens s - A, last_update := last_update s + used\<rparr>"
      using 3 assms(1) by (simp add: def Let_def)
    with used 3 \<open>last_update s + used \<le> now\<close> show ?thesis by (simp add: mult.commute)
  qed
qed

text \<open>One registration adds its length to the debt that the refill left.\<close>

lemma register_accounting:
  assumes "now \<le> instant_max" "now \<le> last_update s + u64_max" "consumed_tokens s + n \<le> u64_max" "traffic s + n \<le> u64_max"
    and reg: "tbf_register_traffic r b now n s = (d, s')"
  shows "consumed_tokens s' \<le> consumed_tokens s + n" "last_update s \<le> last_update s'"
    "last_update s' \<le> max now (last_update s)" "traffic s' = traffic s + n"
    "(consumed_tokens s + n - consumed_tokens s') * 1000000000 \<le> r * (last_update s' - last_update s)"
    "d = (if consumed_tokens s' \<le> b \<or> r = 0 then 0 else sat64 ((consumed_tokens s' - b) * 1000000000) div r)"
proof -
  let ?s1 = "refill_bucket r now s"
  note refill = refill_accounting [of now s r]
  have le: "consumed_tokens ?s1 \<le> consumed_tokens s" and tr: "traffic ?s1 = traffic s"
    using refill assms by auto
  have s': "s' = ?s1\<lparr>traffic := traffic s + n, consumed_tokens := consumed_tokens ?s1 + n\<rparr>"
    using reg le tr assms(3,4) by (auto simp: tbf_register_traffic_def Let_def sat64_def)
  show "consumed_tokens s' \<le> consumed_tokens s + n" "last_update s \<le> last_update s'"
    "last_update s' \<le> max now (last_update s)" "traffic s' = traffic s + n"
    "(consumed_tokens s + n - consumed_tokens s') * 1000000000 \<le> r * (last_update s' - last_update s)"
    using refill assms by (auto simp: s')
  show "d = (if consumed_tokens s' \<le> b \<or> r = 0 then 0 else sat64 ((consumed_tokens s' - b) * 1000000000) div r)"
    using reg by (auto simp: tbf_register_traffic_def Let_def)
qed

text \<open>The delay covers the debt beyond the bucket, up to the nanosecond its division drops.\<close>

lemma delay_covers_excess:
  assumes "0 < r" "excess * 1000000000 \<le> u64_max"
  shows "excess * 1000000000 < r * (sat64 (excess * 1000000000) div r + 1)"
proof -
  have "excess * 1000000000 < (excess * 1000000000 div r + 1) * r"
    using assms(1) by (metis Suc_eq_plus1 dividend_less_div_times mult.commute mult_Suc_right add.commute)
  with assms(2) show ?thesis by (simp add: sat64_def mult.commute)
qed

text \<open>Waiting for one nanosecond more than the delay pays that debt off.\<close>

lemma refill_after_delay:
  assumes "0 < r" "last_update s \<le> now" "(consumed_tokens s - b) * 1000000000 \<le> r * (now - last_update s)"
    and "(consumed_tokens s - b) * 1000000000 \<le> u128_max"
  shows "consumed_tokens (refill_bucket r now s) \<le> b"
proof -
  define A where "A = sat128 ((now - last_update s) * r) div 1000000000"
  have "(consumed_tokens s - b) * 1000000000 \<le> sat128 ((now - last_update s) * r)"
    using assms(3,4) by (simp add: sat128_def mult.commute)
  then have A: "consumed_tokens s - b \<le> A"
    unfolding A_def by (simp add: less_eq_div_iff_mult_less_eq)
  have "consumed_tokens (refill_bucket r now s) \<le> consumed_tokens s - A"
    using assms(2) unfolding refill_bucket_def Let_def A_def by (simp add: not_less)
  with A show ?thesis by simp
qed

section \<open>The interface\<close>

text \<open>A sequence of registrations, each a time and a length; the result is the delay of the last one.\<close>

definition register_all :: "(nat \<Rightarrow> nat \<Rightarrow> 's \<Rightarrow> nat \<times> 's) \<Rightarrow> (nat \<times> nat) list \<Rightarrow> 's \<Rightarrow> nat \<times> 's" where
  "register_all reg calls s = fold (\<lambda>(t, n) (d, s). reg t n s) calls (0, s)"

lemma register_all_snoc:
  "register_all reg (calls @ [(t, n)]) s = (case register_all reg calls s of (d, s') \<Rightarrow> reg t n s')"
  by (simp add: register_all_def)

definition total_len :: "(nat \<times> nat) list \<Rightarrow> nat" where
  "total_len calls = (\<Sum>(t, n)\<leftarrow>calls. n)"

lemma total_len_simps [simp]: "total_len [] = 0" "total_len (calls @ [(t, n)]) = total_len calls + n"
  by (simp_all add: total_len_def)

text \<open>
  What the users of a limiter rely on: a registration acts on the limiter's bucket with its own rate and bucket size,
  which it keeps. A single limiter and every entry of a group are instances.
\<close>

locale rate_limit =
  fixes reg :: "nat \<Rightarrow> nat \<Rightarrow> 's \<Rightarrow> nat \<times> 's"
    and bucket :: "'s \<Rightarrow> tbf_state"
    and tokens cap :: "'s \<Rightarrow> nat"
    and ok :: "'s \<Rightarrow> bool"
  assumes reg_bucket: "ok s \<Longrightarrow> reg t n s = (d, s') \<Longrightarrow>
      tbf_register_traffic (tokens s) (cap s) t n (bucket s) = (d, bucket s')"
    and reg_config: "ok s \<Longrightarrow> reg t n s = (d, s') \<Longrightarrow> tokens s' = tokens s \<and> cap s' = cap s \<and> ok s'"
begin

lemma run_accounting:
  assumes "ok s" "\<forall>(t, n) \<in> set calls. t \<le> T" "last_update (bucket s) \<le> T" "T \<le> instant_max"
    and "T \<le> last_update (bucket s) + u64_max"
    and "consumed_tokens (bucket s) + total_len calls \<le> u64_max" "traffic (bucket s) + total_len calls \<le> u64_max"
    and "register_all reg calls s = (d, s')"
  shows "ok s' \<and> tokens s' = tokens s \<and> cap s' = cap s \<and>
    consumed_tokens (bucket s') \<le> consumed_tokens (bucket s) + total_len calls \<and>
    last_update (bucket s) \<le> last_update (bucket s') \<and> last_update (bucket s') \<le> T \<and>
    traffic (bucket s') = traffic (bucket s) + total_len calls \<and>
    (consumed_tokens (bucket s) + total_len calls - consumed_tokens (bucket s')) * 1000000000
      \<le> tokens s * (last_update (bucket s') - last_update (bucket s)) \<and>
    d = (if calls = [] \<or> consumed_tokens (bucket s') \<le> cap s \<or> tokens s = 0 then 0
         else sat64 ((consumed_tokens (bucket s') - cap s) * 1000000000) div tokens s)"
  using assms(2,6-8)
proof (induction calls arbitrary: d s' rule: rev_induct)
  case Nil
  then show ?case using assms by (simp add: register_all_def)
next
  case (snoc call calls)
  obtain t n where call: "call = (t, n)" by (cases call)
  obtain d1 s1 where run: "register_all reg calls s = (d1, s1)" by fastforce
  have IH: "ok s1 \<and> tokens s1 = tokens s \<and> cap s1 = cap s \<and>
    consumed_tokens (bucket s1) \<le> consumed_tokens (bucket s) + total_len calls \<and>
    last_update (bucket s) \<le> last_update (bucket s1) \<and> last_update (bucket s1) \<le> T \<and>
    traffic (bucket s1) = traffic (bucket s) + total_len calls \<and>
    (consumed_tokens (bucket s) + total_len calls - consumed_tokens (bucket s1)) * 1000000000
      \<le> tokens s * (last_update (bucket s1) - last_update (bucket s))"
    using snoc.IH [OF _ _ _ run] snoc.prems by (simp add: call)
  have reg: "reg t n s1 = (d, s')"
    using snoc.prems(4) run by (simp add: call register_all_snoc)
  note step = register_accounting [OF _ _ _ _ reg_bucket [OF _ reg]]
  have pre: "t \<le> instant_max" "t \<le> last_update (bucket s1) + u64_max" "consumed_tokens (bucket s1) + n \<le> u64_max"
    "traffic (bucket s1) + n \<le> u64_max"
    using IH assms(4,5) snoc.prems by (auto simp: call)
  have ok1: "ok s1" using IH by simp
  note step = step [OF pre ok1]
  have cfg: "tokens s' = tokens s1 \<and> cap s' = cap s1 \<and> ok s'" using reg_config [OF ok1 reg] .
  define p q where "p = last_update (bucket s1) - last_update (bucket s)"
    and "q = last_update (bucket s') - last_update (bucket s1)"
  have "(consumed_tokens (bucket s) + total_len calls + n - consumed_tokens (bucket s')) * 1000000000
      = (consumed_tokens (bucket s) + total_len calls - consumed_tokens (bucket s1)) * 1000000000
        + (consumed_tokens (bucket s1) + n - consumed_tokens (bucket s')) * 1000000000"
    using IH step(1) by (simp add: add_mult_distrib [symmetric])
  also have "\<dots> \<le> tokens s * p + tokens s * q"
    using IH step(5) by (simp add: p_def q_def)
  also have "\<dots> = tokens s * (last_update (bucket s') - last_update (bucket s))"
    using IH step(2) by (simp add: p_def q_def add_mult_distrib2 [symmetric])
  finally have "(consumed_tokens (bucket s) + total_len calls + n - consumed_tokens (bucket s')) * 1000000000
    \<le> tokens s * (last_update (bucket s') - last_update (bucket s))" .
  moreover have "last_update (bucket s') \<le> T" using IH step(3) snoc.prems(1) by (auto simp: call max_def split: if_splits)
  moreover have "last_update (bucket s) \<le> last_update (bucket s')" using IH step(2) by simp
  moreover have "d = (if consumed_tokens (bucket s') \<le> cap s \<or> tokens s = 0 then 0
         else sat64 ((consumed_tokens (bucket s') - cap s) * 1000000000) div tokens s)"
    using IH step(6) by simp
  ultimately show ?case
    using IH cfg step(1,4) by (simp add: call add.assoc)
qed

text \<open>
  A limiter that starts with an empty bucket never grants more than its rate: the traffic so far is covered by the time
  elapsed since the start together with the delay it asks the caller to wait.
\<close>

lemma rate_bound:
  assumes "ok s" "bucket s = \<lparr>traffic = 0, last_update = start, consumed_tokens = cap s\<rparr>" "0 < tokens s"
    and "\<forall>(t, n) \<in> set calls. t \<le> T" "start \<le> T" "T \<le> instant_max" "T \<le> start + u64_max"
    and "cap s + total_len calls \<le> u64_max" "total_len calls * 1000000000 \<le> u64_max"
    and "register_all reg calls s = (d, s')"
  shows "total_len calls * 1000000000 < tokens s * (T - start + d + 1)"
proof -
  let ?c = "consumed_tokens (bucket s')"
  note run = run_accounting [OF assms(1) assms(4) _ assms(6) _ _ _ assms(10)]
  have c: "?c \<le> cap s + total_len calls" "start \<le> last_update (bucket s')" "last_update (bucket s') \<le> T"
    "(cap s + total_len calls - ?c) * 1000000000 \<le> tokens s * (last_update (bucket s') - start)"
    and d: "d = (if calls = [] \<or> ?c \<le> cap s \<or> tokens s = 0 then 0
         else sat64 ((?c - cap s) * 1000000000) div tokens s)"
    using run assms by auto
  have paid: "(cap s + total_len calls - ?c) * 1000000000 \<le> tokens s * (T - start)"
    by (rule le_trans [OF c(4) mult_le_mono2]) (use c(3) in simp)
  have small: "(?c - cap s) * 1000000000 \<le> u64_max"
    by (rule le_trans [OF mult_le_mono1 assms(9)]) (use c(1) in simp)
  have owed: "(?c - cap s) * 1000000000 < tokens s * (d + 1)"
  proof (cases "calls = [] \<or> ?c \<le> cap s")
    case True
    then have "?c - cap s = 0" using c(1) by auto
    then show ?thesis using assms(3) by simp
  next
    case False
    then show ?thesis using delay_covers_excess [OF assms(3) small] assms(3) by (simp add: d)
  qed
  have "total_len calls \<le> (cap s + total_len calls - ?c) + (?c - cap s)" by simp
  then have "total_len calls * 1000000000 \<le> (cap s + total_len calls - ?c) * 1000000000 + (?c - cap s) * 1000000000"
    by (metis add_mult_distrib mult_le_mono1)
  with paid owed show ?thesis
    by (simp add: add_mult_distrib2)
qed

text \<open>Waiting out the delay and one nanosecond more ends it, whatever was registered before.\<close>

lemma delay_ends:
  assumes "ok s" "0 < tokens s" "reg t n s = (d, s')" "last_update (bucket s) \<le> t" "t + d + 1 \<le> t'"
    and "t \<le> instant_max" "t \<le> last_update (bucket s) + u64_max"
    and "(consumed_tokens (bucket s) + n) * 1000000000 \<le> u64_max" "traffic (bucket s) + n \<le> u64_max"
  shows "fst (reg t' 0 s') = 0"
proof -
  have cn: "consumed_tokens (bucket s) + n \<le> u64_max"
    using le_trans [OF _ assms(8), of "consumed_tokens (bucket s) + n"] by simp
  note acc = register_accounting [OF assms(6,7) cn assms(9) reg_bucket [OF assms(1,3)]]
  have cfg: "tokens s' = tokens s" "cap s' = cap s" "ok s'" using reg_config [OF assms(1,3)] by auto
  let ?c = "consumed_tokens (bucket s')"
  have lu: "last_update (bucket s') \<le> t" using acc(3) assms(4) by simp
  have small: "(?c - cap s) * 1000000000 \<le> u64_max"
    by (rule le_trans [OF mult_le_mono1 assms(8)]) (use acc(1) in simp)
  have "(?c - cap s) * 1000000000 \<le> tokens s * (t' - last_update (bucket s'))"
  proof (cases "?c \<le> cap s")
    case False
    then have "(?c - cap s) * 1000000000 < tokens s * (d + 1)"
      using delay_covers_excess [OF assms(2) small] acc(6) assms(2) by simp
    also have "\<dots> \<le> tokens s * (t' - last_update (bucket s'))"
      by (rule mult_le_mono2) (use lu assms(5) in simp)
    finally show ?thesis by simp
  qed simp
  then have "consumed_tokens (refill_bucket (tokens s) t' (bucket s')) \<le> cap s"
    using lu assms(2,5) small by (intro refill_after_delay) (auto simp: u64_max_def u128_max_def)
  moreover obtain d2 s2 where reg2: "reg t' 0 s' = (d2, s2)" by fastforce
  ultimately show ?thesis
    using reg_bucket [OF cfg(3) reg2] cfg(1,2)
    by (auto simp: tbf_register_traffic_def Let_def sat64_def split: if_splits)
qed

end

interpretation lim: rate_limit register_traffic state rate bucket_size "\<lambda>l. True"
  by unfold_locales (auto simp: register_traffic_def split: prod.splits)

text \<open>An entry of a group, with the index known to be in range.\<close>

definition vec_entry :: "nat \<Rightarrow> nat \<Rightarrow> nat \<Rightarrow> rate_limiter_vec \<Rightarrow> nat \<times> rate_limiter_vec" where
  "vec_entry i t n v = (case vec_register_traffic i t n v of Inl e \<Rightarrow> (0, v) | Inr r \<Rightarrow> r)"

interpretation vec: rate_limit "vec_entry i" "\<lambda>v. v_state v ! i" v_rate v_bucket_size "\<lambda>v. i < length (v_state v)" for i
  by unfold_locales (auto simp: vec_entry_def vec_register_traffic_def split: prod.splits)

text \<open>Shrinking the bucket forgives what was consumed beyond its new size.\<close>

lemma update_rate_clamps:
  assumes "b < bucket_size l"
  shows "consumed_tokens (state (update_rate r b l)) \<le> b"
  using assms by (simp add: update_rate_def Let_def)

lemma refill_le: "consumed_tokens (refill_bucket r t s) \<le> consumed_tokens s"
  by (simp add: refill_bucket_def Let_def)

lemma update_rate_ends_delay:
  assumes "b < bucket_size l"
  shows "fst (register_traffic t 0 (update_rate r b l)) = 0"
proof -
  have *: "fst (tbf_register_traffic r b t 0 s) = 0" if "consumed_tokens s \<le> b" for s
    using le_trans [OF refill_le that] by (simp add: tbf_register_traffic_def Let_def sat64_def min.coboundedI1)
  have "fst (register_traffic t 0 (update_rate r b l)) = fst (tbf_register_traffic r b t 0 (state (update_rate r b l)))"
    by (simp add: register_traffic_def update_rate_def Let_def case_prod_unfold)
  then show ?thesis using * [OF update_rate_clamps [OF assms]] by simp
qed

section \<open>Properties\<close>


lemmas limiter_eval = register_traffic_def tbf_register_traffic_def refill_bucket_def Let_def sat64_def sat128_def
  div_ceil_def u64_max_def u128_max_def instant_max_def


text \<open>The same bound for an entry of a group, whatever the other entries do in between.\<close>

lemma group_traffic_within_rate:
  assumes "0 < r" "start \<le> T" "T \<le> instant_max" "T \<le> start + u64_max" "i < g"
    and "\<forall>(t, n) \<in> set calls. t \<le> T"
    and "b + total_len calls \<le> u64_max" "total_len calls * 1000000000 \<le> u64_max"
    and "register_all (vec_entry i) calls (vec_with_start_time g r b start) = (d, v)"
  shows "total_len calls * 1000000000 < r * (T - start + d + 1)"
  using vec.rate_bound [OF _ _ _ assms(6,2,3) _ _ _ assms(9)] assms
  by (simp add: vec_with_start_time_def)

lemma group_entries_independent:
  assumes "vec_register_traffic i t n v = Inr (d, v')" "j \<noteq> i"
  shows "v_state v' ! j = v_state v ! j"
  using assms by (auto simp: vec_register_traffic_def split: if_splits prod.splits)



end
