(* ===== verification/Rust_Text.thy ===== *)
theory Rust_Text
  imports Prelude
begin

text \<open>
  Numbers and bytes as text: the parsers and printers of the integer types, hexadecimal digits, splitting at the first
  separator and the check for UTF-8, as the standard library has them.
\<close>

section \<open>Digits\<close>

definition hex_digit :: "nat \<Rightarrow> char" where
  "hex_digit n = char_of (if n < 10 then 48 + n else 87 + n)"

definition to_digit :: "nat \<Rightarrow> char \<Rightarrow> nat option" where
  "to_digit radix c =
     (let n = of_char c :: nat;
          d = (if 48 \<le> n \<and> n \<le> 57 then Some (n - 48)
               else if 97 \<le> n \<and> n \<le> 122 then Some (n - 87)
               else if 65 \<le> n \<and> n \<le> 90 then Some (n - 55)
               else None)
      in case d of Some v \<Rightarrow> if v < radix then Some v else None | None \<Rightarrow> None)"

lemma to_digit_hex_digit [simp]: "d < radix \<Longrightarrow> radix \<le> 36 \<Longrightarrow> to_digit radix (hex_digit d) = Some d"
  by (simp add: to_digit_def hex_digit_def)

lemma digit_char_hex_digit: "d < 10 \<Longrightarrow> digit_char d = hex_digit d"
  by (simp add: digit_char_def hex_digit_def)

text \<open>The text of a number in a base up to sixteen, without leading zeros.\<close>

function show_base :: "nat \<Rightarrow> nat \<Rightarrow> string" where
  "show_base b n = (if b < 2 \<or> n < b then [hex_digit n] else show_base b (n div b) @ [hex_digit (n mod b)])"
  by pat_completeness auto
termination by (relation "measure snd") (auto simp: div_less_dividend)

declare show_base.simps [simp del]

lemma show_nat_show_base: "show_nat n = show_base 10 n"
proof (induction n rule: show_nat.induct)
  case (1 n)
  then show ?case
    by (subst show_nat.simps, subst show_base.simps) (simp add: digit_char_hex_digit)
qed

lemma show_base_not_Nil [simp]: "show_base b n \<noteq> []"
  by (subst show_base.simps) simp

lemma show_base_digits: "c \<in> set (show_base b n) \<Longrightarrow> 2 \<le> b \<Longrightarrow> \<exists>d < b. c = hex_digit d"
proof (induction b n rule: show_base.induct)
  case (1 b n)
  show ?case
  proof (cases "n < b")
    case True
    with 1(2) show ?thesis by (auto simp: show_base.simps [of b n])
  next
    case False
    then have "c \<in> set (show_base b (n div b)) \<or> c = hex_digit (n mod b)"
      using 1(2,3) by (auto simp: show_base.simps [of b n])
    moreover have "n mod b < b" using 1(3) by simp
    ultimately show ?thesis using 1(1) 1(3) False by (metis not_less)
  qed
qed

lemma length_show_base: "2 \<le> b \<Longrightarrow> n < b ^ k \<Longrightarrow> 0 < k \<Longrightarrow> length (show_base b n) \<le> k"
proof (induction b n arbitrary: k rule: show_base.induct)
  case (1 b n)
  show ?case
  proof (cases "n < b")
    case True
    with 1(4) show ?thesis by (simp add: show_base.simps [of b n])
  next
    case False
    with 1(2,3,4) obtain j where j: "k = Suc j" "0 < j" by (cases k; cases "k - 1") auto
    have "n div b < b ^ j" using 1(2,3) j(1) by (simp add: div_less_iff_less_mult mult.commute)
    with 1 False j show ?thesis by (simp add: show_base.simps [of b n])
  qed
qed

section \<open>Unsigned integers\<close>

text \<open>\<open>from_str\<close> of an unsigned type: an optional plus sign and at least one decimal digit, within the bound.\<close>

definition parse_unsigned :: "nat \<Rightarrow> string \<Rightarrow> nat option" where
  "parse_unsigned bound s =
     (case parse_nat (case strip_prefix_char (CHR ''+'') s of None \<Rightarrow> s | Some t \<Rightarrow> t) of
        None \<Rightarrow> None
      | Some n \<Rightarrow> if n \<le> bound then Some n else None)"

lemma strip_prefix_char_iff: "strip_prefix_char c s = Some t \<longleftrightarrow> s = c # t"
  by (auto simp: strip_prefix_char_def split: list.splits)

lemma strip_prefix_char_None: "c \<notin> set s \<Longrightarrow> strip_prefix_char c s = None"
  by (cases s) (auto simp: strip_prefix_char_def)

lemma hex_digit_plain: "d < 16 \<Longrightarrow> 48 \<le> (of_char (hex_digit d) :: nat)"
  by (simp add: hex_digit_def)

lemma show_nat_above: "c \<in> set (show_nat n) \<Longrightarrow> 48 \<le> (of_char c :: nat) \<and> (of_char c :: nat) \<le> 57"
  using show_nat_digits [of c n] by (auto simp: digit_char_def)

lemma parse_unsigned_show_nat [str_simps]: "n \<le> bound \<Longrightarrow> parse_unsigned bound (show_nat n) = Some n"
proof -
  have "CHR ''+'' \<notin> set (show_nat n)" using show_nat_above [of "CHR ''+''" n] by auto
  then show "n \<le> bound \<Longrightarrow> parse_unsigned bound (show_nat n) = Some n"
    by (simp add: parse_unsigned_def strip_prefix_char_None parse_nat_show_nat)
qed

section \<open>The binary logarithm\<close>

fun ilog2 :: "nat \<Rightarrow> nat" where
  "ilog2 n = (if n < 2 then 0 else Suc (ilog2 (n div 2)))"

declare ilog2.simps [simp del]

lemma le_iff_ilog2: "0 < n \<Longrightarrow> 2 ^ k \<le> n \<longleftrightarrow> k \<le> ilog2 n"
proof (induction n arbitrary: k rule: ilog2.induct)
  case (1 n)
  show ?case
  proof (cases "n < 2")
    case True
    then have "n = 1" using 1(2) by simp
    then show ?thesis using less_exp [of k] by (cases k) (simp_all add: ilog2.simps)
  next
    case False
    then have "2 ^ j \<le> n div 2 \<longleftrightarrow> j \<le> ilog2 (n div 2)" for j
      using 1(1) [of j] by simp
    moreover have "2 * 2 ^ j \<le> n \<longleftrightarrow> 2 ^ j \<le> n div 2" for j
      by (simp add: less_eq_div_iff_mult_less_eq mult.commute)
    ultimately show ?thesis using False
      by (cases k) (simp_all add: ilog2.simps [of n])
  qed
qed

section \<open>Digits of fixed width\<close>

text \<open>The digits of a number in a base, most significant first, as \<open>to_be_bytes\<close> and \<open>from_be_bytes\<close> have them.\<close>

fun be_digits :: "nat \<Rightarrow> nat \<Rightarrow> nat \<Rightarrow> nat list" where
  "be_digits b 0 n = []"
| "be_digits b (Suc k) n = be_digits b k (n div b) @ [n mod b]"

definition be_value :: "nat \<Rightarrow> nat list \<Rightarrow> nat" where
  "be_value b ds = foldl (\<lambda>a d. a * b + d) 0 ds"

lemma be_value_snoc [simp]: "be_value b (ds @ [d]) = be_value b ds * b + d"
  by (simp add: be_value_def)

lemma be_value_Nil [simp]: "be_value b [] = 0"
  by (simp add: be_value_def)

lemma length_be_digits [simp]: "length (be_digits b k n) = k"
  by (induction k arbitrary: n) simp_all

lemma be_digits_less: "0 < b \<Longrightarrow> d \<in> set (be_digits b k n) \<Longrightarrow> d < b"
  by (induction k arbitrary: n) auto

lemma be_value_digits: "n < b ^ k \<Longrightarrow> be_value b (be_digits b k n) = n"
  by (induction k arbitrary: n) (simp_all add: less_mult_imp_div_less mult.commute)

lemma be_digits_value: "list_all (\<lambda>d. d < b) ds \<Longrightarrow> be_digits b (length ds) (be_value b ds) = ds"
  by (induction ds rule: rev_induct) simp_all

section \<open>Splitting at the first separator\<close>

fun split_once :: "'a \<Rightarrow> 'a list \<Rightarrow> ('a list \<times> 'a list) option" where
  "split_once c [] = None"
| "split_once c (x # s) = (if x = c then Some ([], s) else map_option (\<lambda>(p, q). (x # p, q)) (split_once c s))"

lemma split_once_append [str_simps]: "c \<notin> set p \<Longrightarrow> split_once c (p @ c # q) = Some (p, q)"
  by (induction p) auto

lemma split_once_None [str_simps]: "c \<notin> set s \<Longrightarrow> split_once c s = None"
  by (induction s) auto

lemma split_once_SomeD: "split_once c s = Some (p, q) \<Longrightarrow> s = p @ c # q \<and> c \<notin> set p"
  by (induction s arbitrary: p) (auto split: if_splits)

section \<open>Bytes\<close>

lemma high_nibble [simp]: "of_char c div 16 < (16::nat)"
  using nat_of_char_less_256 [of c] by linarith

lemma char_of_parts [simp]: "char_of (of_char c div 16 * 16 + of_char c mod 16 :: nat) = c"
  by (simp add: mult.commute)

text \<open>The check of \<open>String::from_utf8\<close>: the well-formed byte sequences of the Unicode standard.\<close>

definition byte_in :: "nat \<Rightarrow> nat \<Rightarrow> char \<Rightarrow> bool" where
  "byte_in lo hi c = (lo \<le> (of_char c :: nat) \<and> (of_char c :: nat) \<le> hi)"

fun utf8_valid :: "string \<Rightarrow> bool" where
  "utf8_valid [] = True"
| "utf8_valid (a # s) =
     (if byte_in 0 127 a then utf8_valid s
      else
        (case s of
           b # s2 \<Rightarrow>
             (if byte_in 194 223 a then byte_in 128 191 b \<and> utf8_valid s2
              else
                (case s2 of
                   c # s3 \<Rightarrow>
                     (if byte_in 224 224 a then byte_in 160 191 b \<and> byte_in 128 191 c \<and> utf8_valid s3
                      else if byte_in 237 237 a then byte_in 128 159 b \<and> byte_in 128 191 c \<and> utf8_valid s3
                      else if byte_in 225 239 a then byte_in 128 191 b \<and> byte_in 128 191 c \<and> utf8_valid s3
                      else
                        (case s3 of
                           d # s4 \<Rightarrow>
                             (if byte_in 240 240 a then byte_in 144 191 b
                              else if byte_in 244 244 a then byte_in 128 143 b
                              else byte_in 241 243 a \<and> byte_in 128 191 b) \<and>
                             byte_in 128 191 c \<and> byte_in 128 191 d \<and> utf8_valid s4
                         | [] \<Rightarrow> False))
                 | [] \<Rightarrow> False))
         | [] \<Rightarrow> False))"

lemma utf8_valid_ascii: "list_all (\<lambda>c. of_char c < (128 :: nat)) s \<Longrightarrow> utf8_valid s"
  by (induction s) (auto simp: byte_in_def)

text \<open>A signed integer of \<open>w\<close> bits, which wraps around.\<close>

definition wrap_signed :: "nat \<Rightarrow> int \<Rightarrow> int" where
  "wrap_signed w i = (i + 2 ^ (w - 1)) mod 2 ^ w - 2 ^ (w - 1)"

lemma wrap_signed_id: "0 < w \<Longrightarrow> - (2 ^ (w - 1)) \<le> i \<Longrightarrow> i < 2 ^ (w - 1) \<Longrightarrow> wrap_signed w i = i"
  by (cases w) (simp_all add: wrap_signed_def)

end
