(* ===== verification/Unit_Escape.thy ===== *)
theory Unit_Escape
  imports Rust_Text
begin

text \<open>
  Escaping of systemd unit names, \<open>proxmox-systemd/src/escape.rs\<close>: any byte string becomes a unit name of a
  restricted alphabet, and the two readers take it back.
\<close>

section \<open>Escaping\<close>

definition unit_byte :: "char \<Rightarrow> bool" where
  "unit_byte c =
     (let n = of_char c :: nat
      in c = CHR ''_'' \<or> c = CHR ''.'' \<or> 48 \<le> n \<and> n \<le> 57 \<or> 65 \<le> n \<and> n \<le> 90 \<or> 97 \<le> n \<and> n \<le> 122)"

definition escape_byte :: "bool \<Rightarrow> char \<Rightarrow> string" where
  "escape_byte first c =
     (if c = CHR ''/'' then ''-''
      else if first \<and> c = CHR ''.'' \<or> \<not> unit_byte c
      then [CHR 0x5C, CHR ''x'', hex_digit (of_char c div 16), hex_digit (of_char c mod 16)]
      else [c])"

fun escape_bytes :: "bool \<Rightarrow> string \<Rightarrow> string" where
  "escape_bytes first [] = []"
| "escape_bytes first (c # cs) = escape_byte first c @ escape_bytes False cs"

definition escape_unit :: "string \<Rightarrow> bool \<Rightarrow> string" where
  "escape_unit u is_path =
     (let u' = (if is_path then dropWhile (\<lambda>c. c = CHR ''/'') u else u)
      in if is_path \<and> u' = [] then ''-'' else escape_bytes True u')"

section \<open>Unescaping\<close>

datatype unescape_error = UnescapeMsg string | Utf8Error

definition parse_hex_digit :: "char \<Rightarrow> (unescape_error, nat) result" where
  "parse_hex_digit d =
     (let n = of_char d :: nat
      in if 48 \<le> n \<and> n \<le> 57 then Inr (n - 48)
         else if 65 \<le> n \<and> n \<le> 70 then Inr (n - 65 + 10)
         else if 97 \<le> n \<and> n \<le> 102 then Inr (n - 97 + 10)
         else Inl (UnescapeMsg ''invalid hex digit''))"

fun unescape_unit_do :: "string \<Rightarrow> (unescape_error, string) result" where
  "unescape_unit_do [] = Inr []"
| "unescape_unit_do (c # cs) =
     (if c = CHR 0x5C then
        (case cs of
           x # d1 # d0 # rest \<Rightarrow>
             (if x \<noteq> CHR ''x'' then Inl (UnescapeMsg ''unknown escape sequence'')
              else
                and_then (parse_hex_digit d1) (\<lambda>h1.
                and_then (parse_hex_digit d0) (\<lambda>h0.
                and_then (unescape_unit_do rest) (\<lambda>bytes. Inr (char_of (h1 * 16 + h0) # bytes)))))
         | _ \<Rightarrow> Inl (UnescapeMsg ''short input''))
      else
        and_then (unescape_unit_do cs) (\<lambda>bytes. Inr ((if c = CHR ''-'' then CHR ''/'' else c) # bytes)))"

definition unescape_unit :: "string \<Rightarrow> (unescape_error, string) result" where
  "unescape_unit s = and_then (unescape_unit_do s) (\<lambda>bytes. if utf8_valid bytes then Inr bytes else Inl Utf8Error)"

definition unescape_unit_path :: "string \<Rightarrow> (unescape_error, string) result" where
  "unescape_unit_path s = unescape_unit_do s"

section \<open>Round trip\<close>

lemma parse_hex_digit_hex_digit [simp]:
  assumes "n < 16"
  shows "parse_hex_digit (hex_digit n) = Inr n"
  using assms by (simp add: parse_hex_digit_def hex_digit_def Let_def)

lemma unescape_escape_byte [simp]:
  "unescape_unit_do (escape_byte first c @ s) = and_then (unescape_unit_do s) (\<lambda>bytes. Inr (c # bytes))"
proof -
  have "\<not> unit_byte (CHR 0x5C)" "\<not> unit_byte (CHR ''-'')" by (simp_all add: unit_byte_def)
  then show ?thesis by (auto simp: escape_byte_def)
qed

lemma unescape_escape_bytes [simp]: "unescape_unit_do (escape_bytes first s) = Inr s"
  by (induction s arbitrary: first) simp_all

text \<open>C37: Escaping a byte string as a unit name and unescaping it gives the string back; as a path, it gives the path without its leading slashes and the
  root as one slash. The text reader differs only in refusing bytes that are not UTF-8. The escaped name has
  no characters but letters, digits, underscore, dot, dash and backslash, and does not begin with a dot.\<close>

theorem unit_name_roundtrip:
  "unescape_unit_path (escape_unit s False) = Inr s \<and>
   unescape_unit (escape_unit s False) = (if utf8_valid s then Inr s else Inl Utf8Error) \<and>
   unescape_unit_path (escape_unit s True) =
     Inr (if dropWhile (\<lambda>c. c = CHR ''/'') s = [] then ''/'' else dropWhile (\<lambda>c. c = CHR ''/'') s) \<and>
   list_all (\<lambda>c. unit_byte c \<or> c = CHR ''-'' \<or> c = CHR 0x5C) (escape_unit s is_path) \<and>
   strip_prefix_char (CHR ''.'') (escape_unit s is_path) = None"
proof -
  have hex: "unit_byte (hex_digit n)" if "n < 16" for n
    using that by (auto simp: unit_byte_def hex_digit_def Let_def)
  have ex: "unit_byte (CHR ''x'')" by (simp add: unit_byte_def)
  have byte: "list_all (\<lambda>c. unit_byte c \<or> c = CHR ''-'' \<or> c = CHR 0x5C) (escape_byte first c)" for first c
    by (auto simp: escape_byte_def hex ex)
  have bytes: "list_all (\<lambda>c. unit_byte c \<or> c = CHR ''-'' \<or> c = CHR 0x5C) (escape_bytes first u)" for first u
    by (induction u arbitrary: first) (simp_all add: byte)
  have dot: "strip_prefix_char (CHR ''.'') (escape_bytes True u) = None" for u
    by (cases u) (auto simp: strip_prefix_char_def escape_byte_def)
  have dash: "unescape_unit_do ''-'' = Inr ''/''" by simp
  show ?thesis
    unfolding escape_unit_def unescape_unit_path_def unescape_unit_def Let_def
    by (simp add: bytes dot dash del: unescape_unit_do.simps) (simp add: strip_prefix_char_def)
qed

end
