(* ===== verification/Ip_Cidr.thy ===== *)
theory Ip_Cidr
  imports Prelude
begin

text \<open>
  CIDR prefixes and address ranges, \<open>proxmox-network-types/src/ip_address.rs\<close>. The source has the code for
  \<open>Ipv4Cidr\<close> over \<open>u32\<close> and the same code for \<open>Ipv6Cidr\<close> over \<open>u128\<close>; here it is written once over words of
  any length, so that both families are instances.
\<close>

unbundle bit_operations_syntax

section \<open>Prefixes\<close>

datatype cidr_error = InvalidNetmask | InvalidAddress

record 'w cidr =
  cidr_addr :: 'w
  cidr_mask :: nat

type_synonym ipv4_addr = "32 word"
type_synonym ipv6_addr = "128 word"
type_synonym ipv4_cidr = "32 word cidr"
type_synonym ipv6_cidr = "128 word cidr"

text \<open>Shifts by the word length or more give nothing, as \<open>checked_shr\<close> and \<open>checked_shl\<close> do.\<close>

definition checked_shr :: "'a::len word \<Rightarrow> nat \<Rightarrow> 'a word option" where
  "checked_shr w n = (if n < LENGTH('a) then Some (drop_bit n w) else None)"

definition checked_shl :: "'a::len word \<Rightarrow> nat \<Rightarrow> 'a word option" where
  "checked_shl w n = (if n < LENGTH('a) then Some (push_bit n w) else None)"

definition unwrap_or :: "'a \<Rightarrow> 'a option \<Rightarrow> 'a" where
  "unwrap_or d r = (case r of None \<Rightarrow> d | Some x \<Rightarrow> x)"

definition cidr_new :: "'a::len word \<Rightarrow> nat \<Rightarrow> (cidr_error, 'a word cidr) result" where
  "cidr_new a m = (if m > LENGTH('a) then Inl InvalidNetmask else Inr \<lparr>cidr_addr = a, cidr_mask = m\<rparr>)"

definition cidr_of_addr :: "'a::len word \<Rightarrow> 'a word cidr" where
  "cidr_of_addr a = \<lparr>cidr_addr = a, cidr_mask = LENGTH('a)\<rparr>"

definition contains_address :: "'a::len word cidr \<Rightarrow> 'a word \<Rightarrow> bool" where
  "contains_address c other =
     (let shift_amount = LENGTH('a) - cidr_mask c
      in unwrap_or 0 (checked_shr (cidr_addr c) shift_amount) = unwrap_or 0 (checked_shr other shift_amount))"

definition normalize :: "'a::len word \<Rightarrow> nat \<Rightarrow> 'a word" where
  "normalize a m = a AND unwrap_or 0 (checked_shl (- 1) (LENGTH('a) - m))"

definition overlaps :: "'a::len word cidr \<Rightarrow> 'a word cidr \<Rightarrow> bool" where
  "overlaps c1 c2 =
     (let min_mask = min (cidr_mask c1) (cidr_mask c2)
      in normalize (cidr_addr c1) min_mask = normalize (cidr_addr c2) min_mask)"

definition canonical :: "'a::len word cidr \<Rightarrow> 'a word cidr" where
  "canonical c = \<lparr>cidr_addr = normalize (cidr_addr c) (cidr_mask c), cidr_mask = cidr_mask c\<rparr>"

section \<open>Prefixes as sets of numbers\<close>

text \<open>The numbers whose quotient by \<open>2 ^ k\<close> is \<open>q\<close>: the addresses of a prefix, read as numbers.\<close>

definition block :: "nat \<times> nat \<Rightarrow> nat set" where
  "block = (\<lambda>(q, k). {x. x div 2 ^ k = q})"

lemma div_eq_iff_between: "0 < d \<Longrightarrow> x div d = q \<longleftrightarrow> q * d \<le> x \<and> x < q * d + d" for x d q :: nat
  using div_nat_eqI [of d q x] by (metis add.commute div_mod_decomp div_times_less_eq_dividend dividend_less_times_div
      le_add1 mult.commute mult_Suc_right)

lemma block_eq: "block (q, k) = {q * 2 ^ k ..< q * 2 ^ k + 2 ^ k}"
  by (simp add: block_def div_eq_iff_between set_eq_iff)

lemma block_nested:
  assumes "k \<le> j" "x \<in> block (p, k)" "x \<in> block (q, j)"
  shows "block (p, k) \<subseteq> block (q, j)"
proof
  fix y assume "y \<in> block (p, k)"
  have *: "z div 2 ^ j = z div 2 ^ k div 2 ^ (j - k)" for z :: nat
    using assms(1) by (simp flip: div_mult2_eq power_add)
  show "y \<in> block (q, j)"
    using assms \<open>y \<in> block (p, k)\<close> by (simp add: block_def *)
qed

definition cidr_block :: "'a::len word cidr \<Rightarrow> nat \<times> nat" where
  "cidr_block c = (let k = LENGTH('a) - cidr_mask c in (unat (cidr_addr c) div 2 ^ k, k))"

lemma unat_checked_shr: "unat (unwrap_or 0 (checked_shr w n)) = unat w div 2 ^ n"
proof (cases "n < LENGTH('a)")
  case True
  then show ?thesis by (simp add: checked_shr_def unwrap_or_def unat_drop_bit_eq) (simp add: drop_bit_eq_div)
next
  case False
  then have "(2::nat) ^ LENGTH('a) \<le> 2 ^ n" by simp
  then have "unat w < 2 ^ n" using unsigned_less [of w, where 'a = nat] by linarith
  with False show ?thesis by (simp add: checked_shr_def unwrap_or_def)
qed

lemma contains_address_iff: "contains_address c w \<longleftrightarrow> unat w \<in> block (cidr_block c)"
  by (auto simp: contains_address_def Let_def word_unat_eq_iff unat_checked_shr block_def cidr_block_def)

lemma normalize_push_drop: "normalize a m = push_bit (LENGTH('a) - m) (drop_bit (LENGTH('a) - m) a)"
  for a :: "'a::len word"
proof (rule bit_word_eqI)
  fix n assume "n < LENGTH('a)"
  then show "bit (normalize a m) n = bit (push_bit (LENGTH('a) - m) (drop_bit (LENGTH('a) - m) a)) n"
    by (auto simp: normalize_def checked_shl_def unwrap_or_def bit_and_iff bit_push_bit_iff bit_drop_bit_eq bit_not_iff
        bit_mask_iff)
qed

lemma unat_normalize: "unat (normalize a m) = unat a div 2 ^ (LENGTH('a) - m) * 2 ^ (LENGTH('a) - m)"
  for a :: "'a::len word"
proof -
  let ?k = "LENGTH('a) - m"
  have "unat a div 2 ^ ?k * 2 ^ ?k \<le> unat a" by simp
  then have "unat a div 2 ^ ?k * 2 ^ ?k < 2 ^ LENGTH('a)"
    using unsigned_less [of a, where 'a = nat] by linarith
  then show ?thesis
    by (simp add: normalize_push_drop unsigned_push_bit_eq unat_drop_bit_eq)
      (simp add: drop_bit_eq_div push_bit_eq_mult take_bit_nat_eq_self_iff)
qed

lemma normalize_eq_iff:
  fixes a b :: "'a::len word"
  shows "normalize a m = normalize b m \<longleftrightarrow> unat a div 2 ^ (LENGTH('a) - m) = unat b div 2 ^ (LENGTH('a) - m)"
  by (simp add: word_unat_eq_iff unat_normalize)

section \<open>Properties\<close>

definition cidr_ok :: "'a::len word cidr \<Rightarrow> bool" where
  "cidr_ok c = (cidr_mask c \<le> LENGTH('a))"

lemma cidr_new_ok: "cidr_new a m = Inr c \<Longrightarrow> cidr_ok c"
  by (auto simp: cidr_new_def cidr_ok_def split: if_splits)

lemma contains_own_address: "contains_address c (cidr_addr c)"
  by (simp add: contains_address_def)

lemma block_cidr_block_word:
  fixes c :: "'a::len word cidr"
  assumes "x \<in> block (cidr_block c)"
  shows "x < 2 ^ LENGTH('a)"
proof -
  let ?k = "LENGTH('a) - cidr_mask c"
  have "x div 2 ^ ?k = unat (cidr_addr c) div 2 ^ ?k" using assms by (simp add: cidr_block_def block_def Let_def)
  then have "x div 2 ^ ?k div 2 ^ (LENGTH('a) - ?k) = unat (cidr_addr c) div 2 ^ ?k div 2 ^ (LENGTH('a) - ?k)" by simp
  then have "x div 2 ^ LENGTH('a) = unat (cidr_addr c) div 2 ^ LENGTH('a)"
    by (simp flip: div_mult2_eq power_add)
  also have "\<dots> = 0" using unsigned_less [of "cidr_addr c", where 'a = nat] by simp
  finally show ?thesis by (simp add: div_eq_0_iff)
qed

text \<open>A number below the word length is the address it denotes.\<close>

lemma block_ex_word:
  fixes c :: "'a::len word cidr"
  assumes "x \<in> block (cidr_block c)"
  shows "\<exists>w. contains_address c w \<and> unat w = x"
  using block_cidr_block_word [OF assms] assms
  by (intro exI [of _ "of_nat x"]) (simp add: contains_address_iff unat_of_nat)

abbreviation addresses :: "'a::len word cidr \<Rightarrow> 'a word set" where
  "addresses c \<equiv> {w. contains_address c w}"

lemma overlaps_sym: "overlaps c1 c2 \<longleftrightarrow> overlaps c2 c1"
  by (auto simp: overlaps_def Let_def min.commute)

lemma overlaps_contains: "cidr_mask c1 \<le> cidr_mask c2 \<Longrightarrow> overlaps c1 c2 \<longleftrightarrow> contains_address c1 (cidr_addr c2)"
  by (auto simp: overlaps_def Let_def normalize_eq_iff contains_address_iff cidr_block_def block_def min_def)

lemma addresses_nested:
  fixes c1 c2 :: "'a::len word cidr"
  assumes "cidr_mask c1 \<le> cidr_mask c2" "contains_address c1 w" "contains_address c2 w"
  shows "addresses c2 \<subseteq> addresses c1"
proof -
  have "block (cidr_block c2) \<subseteq> block (cidr_block c1)"
    using assms unfolding contains_address_iff cidr_block_def Let_def
    by (intro block_nested [where x = "unat w"]) auto
  then show ?thesis by (auto simp: contains_address_iff)
qed

lemma overlaps_addresses:
  assumes "cidr_mask c1 \<le> cidr_mask c2"
  shows "overlaps c1 c2 \<longleftrightarrow> addresses c2 \<subseteq> addresses c1"
    and "overlaps c1 c2 \<longleftrightarrow> (\<exists>w. contains_address c1 w \<and> contains_address c2 w)"
  using addresses_nested [OF assms] overlaps_contains [OF assms] contains_own_address by blast+

lemma unat_canonical:
  fixes c :: "'a::len word cidr"
  shows "unat (cidr_addr (canonical c)) = fst (cidr_block c) * 2 ^ snd (cidr_block c)"
  by (simp add: canonical_def unat_normalize cidr_block_def Let_def)

lemma cidr_block_canonical [simp]: "cidr_block (canonical c) = cidr_block c"
  by (simp add: cidr_block_def canonical_def unat_normalize)

lemma canonical_least:
  fixes c :: "'a::len word cidr"
  shows "cidr_addr (canonical c) = Min (addresses c)"
proof (rule Min_eqI [symmetric])
  show "cidr_addr (canonical c) \<in> addresses c"
    using contains_own_address [of "canonical c"] by (simp add: contains_address_iff)
  show "cidr_addr (canonical c) \<le> w" if "w \<in> addresses c" for w
    using that by (cases "cidr_block c") (simp add: contains_address_iff word_le_nat_alt unat_canonical block_eq)
qed simp

lemma overlaps_cases:
  "(overlaps c1 c2 \<longleftrightarrow> (\<exists>w. contains_address c1 w \<and> contains_address c2 w)) \<and>
   (overlaps c1 c2 \<longleftrightarrow> addresses c1 \<subseteq> addresses c2 \<or> addresses c2 \<subseteq> addresses c1)"
proof (cases "cidr_mask c1 \<le> cidr_mask c2")
  case True
  then show ?thesis using overlaps_addresses [OF True] contains_own_address by blast
next
  case False
  then have "cidr_mask c2 \<le> cidr_mask c1" by simp
  from overlaps_addresses [OF this] show ?thesis using contains_own_address overlaps_sym by blast
qed

lemma addresses_canonical: "addresses (canonical c) = addresses c"
  by (simp add: contains_address_iff)

text \<open>C33: Two prefixes overlap, as \<open>overlaps\<close> decides it by comparing their addresses under the shorter mask, exactly when some
  address is contained in both, and exactly when one of them contains all of the other. The canonical form has the same
  addresses, and its own is the smallest of them.\<close>

theorem overlaps_iff_common_address:
  fixes c1 c2 :: "'a::len word cidr"
  shows "(overlaps c1 c2 \<longleftrightarrow> (\<exists>w. contains_address c1 w \<and> contains_address c2 w)) \<and>
    (overlaps c1 c2 \<longleftrightarrow> addresses c1 \<subseteq> addresses c2 \<or> addresses c2 \<subseteq> addresses c1) \<and>
    addresses (canonical c1) = addresses c1 \<and>
    cidr_addr (canonical c1) = Min (addresses c1)"
  using overlaps_cases [of c1 c2] canonical_least [of c1] addresses_canonical [of c1] by blast

end
