(* ===== verification/Ip_Range.thy ===== *)
theory Ip_Range
  imports Ip_Cidr Rust_Text
begin

text \<open>
  Address ranges and their conversion to prefixes, \<open>AddressRange\<close> of \<open>proxmox-network-types/src/ip_address.rs\<close>.
\<close>

section \<open>The conversion\<close>

datatype ip_range_error = MismatchedFamilies | StartGreaterThanLast | InvalidFormat

record 'w address_range =
  range_start :: 'w
  range_last :: 'w

definition range_new :: "'a::len word \<Rightarrow> 'a word \<Rightarrow> (ip_range_error, 'a word address_range) result" where
  "range_new s l = (if s > l then Inl StartGreaterThanLast else Inr \<lparr>range_start = s, range_last = l\<rparr>)"

text \<open>The integer methods of the standard library that the loop uses.\<close>

fun nat_trailing_zeros :: "nat \<Rightarrow> nat" where
  "nat_trailing_zeros n = (if n = 0 \<or> odd n then 0 else Suc (nat_trailing_zeros (n div 2)))"

declare nat_trailing_zeros.simps [simp del]

definition trailing_zeros :: "'a::len word \<Rightarrow> nat" where
  "trailing_zeros w = (if w = 0 then LENGTH('a) else nat_trailing_zeros (unat w))"

definition checked_ilog2 :: "'a::len word \<Rightarrow> nat option" where
  "checked_ilog2 w = (if w = 0 then None else Some (ilog2 (unat w)))"

definition saturating_pow2 :: "nat \<Rightarrow> 'a::len word" where
  "saturating_pow2 n = (if n < LENGTH('a) then 2 ^ n else - 1)"

definition checked_add :: "'a::len word \<Rightarrow> 'a word \<Rightarrow> 'a word option" where
  "checked_add a b = (if unat a + unat b < 2 ^ LENGTH('a) then Some (a + b) else None)"

lemma checked_add_SomeD: "checked_add a b = Some c \<Longrightarrow> unat c = unat a + unat b"
  by (auto simp: checked_add_def unat_word_ariths split: if_splits)

lemma unat_pow2: "n < LENGTH('a) \<Longrightarrow> unat (2 ^ n :: 'a::len word) = 2 ^ n"
proof -
  assume "n < LENGTH('a)"
  moreover have "(2::'a word) ^ n = of_nat (2 ^ n)" by simp
  ultimately show ?thesis by (simp add: unat_of_nat del: of_nat_power)
qed

lemma unat_saturating_pow2:
  "unat (saturating_pow2 n :: 'a::len word) = (if n < LENGTH('a) then 2 ^ n else 2 ^ LENGTH('a) - 1)"
  by (simp add: saturating_pow2_def unsigned_minus_1_eq_mask mask_eq_exp_minus_1 unat_pow2)

lemma saturating_pow2_pos: "0 < unat (saturating_pow2 n :: 'a::len word)"
  using one_less_power [of "2::nat" "LENGTH('a)"] by (simp add: unat_saturating_pow2)

text \<open>The loop; \<open>None\<close> is the panic of its \<open>unwrap\<close>.\<close>

function to_cidrs_loop :: "'a::len word \<Rightarrow> 'a word \<Rightarrow> 'a word cidr list option" where
  "to_cidrs_loop current final =
     (if current \<le> final then
        (let current_max_mask = LENGTH('a) - trailing_zeros current;
             delta_min_mask =
               (case checked_ilog2 (final - current + 1) of Some m \<Rightarrow> LENGTH('a) - m | None \<Rightarrow> LENGTH('a));
             netmask = max current_max_mask delta_min_mask
         in case cidr_new current netmask of
              Inl e \<Rightarrow> None
            | Inr c \<Rightarrow>
                (case checked_add current (saturating_pow2 (LENGTH('a) - netmask)) of
                   None \<Rightarrow> Some [c]
                 | Some nxt \<Rightarrow> map_option ((#) c) (to_cidrs_loop nxt final)))
      else Some [])"
  by pat_completeness auto
termination
proof (relation "measure (\<lambda>(current, final). 2 ^ LENGTH('a) - unat current)")
  fix current final nxt :: "'a word" and x xa xb xc
  show "wf (measure (\<lambda>(current::'a word, final::'a word). 2 ^ LENGTH('a) - unat current))" by simp
  assume "checked_add current (saturating_pow2 (LENGTH('a) - xb)) = Some nxt"
  from checked_add_SomeD [OF this] have "unat current < unat nxt"
    using saturating_pow2_pos by (metis less_add_same_cancel1)
  then show "((nxt, final), current, final) \<in> measure (\<lambda>(current, final). 2 ^ LENGTH('a) - unat current)"
    by (simp add: diff_less_mono2)
qed

declare to_cidrs_loop.simps [simp del]

definition to_cidrs :: "'a::len word address_range \<Rightarrow> 'a word cidr list option" where
  "to_cidrs r =
     (let current = range_start r; final = range_last r
      in if current = final then (case cidr_new current LENGTH('a) of Inl e \<Rightarrow> None | Inr c \<Rightarrow> Some [c])
         else if current = 0 \<and> final = - 1 then (case cidr_new current 0 of Inl e \<Rightarrow> None | Inr c \<Rightarrow> Some [c])
         else to_cidrs_loop current final)"

section \<open>The two masks\<close>

lemma dvd_iff_trailing_zeros: "0 < n \<Longrightarrow> 2 ^ k dvd n \<longleftrightarrow> k \<le> nat_trailing_zeros n"
proof (induction n arbitrary: k rule: nat_trailing_zeros.induct)
  case (1 n)
  show ?case
  proof (cases "odd n")
    case True
    then have "2 ^ k dvd n \<longleftrightarrow> k = 0"
      by (metis dvd_trans dvd_power gr0I one_dvd power_0 zero_less_numeral)
    with True show ?thesis by (simp add: nat_trailing_zeros.simps)
  next
    case False
    then obtain m where m: "n = 2 * m" by blast
    have "0 < m" using 1(2) m by simp
    then have "2 ^ j dvd m \<longleftrightarrow> j \<le> nat_trailing_zeros m" for j
      using 1(1) [of j] 1(2) m by simp
    then show ?thesis using False 1(2) m
      by (cases k) (simp_all add: nat_trailing_zeros.simps [of "2 * m"])
  qed
qed

text \<open>
  One round of the loop adds the largest aligned block that begins at the current address and does not exceed the
  range.
\<close>

definition fits :: "nat \<Rightarrow> nat \<Rightarrow> nat \<Rightarrow> bool" where
  "fits a b k \<longleftrightarrow> 2 ^ k dvd a \<and> a + 2 ^ k \<le> b + 1"

lemma unat_max: "unat (- 1 :: 'a::len word) = 2 ^ LENGTH('a) - 1"
  by (simp add: unsigned_minus_1_eq_mask mask_eq_exp_minus_1)

lemma unat_plus_one_diff:
  fixes current final :: "'a::len word"
  assumes "current \<le> final" "\<not> (current = 0 \<and> final = - 1)"
  shows "unat (final - current + 1) = unat final - unat current + 1"
proof -
  have diff: "unat (final - current) = unat final - unat current" using assms(1) by (rule unat_sub)
  have lt: "unat final < 2 ^ LENGTH('a)" by (rule unsigned_less)
  consider "unat current \<noteq> 0" | "unat final \<noteq> 2 ^ LENGTH('a) - 1"
    using assms(2) by (auto simp: word_unat_eq_iff unat_max)
  then have "unat final - unat current + 1 < 2 ^ LENGTH('a)"
    using lt assms(1) unfolding word_le_nat_alt by cases linarith+
  then show ?thesis by (simp add: unat_word_ariths diff)
qed

lemma to_cidrs_loop_step:
  fixes current final :: "'a::len word"
  assumes "current \<le> final" "\<not> (current = 0 \<and> final = - 1)"
  obtains K where "fits (unat current) (unat final) K" "\<And>k. fits (unat current) (unat final) k \<Longrightarrow> k \<le> K" "K < LENGTH('a)"
    "to_cidrs_loop current final =
       (case checked_add current (2 ^ K) of
          None \<Rightarrow> Some [\<lparr>cidr_addr = current, cidr_mask = LENGTH('a) - K\<rparr>]
        | Some nxt \<Rightarrow> map_option ((#) \<lparr>cidr_addr = current, cidr_mask = LENGTH('a) - K\<rparr>) (to_cidrs_loop nxt final))"
proof -
  let ?n = "unat final - unat current + 1"
  have n: "unat (final - current + 1) = ?n" using unat_plus_one_diff [OF assms] .
  have le: "unat current \<le> unat final" using assms(1) by (simp add: word_le_nat_alt)
  have "?n < 2 ^ LENGTH('a)" using unsigned_less [of "final - current + 1", where 'a = nat] n by simp
  then have log: "ilog2 ?n < LENGTH('a)"
    using le_iff_ilog2 [of ?n "LENGTH('a)"] by simp
  define K where "K = min (trailing_zeros current) (ilog2 ?n)"
  have tz: "2 ^ k dvd unat current \<longleftrightarrow> k \<le> trailing_zeros current" if "k \<le> ilog2 ?n" for k
    using that log dvd_iff_trailing_zeros [of "unat current" k]
    by (cases "current = 0") (auto simp: trailing_zeros_def unat_gt_0)
  have fits: "fits (unat current) (unat final) k \<longleftrightarrow> k \<le> K" for k
    using tz [of k] le_iff_ilog2 [of ?n k] le by (auto simp: fits_def K_def)
  have K: "K < LENGTH('a)" using log by (simp add: K_def)
  have ne: "final - current + 1 \<noteq> 0" using n by (metis Suc_eq_plus1 nat.simps(3) unsigned_0)
  have mask: "max (LENGTH('a) - trailing_zeros current)
      (case checked_ilog2 (final - current + 1) of Some m \<Rightarrow> LENGTH('a) - m | None \<Rightarrow> LENGTH('a)) = LENGTH('a) - K"
    using ne log by (simp add: checked_ilog2_def n K_def)
  have "to_cidrs_loop current final =
       (case checked_add current (2 ^ K) of
          None \<Rightarrow> Some [\<lparr>cidr_addr = current, cidr_mask = LENGTH('a) - K\<rparr>]
        | Some nxt \<Rightarrow> map_option ((#) \<lparr>cidr_addr = current, cidr_mask = LENGTH('a) - K\<rparr>) (to_cidrs_loop nxt final))"
    using assms(1) K by (subst to_cidrs_loop.simps) (simp add: Let_def mask cidr_new_def saturating_pow2_def
        leD [OF diff_le_self])
  then show ?thesis using that [of K] fits K by simp
qed

section \<open>Covers by blocks\<close>

lemma fits_block: "2 ^ K dvd a \<Longrightarrow> block (a div 2 ^ K, K) = {a ..< a + 2 ^ K}"
  by (simp add: block_eq)

text \<open>
  A cover of a range by blocks loses at least one block when the largest block that fits at its start is taken off:
  the block of the cover that holds the start lies within it, and all others lie within it or beside it.
\<close>

lemma cover_without_first:
  assumes K: "fits a b K" "\<And>k. fits a b k \<Longrightarrow> k \<le> K"
    and cover: "\<Union> (block ` set ds) = {a..b}"
  shows "\<exists>ds'. length ds' < length ds \<and> \<Union> (block ` set ds') = {a + 2 ^ K..b}"
proof -
  let ?B = "block (a div 2 ^ K, K)"
  have B: "?B = {a ..< a + 2 ^ K}" using K(1) by (intro fits_block) (simp add: fits_def)
  have "a + 2 ^ K \<le> b + 1" "0 < (2::nat) ^ K" using K(1) by (simp_all add: fits_def)
  then have "a \<le> b" by linarith
  then have a: "a \<in> {a..b}" by simp
  have inside: "d \<in> set ds \<Longrightarrow> block d \<subseteq> {a..b}" for d using cover by blast
  have start: "snd d \<le> K" if "d \<in> set ds" "a \<in> block d" for d
  proof -
    obtain q k where d: "d = (q, k)" by (cases d)
    have "q * 2 ^ k \<in> block d" "q * 2 ^ k + (2 ^ k - 1) \<in> block d"
      using zero_less_power [of "2::nat" k] unfolding d block_eq atLeastLessThan_iff by linarith+
    with inside [OF that(1)] have "a \<le> q * 2 ^ k" "q * 2 ^ k + (2 ^ k - 1) \<le> b" by auto
    moreover have "q * 2 ^ k \<le> a" using that(2) by (simp add: d block_eq)
    ultimately have "a = q * 2 ^ k" "a + (2 ^ k - 1) \<le> b" by auto
    then have "fits a b k" by (auto simp: fits_def)
    with K(2) show ?thesis by (simp add: d)
  qed
  have aB: "a \<in> ?B" by (simp add: B)
  have sub: "block d \<subseteq> ?B \<or> block d \<inter> ?B = {}" if "d \<in> set ds" for d
  proof (cases "\<exists>x. x \<in> block d \<inter> ?B")
    case True
    then obtain x where x: "x \<in> block d" "x \<in> ?B" by blast
    obtain q k where d: "d = (q, k)" by (cases d)
    show ?thesis
    proof (cases "k \<le> K")
      case True
      then show ?thesis using block_nested [OF True] x by (simp add: d)
    next
      case False
      then have "?B \<subseteq> block d" using block_nested [of K k x] x by (simp add: d)
      with aB start [OF that] False show ?thesis by (auto simp: d)
    qed
  qed auto
  let ?ds' = "filter (\<lambda>d. \<not> block d \<subseteq> ?B) ds"
  obtain d where d: "d \<in> set ds" "a \<in> block d" using a cover by blast
  have "block d \<subseteq> ?B" using sub [OF d(1)] d(2) aB by blast
  then have "length ?ds' < length ds" using d(1) by (intro length_filter_less) auto
  moreover have "\<Union> (block ` set ?ds') = {a..b} - ?B"
  proof
    show "\<Union> (block ` set ?ds') \<subseteq> {a..b} - ?B" using inside sub by fastforce
    show "{a..b} - ?B \<subseteq> \<Union> (block ` set ?ds')" using cover by fastforce
  qed
  moreover have "{a..b} - ?B = {a + 2 ^ K..b}" by (auto simp: B)
  ultimately show ?thesis by metis
qed

text \<open>Every range of numbers below \<open>2 ^ n\<close> has a cover by at most \<open>2 n\<close> blocks.\<close>

lemma cover_upto:
  assumes "m \<le> 2 ^ n" "0 < m" "2 ^ n dvd a"
  shows "\<exists>ds. length ds \<le> n + 1 \<and> \<Union> (block ` set ds) = {a ..< a + m}"
  using assms
proof (induction n arbitrary: m a)
  case 0
  then have "m = 2 ^ 0" by simp
  then show ?case using fits_block [of 0 a] by (intro exI [of _ "[(a div 2 ^ 0, 0)]"]) simp
next
  case (Suc n)
  have dvd: "2 ^ n dvd a" using Suc.prems(3) by (metis dvd_mult_left power_Suc2)
  show ?case
  proof (cases "m \<le> 2 ^ n")
    case True
    then obtain ds where "length ds \<le> n + 1" "\<Union> (block ` set ds) = {a ..< a + m}"
      using Suc.IH [OF True Suc.prems(2) dvd] by blast
    then show ?thesis by (intro exI [of _ ds]) simp
  next
    case False
    have "m - 2 ^ n \<le> 2 ^ n" "0 < m - 2 ^ n" "2 ^ n dvd a + 2 ^ n"
      using Suc.prems(1) False dvd unfolding power_Suc by (linarith, linarith, simp)
    from Suc.IH [OF this] obtain ds
      where ds: "length ds \<le> n + 1" "\<Union> (block ` set ds) = {a + 2 ^ n ..< a + 2 ^ n + (m - 2 ^ n)}" by blast
    have "{a ..< a + 2 ^ n} \<union> {a + 2 ^ n ..< a + 2 ^ n + (m - 2 ^ n)} = {a ..< a + m}"
      using False by (subst ivl_disj_un_two(3)) simp_all
    then show ?thesis using ds by (intro exI [of _ "(a div 2 ^ n, n) # ds"]) (simp add: fits_block [OF dvd])
  qed
qed

lemma cover_from:
  assumes "m < 2 ^ n" "2 ^ n dvd a"
  shows "\<exists>ds. length ds \<le> n + 1 \<and> \<Union> (block ` set ds) = {a + m ..< a + 2 ^ n}"
  using assms
proof (induction n arbitrary: m a)
  case 0
  then have "m = 0" by simp
  then show ?case using fits_block [of 0 a] by (intro exI [of _ "[(a div 2 ^ 0, 0)]"]) simp
next
  case (Suc n)
  have dvd: "2 ^ n dvd a" using Suc.prems(2) by (metis dvd_mult_left power_Suc2)
  then have dvd': "2 ^ n dvd a + 2 ^ n" by simp
  show ?case
  proof (cases "m < 2 ^ n")
    case False
    have "m - 2 ^ n < 2 ^ n" using Suc.prems(1) False unfolding power_Suc by linarith
    from Suc.IH [OF this dvd']
    obtain ds where "length ds \<le> n + 1" "\<Union> (block ` set ds) = {a + 2 ^ n + (m - 2 ^ n) ..< a + 2 ^ n + 2 ^ n}"
      by blast
    with False show ?thesis by (intro exI [of _ ds]) (simp add: mult_2 add.assoc)
  next
    case True
    obtain ds where ds: "length ds \<le> n + 1" "\<Union> (block ` set ds) = {a + m ..< a + 2 ^ n}"
      using Suc.IH [OF True dvd] by auto
    have "{a + 2 ^ n ..< a + 2 ^ n + 2 ^ n} \<union> {a + m ..< a + 2 ^ n} = {a + m ..< a + 2 ^ Suc n}"
      using True by (subst Un_commute, subst ivl_disj_un_two(3)) (simp_all add: mult_2 add.assoc)
    then show ?thesis using ds fits_block [OF dvd']
      by (intro exI [of _ "((a + 2 ^ n) div 2 ^ n, n) # ds"]) (simp del: div_add_self2)
  qed
qed

lemma short_cover:
  assumes "a \<le> b" "b < 2 ^ n"
  shows "\<exists>ds. length ds \<le> max 1 (2 * n) \<and> \<Union> (block ` set ds) = {c * 2 ^ n + a..c * 2 ^ n + b}"
  using assms
proof (induction n arbitrary: a b c)
  case 0
  then have "a = 0" "b = 0" by simp_all
  then show ?case using fits_block [of 0 c] by (intro exI [of _ "[(c div 2 ^ 0, 0)]"]) auto
next
  case (Suc n)
  let ?base = "c * 2 ^ Suc n" and ?h = "2 ^ n :: nat"
  consider "b < ?h" | "?h \<le> a" | "a < ?h" "?h \<le> b" by linarith
  then show ?case
  proof cases
    case 1
    obtain ds where "length ds \<le> max 1 (2 * n)" "\<Union> (block ` set ds) = {2 * c * ?h + a..2 * c * ?h + b}"
      using Suc.IH [of a b "2 * c"] 1 Suc.prems(1) by auto
    then show ?thesis by (intro exI [of _ ds]) (simp add: mult_ac)
  next
    case 2
    have lt: "b - ?h < ?h" using Suc.prems(2) 2 unfolding power_Suc by linarith
    obtain ds where ds: "length ds \<le> max 1 (2 * n)"
      "\<Union> (block ` set ds) = {(2 * c + 1) * ?h + (a - ?h)..(2 * c + 1) * ?h + (b - ?h)}"
      using Suc.IH [OF diff_le_mono [OF Suc.prems(1)] lt, of "2 * c + 1"] by blast
    have "(2 * c + 1) * ?h + (x - ?h) = ?base + x" if "?h \<le> x" for x
      using that by (simp add: add_mult_distrib)
    then show ?thesis using ds 2 Suc.prems(1) by (intro exI [of _ ds]) simp
  next
    case 3
    obtain ds where ds: "length ds \<le> n + 1" "\<Union> (block ` set ds) = {?base + a ..< ?base + ?h}"
      using cover_from [OF 3(1), of ?base] by auto
    have up: "b - ?h + 1 \<le> ?h" using Suc.prems(2) 3(2) unfolding power_Suc by linarith
    obtain es where es: "length es \<le> n + 1" "\<Union> (block ` set es) = {?base + ?h ..< ?base + ?h + (b - ?h + 1)}"
      using cover_upto [OF up, of "?base + ?h"] by auto
    have "{?base + a ..< ?base + ?h} \<union> {?base + ?h ..< ?base + ?h + (b - ?h + 1)} = {?base + a..?base + b}"
      using 3 by (subst ivl_disj_un_two(3)) (simp_all add: atLeastLessThanSuc_atLeastAtMost)
    then show ?thesis using ds es by (intro exI [of _ "ds @ es"]) simp
  qed
qed

section \<open>The loop\<close>

lemma canonical_eq_iff: "canonical c = c \<longleftrightarrow> 2 ^ snd (cidr_block c) dvd unat (cidr_addr c)"
proof -
  have "canonical c = c \<longleftrightarrow> cidr_addr (canonical c) = cidr_addr c"
    by (cases c) (simp add: canonical_def)
  also have "\<dots> \<longleftrightarrow> unat (cidr_addr c) div 2 ^ snd (cidr_block c) * 2 ^ snd (cidr_block c) = unat (cidr_addr c)"
    by (simp add: word_unat_eq_iff unat_canonical) (simp add: cidr_block_def Let_def)
  also have "\<dots> \<longleftrightarrow> 2 ^ snd (cidr_block c) dvd unat (cidr_addr c)"
    by (metis dvd_div_mult_self dvd_triv_right)
  finally show ?thesis .
qed

lemma ivl_join: "a \<le> c \<Longrightarrow> c \<le> b + 1 \<Longrightarrow> {a..<c} \<union> {c..b} = {a..b}" for a b c :: nat
  by auto

definition precedes :: "'a::len word cidr \<Rightarrow> 'a word cidr \<Rightarrow> bool" where
  "precedes c d \<longleftrightarrow> unat (cidr_addr c) + 2 ^ snd (cidr_block c) \<le> unat (cidr_addr d)"

lemma to_cidrs_loop_spec:
  fixes current final :: "'a::len word"
  assumes "\<not> (current = 0 \<and> final = - 1)"
  shows "\<exists>cs. to_cidrs_loop current final = Some cs \<and> \<Union> (block ` cidr_block ` set cs) = {unat current..unat final} \<and>
    sorted_wrt precedes cs \<and> list_all (\<lambda>c. cidr_ok c \<and> canonical c = c) cs \<and>
    (\<forall>ds. \<Union> (block ` set ds) = {unat current..unat final} \<longrightarrow> length cs \<le> length ds)"
  using assms
proof (induction "2 ^ LENGTH('a) - unat current" arbitrary: current rule: less_induct)
  case less
  show ?case
  proof (cases "current \<le> final")
    case False
    then show ?thesis by (subst to_cidrs_loop.simps) (simp add: word_le_nat_alt)
  next
    case True
    let ?a = "unat current" and ?b = "unat final"
    obtain K where K: "fits ?a ?b K" "\<And>k. fits ?a ?b k \<Longrightarrow> k \<le> K" "K < LENGTH('a)"
      and loop: "to_cidrs_loop current final =
       (case checked_add current (2 ^ K) of
          None \<Rightarrow> Some [\<lparr>cidr_addr = current, cidr_mask = LENGTH('a) - K\<rparr>]
        | Some nxt \<Rightarrow> map_option ((#) \<lparr>cidr_addr = current, cidr_mask = LENGTH('a) - K\<rparr>) (to_cidrs_loop nxt final))"
      using to_cidrs_loop_step [OF True less.prems] by blast
    define c where "c = \<lparr>cidr_addr = current, cidr_mask = LENGTH('a) - K\<rparr>"
    have aligned: "2 ^ K dvd ?a" and le: "?a + 2 ^ K \<le> ?b + 1" using K(1) by (simp_all add: fits_def)
    have c: "cidr_block c = (?a div 2 ^ K, K)" using K(3) by (simp add: c_def cidr_block_def)
    have block_c: "block (cidr_block c) = {?a ..< ?a + 2 ^ K}" by (simp add: c fits_block [OF aligned])
    have good: "cidr_ok c \<and> canonical c = c" using aligned by (simp add: canonical_eq_iff c) (simp add: c_def cidr_ok_def)
    show ?thesis
    proof (cases "checked_add current (2 ^ K)")
      case None
      then have "\<not> ?a + 2 ^ K < 2 ^ LENGTH('a)" by (simp add: checked_add_def unat_pow2 [OF K(3)] split: if_splits)
      then have "?a + 2 ^ K = ?b + 1"
        using le unsigned_less [of final, where 'a = nat] by linarith
      then have "block (cidr_block c) = {?a..?b}" using block_c by (simp add: atLeastLessThanSuc_atLeastAtMost)
      moreover have "\<Union> (block ` set ds) = {?a..?b} \<longrightarrow> 1 \<le> length ds" for ds
        using True by (cases ds) (auto simp: word_le_nat_alt)
      ultimately show ?thesis using loop None good by (simp add: c_def [symmetric])
    next
      case (Some nxt)
      have nxt: "unat nxt = ?a + 2 ^ K" using checked_add_SomeD [OF Some] unat_pow2 [OF K(3)] by simp
      then have "nxt \<noteq> 0" by auto
      moreover have "2 ^ LENGTH('a) - unat nxt < 2 ^ LENGTH('a) - ?a" by (simp add: nxt diff_less_mono2)
      ultimately obtain cs where cs: "to_cidrs_loop nxt final = Some cs"
        "\<Union> (block ` cidr_block ` set cs) = {unat nxt..?b}" "sorted_wrt precedes cs"
        "list_all (\<lambda>c. cidr_ok c \<and> canonical c = c) cs"
        "\<And>ds. \<Union> (block ` set ds) = {unat nxt..?b} \<Longrightarrow> length cs \<le> length ds"
        using less.hyps [of nxt] by blast
      have "{?a ..< ?a + 2 ^ K} \<union> {?a + 2 ^ K..?b} = {?a..?b}"
        using le by (intro ivl_join) simp_all
      then have union: "\<Union> (block ` cidr_block ` set (c # cs)) = {?a..?b}"
        using cs(2) by (simp add: block_c nxt)
      have "precedes c d" if "d \<in> set cs" for d
      proof -
        have "unat (cidr_addr d) \<in> block (cidr_block d)"
          using contains_own_address [of d] by (simp add: contains_address_iff)
        with cs(2) that have "unat (cidr_addr d) \<in> {unat nxt..?b}" by blast
        then show ?thesis by (simp add: precedes_def c nxt) (simp add: c_def)
      qed
      moreover have "Suc (length cs) \<le> length ds" if "\<Union> (block ` set ds) = {?a..?b}" for ds
        using cover_without_first [OF K(1,2) that] cs(5) nxt by (metis Suc_leI le_less_trans)
      ultimately show ?thesis
        using loop Some cs(1,3,4) good union by (intro exI [of _ "c # cs"]) (simp add: c_def [symmetric])
    qed
  qed
qed

text \<open>The same for the whole conversion, with its two special cases.\<close>

lemma to_cidrs_spec:
  fixes r :: "'a::len word address_range"
  assumes "range_start r \<le> range_last r"
  shows "\<exists>cs. to_cidrs r = Some cs \<and>
    \<Union> (block ` cidr_block ` set cs) = {unat (range_start r)..unat (range_last r)} \<and>
    sorted_wrt precedes cs \<and> list_all (\<lambda>c. cidr_ok c \<and> canonical c = c) cs \<and>
    (\<forall>ds. \<Union> (block ` set ds) = {unat (range_start r)..unat (range_last r)} \<longrightarrow> length cs \<le> length ds)"
proof -
  let ?a = "unat (range_start r)" and ?b = "unat (range_last r)"
  have nonempty: "\<Union> (block ` set ds) = {?a..?b} \<longrightarrow> Suc 0 \<le> length ds" for ds
    using assms by (cases ds) (auto simp: word_le_nat_alt)
  consider "range_start r = range_last r" | "range_start r = 0" "range_last r = - 1" "range_start r \<noteq> range_last r"
    | "range_start r \<noteq> range_last r" "\<not> (range_start r = 0 \<and> range_last r = - 1)" by blast
  then show ?thesis
  proof cases
    case 1
    define c where "c = \<lparr>cidr_addr = range_start r, cidr_mask = LENGTH('a)\<rparr>"
    have "block (cidr_block c) = {?a..?a}" by (auto simp: c_def block_def cidr_block_def)
    moreover have "to_cidrs r = Some [c]" using 1 by (simp add: to_cidrs_def cidr_new_def c_def)
    moreover have "cidr_ok c \<and> canonical c = c" by (simp add: c_def canonical_eq_iff cidr_ok_def cidr_block_def)
    ultimately show ?thesis using nonempty 1 by simp
  next
    case 2
    have "block (0, LENGTH('a)) = {0..?b}"
      by (simp add: block_eq 2 unat_max flip: atLeastLessThanSuc_atLeastAtMost)
    moreover have "to_cidrs r = Some [\<lparr>cidr_addr = 0, cidr_mask = 0\<rparr>]"
      using 2 by (simp add: to_cidrs_def cidr_new_def)
    ultimately show ?thesis using nonempty 2(1)
      by (simp add: cidr_block_def canonical_eq_iff cidr_ok_def)
  next
    case 3
    then have "to_cidrs r = to_cidrs_loop (range_start r) (range_last r)" by (auto simp: to_cidrs_def Let_def)
    then show ?thesis using to_cidrs_loop_spec [OF 3(2)] by simp
  qed
qed

lemma range_new_le: "range_new s l = Inr r \<Longrightarrow> range_start r = s \<and> range_last r = l \<and> s \<le> l"
  by (auto simp: range_new_def split: if_splits)

lemma addresses_cover:
  fixes s l :: "'a::len word"
  shows "\<Union> (addresses ` S) = {s..l} \<longleftrightarrow> \<Union> (block ` cidr_block ` S) = {unat s..unat l}"
proof
  assume cover: "\<Union> (addresses ` S) = {s..l}"
  show "\<Union> (block ` cidr_block ` S) = {unat s..unat l}"
  proof (intro set_eqI iffI)
    fix x assume "x \<in> \<Union> (block ` cidr_block ` S)"
    then obtain c where c: "c \<in> S" "x \<in> block (cidr_block c)" by blast
    then obtain w where w: "contains_address c w" "unat w = x" using block_ex_word by blast
    then have "w \<in> {s..l}" using cover c(1) by blast
    with w(2) show "x \<in> {unat s..unat l}" by (auto simp: word_le_nat_alt)
  next
    fix x assume x: "x \<in> {unat s..unat l}"
    then have "x < 2 ^ LENGTH('a)" using unsigned_less [of l, where 'a = nat] unfolding atLeastAtMost_iff by linarith
    then have w: "unat (of_nat x :: 'a word) = x" by (simp add: unat_of_nat)
    then have "of_nat x \<in> {s..l}" using x by (simp add: word_le_nat_alt)
    then obtain c where "c \<in> S" "contains_address c (of_nat x)" using cover by blast
    then show "x \<in> \<Union> (block ` cidr_block ` S)" using w by (auto simp: contains_address_iff)
  qed
next
  assume "\<Union> (block ` cidr_block ` S) = {unat s..unat l}"
  then show "\<Union> (addresses ` S) = {s..l}"
    by (auto simp: contains_address_iff set_eq_iff word_le_nat_alt)
qed

lemma precedes_apart:
  assumes "precedes c d" "canonical c = c" "canonical d = d"
  shows "cidr_addr c < cidr_addr d \<and> \<not> overlaps c d"
proof -
  have blocks: "block (cidr_block c) = {unat (cidr_addr c) ..< unat (cidr_addr c) + 2 ^ snd (cidr_block c)}"
    "block (cidr_block d) = {unat (cidr_addr d) ..< unat (cidr_addr d) + 2 ^ snd (cidr_block d)}"
    using unat_canonical [of c] unat_canonical [of d] assms(2,3)
    by (metis block_eq prod.collapse)+
  have "\<not> (contains_address c w \<and> contains_address d w)" for w
    using assms(1) by (auto simp: contains_address_iff blocks precedes_def)
  then have "\<not> overlaps c d" using overlaps_cases by blast
  moreover have "0 < (2::nat) ^ snd (cidr_block c)" by simp
  then have "cidr_addr c < cidr_addr d" using assms(1) unfolding precedes_def word_less_nat_alt by linarith
  ultimately show ?thesis by simp
qed

text \<open>C31: A range converts to prefixes that cover exactly its addresses, in ascending order, without overlap and each in
  canonical form, and no list of prefixes with fewer elements covers it. The conversion never panics.\<close>

theorem to_cidrs_exact_and_minimal:
  fixes s l :: "'a::len word"
  assumes "range_new s l = Inr r"
  shows "\<exists>cs. to_cidrs r = Some cs \<and> \<Union> (addresses ` set cs) = {s..l} \<and>
    sorted_wrt (\<lambda>c d. cidr_addr c < cidr_addr d \<and> \<not> overlaps c d) cs \<and>
    list_all (\<lambda>c. cidr_ok c \<and> canonical c = c) cs \<and>
    (\<forall>ds. \<Union> (addresses ` set ds) = {s..l} \<longrightarrow> length cs \<le> length ds)"
proof -
  have r: "range_start r = s" "range_last r = l" "range_start r \<le> range_last r" using range_new_le [OF assms] by auto
  obtain cs where cs: "to_cidrs r = Some cs" "\<Union> (block ` cidr_block ` set cs) = {unat s..unat l}"
    "sorted_wrt precedes cs" "list_all (\<lambda>c. cidr_ok c \<and> canonical c = c) cs"
    "\<And>ds. \<Union> (block ` set ds) = {unat s..unat l} \<Longrightarrow> length cs \<le> length ds"
    using to_cidrs_spec [OF r(3)] r(1,2) by auto
  have "sorted_wrt (\<lambda>c d. cidr_addr c < cidr_addr d \<and> \<not> overlaps c d) cs"
    using cs(3) by (rule sorted_wrt_mono_rel [rotated]) (use cs(4) precedes_apart in \<open>auto simp: list_all_iff\<close>)
  moreover have "length cs \<le> length ds" if "\<Union> (addresses ` set ds) = {s..l}" for ds
    using cs(5) [of "map cidr_block ds"] that by (simp add: addresses_cover)
  ultimately show ?thesis using cs(1,2,4) by (auto simp: addresses_cover)
qed

text \<open>The conversion of 0.0.0.5-0.0.0.8.\<close>

lemma to_cidrs_example:
  "range_new 5 8 = Inr \<lparr>range_start = 5, range_last = (8::32 word)\<rparr>"
  "to_cidrs \<lparr>range_start = 5, range_last = (8::32 word)\<rparr> =
     Some [\<lparr>cidr_addr = 5, cidr_mask = 32\<rparr>, \<lparr>cidr_addr = 6, cidr_mask = 31\<rparr>, \<lparr>cidr_addr = 8, cidr_mask = 32\<rparr>]"
proof -
  show "range_new 5 8 = Inr \<lparr>range_start = 5, range_last = (8::32 word)\<rparr>" by (simp add: range_new_def)
  note eval = trailing_zeros_def checked_ilog2_def nat_trailing_zeros.simps ilog2.simps cidr_new_def checked_add_def
    saturating_pow2_def
  have "to_cidrs_loop 9 (8::32 word) = Some []" by (subst to_cidrs_loop.simps) simp
  then have "to_cidrs_loop 8 (8::32 word) = Some [\<lparr>cidr_addr = 8, cidr_mask = 32\<rparr>]"
    by (subst to_cidrs_loop.simps) (simp add: eval)
  then have "to_cidrs_loop 6 (8::32 word) = Some [\<lparr>cidr_addr = 6, cidr_mask = 31\<rparr>, \<lparr>cidr_addr = 8, cidr_mask = 32\<rparr>]"
    by (subst to_cidrs_loop.simps) (simp add: eval)
  then have "to_cidrs_loop 5 (8::32 word) =
    Some [\<lparr>cidr_addr = 5, cidr_mask = 32\<rparr>, \<lparr>cidr_addr = 6, cidr_mask = 31\<rparr>, \<lparr>cidr_addr = 8, cidr_mask = 32\<rparr>]"
    by (subst to_cidrs_loop.simps) (simp add: eval)
  then show "to_cidrs \<lparr>range_start = 5, range_last = (8::32 word)\<rparr> =
     Some [\<lparr>cidr_addr = 5, cidr_mask = 32\<rparr>, \<lparr>cidr_addr = 6, cidr_mask = 31\<rparr>, \<lparr>cidr_addr = 8, cidr_mask = 32\<rparr>]"
    by (simp add: to_cidrs_def)
qed

theorem to_cidrs_exact_and_minimal_witness:
  "to_cidrs \<lparr>range_start = 5, range_last = (8::32 word)\<rparr> =
     Some [\<lparr>cidr_addr = 5, cidr_mask = 32\<rparr>, \<lparr>cidr_addr = 6, cidr_mask = 31\<rparr>, \<lparr>cidr_addr = 8, cidr_mask = 32\<rparr>] \<and>
   addresses \<lparr>cidr_addr = 5, cidr_mask = 32\<rparr> \<union> addresses \<lparr>cidr_addr = 6, cidr_mask = 31\<rparr> \<union>
     addresses \<lparr>cidr_addr = 8, cidr_mask = 32\<rparr> = {5..8::32 word}"
  using to_cidrs_exact_and_minimal [OF to_cidrs_example(1)] by (simp add: to_cidrs_example(2) Un_assoc)

text \<open>C32: The conversion ends after at most twice as many rounds as an address has bits: 64 prefixes for IPv4, 256 for
  IPv6.\<close>

theorem to_cidrs_terminates_within:
  fixes s l :: "'a::len word"
  assumes "range_new s l = Inr r"
  shows "\<exists>cs. to_cidrs r = Some cs \<and> length cs \<le> 2 * LENGTH('a)"
proof -
  have r: "range_start r = s" "range_last r = l" "range_start r \<le> range_last r" using range_new_le [OF assms] by auto
  have "unat s \<le> unat l" "unat l < 2 ^ LENGTH('a)" using r by (simp_all add: word_le_nat_alt)
  then obtain ds where "length ds \<le> max 1 (2 * LENGTH('a))" "\<Union> (block ` set ds) = {unat s..unat l}"
    using short_cover [of "unat s" "unat l" "LENGTH('a)" 0] by auto
  moreover have "max 1 (2 * LENGTH('a)) = 2 * LENGTH('a)" using len_gt_0 [where 'a = 'a] by linarith
  ultimately show ?thesis using to_cidrs_spec [OF r(3)] r(1,2) by fastforce
qed

theorem to_cidrs_terminates_within_witness:
  "\<exists>cs. to_cidrs \<lparr>range_start = 5, range_last = (8::32 word)\<rparr> = Some cs \<and> length cs \<le> 64"
  using to_cidrs_terminates_within [OF to_cidrs_example(1)] by simp

end
