(* ===== verification/Ip_Text.thy ===== *)
theory Ip_Text
  imports Ip_Range
begin

text \<open>
  The textual forms of addresses, prefixes and ranges in \<open>proxmox-network-types/src/ip_address.rs\<close>. Addresses are read
  and printed by the standard library, whose parser for \<open>Ipv4Addr\<close> and \<open>Ipv6Addr\<close> is written out first: a parser takes
  the remaining bytes and returns a value with the bytes it leaves.
\<close>

section \<open>Digits\<close>

definition octets :: "ipv4_addr \<Rightarrow> nat list" where
  "octets a = be_digits 256 4 (unat a)"

definition segments :: "ipv6_addr \<Rightarrow> nat list" where
  "segments a = be_digits 65536 8 (unat a)"

definition ipv4_from :: "nat list \<Rightarrow> ipv4_addr" where
  "ipv4_from os = of_nat (be_value 256 os)"

definition ipv6_from :: "nat list \<Rightarrow> ipv6_addr" where
  "ipv6_from gs = of_nat (be_value 65536 gs)"

lemma ipv4_from_octets [simp]: "ipv4_from (octets a) = a"
  using unsigned_less [of a, where 'a = nat] by (simp add: ipv4_from_def octets_def be_value_digits)

lemma ipv6_from_segments [simp]: "ipv6_from (segments a) = a"
  using unsigned_less [of a, where 'a = nat] by (simp add: ipv6_from_def segments_def be_value_digits)

section \<open>Numbers\<close>

text \<open>The loop of \<open>read_number\<close>: the digits read, their value and the rest, unless there are too many.\<close>

fun read_digits :: "nat \<Rightarrow> nat \<Rightarrow> nat \<Rightarrow> nat \<Rightarrow> string \<Rightarrow> (nat \<times> nat \<times> string) option" where
  "read_digits radix max_digits count acc [] = Some (count, acc, [])"
| "read_digits radix max_digits count acc (c # s) =
     (case to_digit radix c of
        None \<Rightarrow> Some (count, acc, c # s)
      | Some d \<Rightarrow> if Suc count > max_digits then None
                  else read_digits radix max_digits (Suc count) (acc * radix + d) s)"

definition read_number :: "nat \<Rightarrow> nat \<Rightarrow> bool \<Rightarrow> nat \<Rightarrow> string \<Rightarrow> (nat \<times> string) option" where
  "read_number radix max_digits allow_zero_prefix bound s =
     (case read_digits radix max_digits 0 0 s of
        None \<Rightarrow> None
      | Some (count, v, rest) \<Rightarrow>
          if count = 0 then None
          else if \<not> allow_zero_prefix \<and> take 1 s = ''0'' \<and> count > 1 then None
          else if v \<le> bound then Some (v, rest) else None)"

definition read_separator :: "char \<Rightarrow> nat \<Rightarrow> (string \<Rightarrow> ('b \<times> string) option) \<Rightarrow> string \<Rightarrow> ('b \<times> string) option" where
  "read_separator sep i inner s =
     (if i > 0 then (case strip_prefix_char sep s of None \<Rightarrow> None | Some s' \<Rightarrow> inner s') else inner s)"

fun read_octets :: "nat \<Rightarrow> nat \<Rightarrow> string \<Rightarrow> (nat list \<times> string) option" where
  "read_octets i 0 s = Some ([], s)"
| "read_octets i (Suc n) s =
     (case read_separator (CHR ''.'') i (read_number 10 3 False 255) s of
        None \<Rightarrow> None
      | Some (v, s') \<Rightarrow> map_option (\<lambda>(os, r). (v # os, r)) (read_octets (Suc i) n s'))"

definition read_ipv4_addr :: "string \<Rightarrow> (nat list \<times> string) option" where
  "read_ipv4_addr s = read_octets 0 4 s"

definition ipv4_from_str :: "string \<Rightarrow> ipv4_addr option" where
  "ipv4_from_str s =
     (if length s > 15 then None
      else case read_ipv4_addr s of Some (os, []) \<Rightarrow> Some (ipv4_from os) | _ \<Rightarrow> None)"

text \<open>At most \<open>limit\<close> groups, the last two possibly as an IPv4 address; whether they were is returned with them.\<close>

function read_groups :: "nat \<Rightarrow> nat \<Rightarrow> string \<Rightarrow> nat list \<times> bool \<times> string" where
  "read_groups limit i s =
     (if i < limit then
        (case (if i + 1 < limit then read_separator (CHR '':'') i read_ipv4_addr s else None) of
           Some (os, rest) \<Rightarrow> ([be_value 256 (take 2 os), be_value 256 (drop 2 os)], True, rest)
         | None \<Rightarrow>
             (case read_separator (CHR '':'') i (read_number 16 4 True 65535) s of
                Some (g, rest) \<Rightarrow> (case read_groups limit (Suc i) rest of (gs, v4, r) \<Rightarrow> (g # gs, v4, r))
              | None \<Rightarrow> ([], False, s)))
      else ([], False, s))"
  by pat_completeness auto
termination by (relation "measure (\<lambda>(limit, i, s). limit - i)") auto

declare read_groups.simps [simp del]

definition read_ipv6_addr :: "string \<Rightarrow> (nat list \<times> string) option" where
  "read_ipv6_addr s =
     (case read_groups 8 0 s of
        (head, head_ipv4, s1) \<Rightarrow>
          if length head = 8 then Some (head, s1)
          else if head_ipv4 then None
          else (case strip_prefix ''::'' s1 of
                  None \<Rightarrow> None
                | Some s2 \<Rightarrow>
                    (case read_groups (8 - (length head + 1)) 0 s2 of
                       (tail, _, s3) \<Rightarrow> Some (head @ replicate (8 - length head - length tail) 0 @ tail, s3))))"

definition ipv6_from_str :: "string \<Rightarrow> ipv6_addr option" where
  "ipv6_from_str s = (case read_ipv6_addr s of Some (gs, []) \<Rightarrow> Some (ipv6_from gs) | _ \<Rightarrow> None)"

section \<open>Printing addresses\<close>

definition ipv4_display :: "ipv4_addr \<Rightarrow> string" where
  "ipv4_display a = join ''.'' (map show_nat (octets a))"

definition to_ipv4_mapped :: "ipv6_addr \<Rightarrow> ipv4_addr option" where
  "to_ipv4_mapped a = (if drop_bit 32 a = 0xFFFF then Some (ucast a) else None)"

definition to_ipv6_mapped :: "ipv4_addr \<Rightarrow> ipv6_addr" where
  "to_ipv6_mapped a = ipv6_from ([0, 0, 0, 0, 0, 65535] @ be_digits 65536 2 (unat a))"

text \<open>The longest run of zero segments, the first one of those with equal length.\<close>

fun zero_span :: "nat \<Rightarrow> nat \<times> nat \<Rightarrow> nat \<times> nat \<Rightarrow> nat list \<Rightarrow> nat \<times> nat" where
  "zero_span i current longest [] = longest"
| "zero_span i current longest (g # gs) =
     (if g = 0 then
        (let current' = ((if snd current = 0 then i else fst current), snd current + 1)
         in zero_span (Suc i) current' (if snd current' > snd longest then current' else longest) gs)
      else zero_span (Suc i) (0, 0) longest gs)"

definition fmt_subslice :: "nat list \<Rightarrow> string" where
  "fmt_subslice chunk =
     (case chunk of
        [] \<Rightarrow> []
      | first # tail \<Rightarrow> show_base 16 first @ concat (map (\<lambda>s. CHR '':'' # show_base 16 s) tail))"

definition ipv6_display :: "ipv6_addr \<Rightarrow> string" where
  "ipv6_display a =
     (case to_ipv4_mapped a of
        Some v4 \<Rightarrow> ''::ffff:'' @ ipv4_display v4
      | None \<Rightarrow>
          (case zero_span 0 (0, 0) (0, 0) (segments a) of
             (start, len) \<Rightarrow>
               if len > 1
               then fmt_subslice (take start (segments a)) @ ''::'' @ fmt_subslice (drop (start + len) (segments a))
               else fmt_subslice (segments a)))"

section \<open>Reading back what was printed\<close>

lemma read_digits_show_base:
  assumes "2 \<le> b" "b \<le> 16" "count + length (show_base b n) \<le> m"
  shows "read_digits b m count acc (show_base b n @ s) =
    read_digits b m (count + length (show_base b n)) (acc * b ^ length (show_base b n) + n) s"
  using assms
proof (induction b n arbitrary: s rule: show_base.induct)
  case (1 b n)
  show ?case
  proof (cases "n < b")
    case True
    with 1(2-) show ?thesis by (simp add: show_base.simps [of b n])
  next
    case False
    let ?l = "length (show_base b (n div b))"
    have show_n: "show_base b n = show_base b (n div b) @ [hex_digit (n mod b)]"
      using False 1(2) by (simp add: show_base.simps [of b n])
    have "n mod b < b" using 1(2) by simp
    then have "read_digits b m count acc (show_base b n @ s) =
        read_digits b m (Suc (count + ?l)) ((acc * b ^ ?l + n div b) * b + n mod b) s"
      using 1 False by (simp add: show_n)
    moreover have "(acc * b ^ ?l + n div b) * b + n mod b = acc * b ^ Suc ?l + n"
      by (simp add: algebra_simps)
    ultimately show ?thesis by (simp add: show_n)
  qed
qed

lemma read_digits_stop: "s = [] \<or> to_digit b (hd s) = None \<Longrightarrow> read_digits b m count acc s = Some (count, acc, s)"
  by (cases s) auto

lemma read_number_show_base:
  assumes "2 \<le> b" "b \<le> 16" "length (show_base b n) \<le> m" "n \<le> bound" "s = [] \<or> to_digit b (hd s) = None"
    and "z \<or> n = 0 \<or> hd (show_base b n) \<noteq> CHR ''0''"
  shows "read_number b m z bound (show_base b n @ s) = Some (n, s)"
proof -
  have "read_digits b m 0 0 (show_base b n @ s) = Some (length (show_base b n), n, s)"
    using read_digits_show_base [of b 0 n m 0 s] read_digits_stop [OF assms(5)] assms(1-3) by simp
  moreover have "n = 0 \<Longrightarrow> length (show_base b n) = 1" using assms(1) by (simp add: show_base.simps [of b 0])
  ultimately show ?thesis using assms(4,6) by (cases "show_base b n") (auto simp: read_number_def)
qed

text \<open>A printed number does not begin with a zero unless it is zero.\<close>

lemma show_base_no_zero_prefix: "2 \<le> b \<Longrightarrow> b \<le> 16 \<Longrightarrow> 0 < n \<Longrightarrow> hd (show_base b n) \<noteq> CHR ''0''"
proof (induction b n rule: show_base.induct)
  case (1 b n)
  show ?case
  proof (cases "n < b")
    case True
    with 1(2-) have "to_digit 16 (hex_digit n) \<noteq> to_digit 16 (CHR ''0'')"
      by (simp add: to_digit_def [of _ "CHR ''0''"])
    with True show ?thesis by (auto simp: show_base.simps [of b n])
  next
    case False
    have "0 < n div b" using False 1(2) by (simp add: div_greater_zero_iff)
    then have "hd (show_base b (n div b)) \<noteq> CHR ''0''" using 1 False by simp
    then show ?thesis using False 1(2) by (simp add: show_base.simps [of b n])
  qed
qed

lemma read_octet:
  assumes "n < 256" "s = [] \<or> to_digit 10 (hd s) = None"
  shows "read_number 10 3 False 255 (show_nat n @ s) = Some (n, s)"
proof -
  have "length (show_base 10 n) \<le> 3" using assms(1) by (intro length_show_base) simp_all
  then show ?thesis using assms show_base_no_zero_prefix [of 10 n] unfolding show_nat_show_base
    by (intro read_number_show_base) auto
qed

lemma read_group:
  assumes "n < 65536" "s = [] \<or> to_digit 16 (hd s) = None"
  shows "read_number 16 4 True 65535 (show_base 16 n @ s) = Some (n, s)"
proof -
  have "length (show_base 16 n) \<le> 4" using assms(1) by (intro length_show_base) simp_all
  then show ?thesis using assms by (intro read_number_show_base) auto
qed

lemma join_dots: "join [c] (map f (x # xs)) = f x @ concat (map (\<lambda>y. c # f y) xs)"
  by (induction xs arbitrary: x) simp_all

lemma no_digit [simp]: "to_digit radix (CHR ''.'') = None" "to_digit radix (CHR '':'') = None" "to_digit radix (CHR ''/'') = None"
  by (simp_all add: to_digit_def)

lemma read_octets_text:
  assumes "list_all (\<lambda>d. d < 256) os" "s = [] \<or> to_digit 10 (hd s) = None" "0 < i"
  shows "read_octets i (length os) (concat (map (\<lambda>d. CHR ''.'' # show_nat d) os) @ s) = Some (os, s)"
  using assms
proof (induction os arbitrary: i)
  case (Cons d os)
  have "concat (map (\<lambda>d. CHR ''.'' # show_nat d) os) @ s = [] \<or>
    to_digit 10 (hd (concat (map (\<lambda>d. CHR ''.'' # show_nat d) os) @ s)) = None"
    using Cons.prems(2) by (cases os) auto
  then have "read_number 10 3 False 255 (show_nat d @ concat (map (\<lambda>d. CHR ''.'' # show_nat d) os) @ s) =
    Some (d, concat (map (\<lambda>d. CHR ''.'' # show_nat d) os) @ s)"
    using Cons.prems(1) by (intro read_octet) simp_all
  then show ?case using Cons by (simp add: read_separator_def strip_prefix_char_def)
qed simp

lemma octets_less: "list_all (\<lambda>d. d < 256) (octets a)"
  using be_digits_less [of 256 _ 4 "unat a"] by (auto simp: octets_def list_all_iff)

lemma read_ipv4_display:
  assumes "s = [] \<or> to_digit 10 (hd s) = None"
  shows "read_ipv4_addr (ipv4_display a @ s) = Some (octets a, s)"
proof -
  have "length (octets a) = Suc 3" by (simp add: octets_def)
  then obtain d os where os: "octets a = d # os" "length os = 3" by (metis length_Suc_conv)
  have less: "d < 256" "list_all (\<lambda>d. d < 256) os" using octets_less [of a] os(1) by simp_all
  let ?t = "concat (map (\<lambda>d. CHR ''.'' # show_nat d) os) @ s"
  have "?t = [] \<or> to_digit 10 (hd ?t) = None" using os(2) by (cases os) auto
  then have first: "read_number 10 3 False 255 (show_nat d @ ?t) = Some (d, ?t)" using less(1) by (rule read_octet [rotated])
  have "read_octets 1 3 ?t = Some (os, s)" using read_octets_text [OF less(2) assms, of 1] os(2) by simp
  moreover have "ipv4_display a @ s = show_nat d @ ?t"
    unfolding ipv4_display_def os(1) join_dots by simp
  ultimately show ?thesis using first
    by (simp add: read_ipv4_addr_def numeral_eq_Suc read_separator_def os(1))
qed

lemma length_octet: "n < 256 \<Longrightarrow> length (show_nat n) \<le> 3"
  unfolding show_nat_show_base by (rule length_show_base) simp_all

lemma length_ipv4_display: "length (ipv4_display a) \<le> 15"
proof -
  have "length (octets a) = 4" by (simp add: octets_def)
  then obtain p q r t where os: "octets a = [p, q, r, t]"
    by (auto simp: length_Suc_conv numeral_eq_Suc)
  then show ?thesis using octets_less [of a] length_octet [of p] length_octet [of q] length_octet [of r] length_octet [of t]
    by (simp add: ipv4_display_def)
qed

lemma ipv4_from_str_display [str_simps]: "ipv4_from_str (ipv4_display a) = Some a"
  using read_ipv4_display [of "[]" a] length_ipv4_display [of a] by (simp add: ipv4_from_str_def)

text \<open>The attempt to read an IPv4 address fails where no dot follows the leading decimal digits.\<close>

lemma read_digits_rest: "read_digits b m count acc s = Some (n, v, r) \<Longrightarrow> r = dropWhile (\<lambda>c. to_digit b c \<noteq> None) s"
  by (induction s arbitrary: count acc) (auto split: option.splits if_splits)

lemma read_ipv4_None:
  assumes "strip_prefix_char (CHR ''.'') (dropWhile (\<lambda>c. to_digit 10 c \<noteq> None) s) = None"
  shows "read_ipv4_addr s = None"
proof (cases "read_number 10 3 False 255 s")
  case (Some p)
  then obtain n v r where "read_digits 10 3 0 0 s = Some (n, v, r)" "p = (v, r)"
    by (auto simp: read_number_def split: option.splits if_splits)
  then show ?thesis using Some assms read_digits_rest [of 10 3 0 0 s]
    by (simp add: read_ipv4_addr_def numeral_eq_Suc read_separator_def)
qed (simp add: read_ipv4_addr_def numeral_eq_Suc read_separator_def)

lemma hex_text_no_dot: "CHR ''.'' \<notin> set (show_base 16 n)"
proof
  assume "CHR ''.'' \<in> set (show_base 16 n)"
  then obtain d where d: "d < 16" "CHR ''.'' = hex_digit d" using show_base_digits by force
  from hex_digit_plain [OF d(1)] show False by (simp flip: d(2))
qed

lemma group_not_ipv4:
  assumes "s = [] \<or> hd s = CHR '':''"
  shows "read_ipv4_addr (show_base 16 n @ s) = None"
proof (rule read_ipv4_None)
  let ?P = "\<lambda>c. to_digit 10 c \<noteq> None" and ?t = "show_base 16 n"
  have "dropWhile ?P (?t @ s) = dropWhile ?P ?t @ s"
    using assms by (cases s) (auto simp: dropWhile_append3)
  moreover have "CHR ''.'' \<notin> set (dropWhile ?P ?t)" using hex_text_no_dot set_dropWhileD by metis
  ultimately show "strip_prefix_char (CHR ''.'') (dropWhile ?P (?t @ s)) = None"
    using assms by (cases s; cases "dropWhile ?P ?t") (auto simp: strip_prefix_char_def simp del: dropWhile_eq_Nil_conv)
qed

definition stops :: "string \<Rightarrow> bool" where
  "stops s \<longleftrightarrow> s = [] \<or> (\<exists>t. s = ''::'' @ t)"

lemma read_number_colon: "s = [] \<or> hd s = CHR '':'' \<Longrightarrow> read_number b m z k s = None"
  by (cases s) (simp_all add: read_number_def)

lemma read_ipv4_colon: "s = [] \<or> hd s = CHR '':'' \<Longrightarrow> read_ipv4_addr s = None"
  by (cases s) (simp_all add: read_ipv4_None strip_prefix_char_def)

lemma read_groups_stops: "stops s \<Longrightarrow> read_groups limit i s = ([], False, s)"
  by (subst read_groups.simps)
     (auto simp: stops_def read_separator_def strip_prefix_char_def read_number_colon read_ipv4_colon)

definition groups_text :: "nat \<Rightarrow> nat list \<Rightarrow> string" where
  "groups_text i gs = (if i = 0 then fmt_subslice gs else concat (map (\<lambda>s. CHR '':'' # show_base 16 s) gs))"

lemma groups_text_Cons:
  "groups_text i (g # gs) = (if i = 0 then [] else '':'') @ show_base 16 g @ groups_text (Suc i) gs"
  by (simp add: groups_text_def fmt_subslice_def)

lemma read_groups_text:
  assumes "list_all (\<lambda>g. g < 65536) gs" "i + length gs \<le> limit" "stops s"
  shows "read_groups limit i (groups_text i gs @ s) = (gs, False, s)"
  using assms
proof (induction gs arbitrary: i)
  case Nil
  then show ?case by (simp add: groups_text_def fmt_subslice_def read_groups_stops)
next
  case (Cons g gs)
  let ?u = "groups_text (Suc i) gs @ s"
  have u: "?u = [] \<or> hd ?u = CHR '':''"
    using Cons.prems(3) by (cases gs) (auto simp: groups_text_def stops_def)
  then have u': "?u = [] \<or> to_digit 16 (hd ?u) = None" by auto
  have "g < 65536" using Cons.prems(1) by simp
  note group = read_group [OF this u'] group_not_ipv4 [OF u, of g]
  have IH: "read_groups limit (Suc i) ?u = (gs, False, s)" using Cons by simp
  have i: "i < limit" using Cons.prems(2) by simp
  have sep: "read_separator (CHR '':'') i inner (groups_text i (g # gs) @ s) = inner (show_base 16 g @ ?u)"
    for inner :: "string \<Rightarrow> ('b \<times> string) option"
    by (simp add: groups_text_Cons read_separator_def strip_prefix_char_def)
  show ?case using group IH i
    by (subst read_groups.simps) (simp add: sep)
qed

lemma segments_less: "list_all (\<lambda>g. g < 65536) (segments a)"
  using be_digits_less [of 65536 _ 8 "unat a"] by (auto simp: segments_def list_all_iff)

lemma length_segments [simp]: "length (segments a) = 8"
  by (simp add: segments_def)

text \<open>The zero span lies within the segments, and they are zero there.\<close>

definition zeros_at :: "nat list \<Rightarrow> nat \<times> nat \<Rightarrow> bool" where
  "zeros_at gs = (\<lambda>(start, len). start + len \<le> length gs \<and> (\<forall>j < len. gs ! (start + j) = 0))"

lemma zeros_at_append: "zeros_at gs sp \<Longrightarrow> zeros_at (gs @ hs) sp"
  by (auto simp: zeros_at_def nth_append)

lemma zeros_at_extend:
  assumes "zeros_at gs (start, len)" "start + len = length gs"
  shows "zeros_at (gs @ [0]) (start, Suc len)"
  using assms by (auto simp: zeros_at_def nth_append less_Suc_eq)

lemma zero_span_spec:
  assumes "zeros_at pre longest" "snd cur = 0 \<or> zeros_at pre cur \<and> fst cur + snd cur = length pre"
  shows "zeros_at (pre @ gs) (zero_span (length pre) cur longest gs)"
  using assms
proof (induction gs arbitrary: pre cur longest)
  case (Cons g gs)
  show ?case
  proof (cases "g = 0")
    case False
    then show ?thesis using Cons.IH [of "pre @ [g]" longest "(0, 0)"] Cons.prems(1) by (simp add: zeros_at_append)
  next
    case True
    define cur' where "cur' = ((if snd cur = 0 then length pre else fst cur), snd cur + 1)"
    have "zeros_at (pre @ [0]) cur'"
      using Cons.prems(2) zeros_at_extend [of pre "fst cur'" "snd cur"]
      by (cases "snd cur = 0") (auto simp: cur'_def zeros_at_def)
    moreover have "fst cur' + snd cur' = length (pre @ [0])" using Cons.prems(2) by (auto simp: cur'_def)
    moreover have "zeros_at (pre @ [0]) longest" using Cons.prems(1) by (rule zeros_at_append)
    moreover have "zero_span (length pre) cur longest (g # gs) =
        zero_span (Suc (length pre)) cur' (if snd cur' > snd longest then cur' else longest) gs"
      using True by (simp add: cur'_def Let_def)
    ultimately show ?thesis
      using Cons.IH [of "pre @ [0]" "if snd cur' > snd longest then cur' else longest" cur'] True
      by (simp del: zero_span.simps)
  qed
qed simp

lemma zeros_at_split:
  assumes "zeros_at gs (start, len)"
  shows "gs = take start gs @ replicate len 0 @ drop (start + len) gs"
proof -
  have "take len (drop start gs) = replicate len 0"
    using assms by (auto simp: zeros_at_def list_eq_iff_nth_eq)
  then show ?thesis by (metis append_take_drop_id drop_drop add.commute)
qed

lemma read_ipv6_groups:
  assumes "list_all (\<lambda>g. g < 65536) hd_groups" "list_all (\<lambda>g. g < 65536) tl_groups"
    and "length hd_groups + len + length tl_groups = 8" "1 < len"
  shows "read_ipv6_addr (fmt_subslice hd_groups @ ''::'' @ fmt_subslice tl_groups) =
    Some (hd_groups @ replicate len 0 @ tl_groups, [])"
proof -
  have head: "read_groups 8 0 (fmt_subslice hd_groups @ ''::'' @ fmt_subslice tl_groups) =
      (hd_groups, False, ''::'' @ fmt_subslice tl_groups)"
    using read_groups_text [OF assms(1), of 0 8 "''::'' @ fmt_subslice tl_groups"] assms(3,4)
    by (simp add: groups_text_def stops_def)
  have tail: "read_groups (8 - (length hd_groups + 1)) 0 (fmt_subslice tl_groups) = (tl_groups, False, [])"
    using read_groups_text [OF assms(2), of 0 "8 - (length hd_groups + 1)" "[]"] assms(3,4)
    by (simp add: groups_text_def stops_def)
  have "length hd_groups \<noteq> 8" "8 - length hd_groups - length tl_groups = len" using assms(3,4) by simp_all
  then show ?thesis using head tail by (simp add: read_ipv6_addr_def)
qed

lemma read_ipv6_mapped:
  "read_ipv6_addr (''::ffff:'' @ ipv4_display v4) =
    Some ([0, 0, 0, 0, 0, 65535, be_value 256 (take 2 (octets v4)), be_value 256 (drop 2 (octets v4))], [])"
proof -
  let ?t = "CHR '':'' # ipv4_display v4"
  have "show_base 16 65535 = ''ffff''" by (simp add: show_base.simps hex_digit_def) code_simp
  then have "read_number 16 4 True 65535 (''ffff'' @ ?t) = Some (65535, ?t)" "read_ipv4_addr (''ffff'' @ ?t) = None"
    using read_group [of 65535 ?t] group_not_ipv4 [of ?t 65535] by simp_all
  moreover have "read_groups 7 1 ?t =
      ([be_value 256 (take 2 (octets v4)), be_value 256 (drop 2 (octets v4))], True, [])"
    using read_ipv4_display [of "[]" v4]
    by (subst read_groups.simps) (simp add: read_separator_def strip_prefix_char_def)
  ultimately have tail: "read_groups 7 0 (''ffff'' @ ?t) =
      ([65535, be_value 256 (take 2 (octets v4)), be_value 256 (drop 2 (octets v4))], False \<or> True, [])"
    by (subst read_groups.simps) (simp add: read_separator_def)
  have head: "read_groups 8 0 (''::ffff'' @ ?t) = ([], False, ''::ffff'' @ ?t)"
    by (rule read_groups_stops) (simp add: stops_def)
  have "replicate 5 (0::nat) = [0, 0, 0, 0, 0]" by (simp add: numeral_eq_Suc)
  with head tail show ?thesis by (simp add: read_ipv6_addr_def)
qed

lemma ipv6_mapped_value:
  assumes "to_ipv4_mapped a = Some v4"
  shows "ipv6_from [0, 0, 0, 0, 0, 65535, be_value 256 (take 2 (octets v4)), be_value 256 (drop 2 (octets v4))] = a"
proof -
  have v4: "drop_bit 32 a = 0xFFFF" "v4 = ucast a" using assms by (simp_all add: to_ipv4_mapped_def split: if_splits)
  have hi: "unat a div 2 ^ 32 = 65535"
  proof -
    have "drop_bit 32 (unat a) = unat (drop_bit 32 a)" by (simp only: unat_drop_bit_eq)
    then show ?thesis by (simp add: v4(1)) (simp add: drop_bit_eq_div)
  qed
  have lo: "unat v4 = unat a mod 2 ^ 32" by (simp add: v4(2) unsigned_ucast_eq take_bit_eq_mod)
  have "length (octets v4) = 4" by (simp add: octets_def)
  then obtain p q r t where os: "octets v4 = [p, q, r, t]" by (auto simp: length_Suc_conv numeral_eq_Suc)
  have "be_value 256 (octets v4) = unat v4"
    using unsigned_less [of v4, where 'a = nat] by (simp add: octets_def be_value_digits)
  then have "be_value 65536 [0, 0, 0, 0, 0, 65535, be_value 256 [p, q], be_value 256 [r, t]] = 65535 * 2 ^ 32 + unat v4"
    by (simp add: os be_value_def)
  also have "\<dots> = unat a" using hi lo div_mult_mod_eq [of "unat a" "2 ^ 32"] by simp
  finally show ?thesis by (simp add: ipv6_from_def os)
qed

lemma ipv6_from_str_display [str_simps]: "ipv6_from_str (ipv6_display a) = Some a"
proof (cases "to_ipv4_mapped a")
  case (Some v4)
  then show ?thesis
    using read_ipv6_mapped [of v4] ipv6_mapped_value [OF Some] by (simp add: ipv6_display_def ipv6_from_str_def)
next
  case None
  obtain start len where span: "zero_span 0 (0, 0) (0, 0) (segments a) = (start, len)" by fastforce
  have zeros: "zeros_at (segments a) (start, len)"
    using zero_span_spec [of "[]" "(0, 0)" "(0, 0)" "segments a"] span by (simp add: zeros_at_def)
  show ?thesis
  proof (cases "len > 1")
    case True
    have "list_all (\<lambda>g. g < 65536) (take start (segments a))" "list_all (\<lambda>g. g < 65536) (drop (start + len) (segments a))"
      using segments_less [of a] by (auto simp: list_all_iff dest: in_set_takeD in_set_dropD)
    then have "read_ipv6_addr (fmt_subslice (take start (segments a)) @ ''::'' @ fmt_subslice (drop (start + len) (segments a))) =
        Some (segments a, [])"
      using read_ipv6_groups [of "take start (segments a)" "drop (start + len) (segments a)" len] zeros True
        zeros_at_split [OF zeros] by (simp add: zeros_at_def)
    then show ?thesis using None span True by (simp add: ipv6_display_def ipv6_from_str_def)
  next
    case False
    have "read_groups 8 0 (fmt_subslice (segments a)) = (segments a, False, [])"
      using read_groups_text [OF segments_less, of 0 a 8 "[]"] by (simp add: groups_text_def stops_def)
    then show ?thesis using None span False by (simp add: ipv6_display_def ipv6_from_str_def read_ipv6_addr_def)
  qed
qed

end
