(* ===== verification/Ip_Api.thy ===== *)
theory Ip_Api
  imports Ip_Text
begin

text \<open>
  Prefixes and ranges of either family, \<open>Cidr\<close> and \<open>IpRange\<close> of \<open>proxmox-network-types/src/ip_address.rs\<close>, with their
  textual forms and the list parser.
\<close>

section \<open>Either family\<close>

datatype family = V4 | V6

datatype ip_addr = IpV4 ipv4_addr | IpV6 ipv6_addr

datatype any_cidr = Ipv4 ipv4_cidr | Ipv6 ipv6_cidr

datatype ip_range = RangeV4 "ipv4_addr address_range" | RangeV6 "ipv6_addr address_range"

definition any_new :: "ip_addr \<Rightarrow> nat \<Rightarrow> (cidr_error, any_cidr) result" where
  "any_new a m =
     (case a of
        IpV4 v4 \<Rightarrow> and_then (cidr_new v4 m) (\<lambda>c. Inr (Ipv4 c))
      | IpV6 v6 \<Rightarrow> and_then (cidr_new v6 m) (\<lambda>c. Inr (Ipv6 c)))"

definition any_of_addr :: "ip_addr \<Rightarrow> any_cidr" where
  "any_of_addr a = (case a of IpV4 v4 \<Rightarrow> Ipv4 (cidr_of_addr v4) | IpV6 v6 \<Rightarrow> Ipv6 (cidr_of_addr v6))"

definition any_family :: "any_cidr \<Rightarrow> family" where
  "any_family c = (case c of Ipv4 _ \<Rightarrow> V4 | Ipv6 _ \<Rightarrow> V6)"

definition any_mask :: "any_cidr \<Rightarrow> nat" where
  "any_mask c = (case c of Ipv4 ip \<Rightarrow> cidr_mask ip | Ipv6 ip \<Rightarrow> cidr_mask ip)"

definition any_address :: "any_cidr \<Rightarrow> ip_addr" where
  "any_address c = (case c of Ipv4 ip \<Rightarrow> IpV4 (cidr_addr ip) | Ipv6 ip \<Rightarrow> IpV6 (cidr_addr ip))"

fun any_overlaps :: "any_cidr \<Rightarrow> any_cidr \<Rightarrow> bool" where
  "any_overlaps (Ipv4 a) (Ipv4 b) = overlaps a b"
| "any_overlaps (Ipv6 a) (Ipv6 b) = overlaps a b"
| "any_overlaps _ _ = False"

fun any_contains :: "any_cidr \<Rightarrow> ip_addr \<Rightarrow> bool" where
  "any_contains (Ipv4 c) (IpV4 ip) = contains_address c ip"
| "any_contains (Ipv6 c) (IpV6 ip) = contains_address c ip"
| "any_contains (Ipv4 c) (IpV6 v6) = (case to_ipv4_mapped v6 of None \<Rightarrow> False | Some v4 \<Rightarrow> contains_address c v4)"
| "any_contains (Ipv6 c) (IpV4 v4) = contains_address c (to_ipv6_mapped v4)"

fun ip_range_new :: "ip_addr \<Rightarrow> ip_addr \<Rightarrow> (ip_range_error, ip_range) result" where
  "ip_range_new (IpV4 s) (IpV4 l) = and_then (range_new s l) (\<lambda>r. Inr (RangeV4 r))"
| "ip_range_new (IpV6 s) (IpV6 l) = and_then (range_new s l) (\<lambda>r. Inr (RangeV6 r))"
| "ip_range_new _ _ = Inl MismatchedFamilies"

definition range_family :: "ip_range \<Rightarrow> family" where
  "range_family r = (case r of RangeV4 _ \<Rightarrow> V4 | RangeV6 _ \<Rightarrow> V6)"

definition ip_range_to_cidrs :: "ip_range \<Rightarrow> any_cidr list option" where
  "ip_range_to_cidrs r =
     (case r of
        RangeV4 rg \<Rightarrow> map_option (map Ipv4) (to_cidrs rg)
      | RangeV6 rg \<Rightarrow> map_option (map Ipv6) (to_cidrs rg))"

text \<open>
  A prefix of IPv4 addresses contains the same addresses of both families as the prefix of the mapped addresses, 96 bits
  longer.
\<close>

lemma unat_to_ipv6_mapped: "unat (to_ipv6_mapped a) = 65535 * 2 ^ 32 + unat a"
proof -
  have a: "unat a < 4294967296" using unsigned_less [of a, where 'a = nat] by simp
  then have "unat a div 65536 < 65536" by (simp add: div_less_iff_less_mult)
  moreover have "be_digits 65536 2 (unat a) = [unat a div 65536 mod 65536, unat a mod 65536]" by (simp add: numeral_2_eq_2)
  ultimately have "be_value 65536 ([0, 0, 0, 0, 0, 65535] @ be_digits 65536 2 (unat a)) = 65535 * 2 ^ 32 + unat a"
    by (simp add: be_value_def)
  with a show ?thesis unfolding to_ipv6_mapped_def ipv6_from_def unat_of_nat by simp
qed

lemma drop_bit_iff: "drop_bit n w = v \<longleftrightarrow> unat w div 2 ^ n = unat v"
  by (simp add: word_unat_eq_iff unat_drop_bit_eq) (simp add: drop_bit_eq_div)

lemma div_mod_unique: "a < d \<Longrightarrow> x div d = q \<and> x mod d = a \<longleftrightarrow> x = q * d + a" for a d x q :: nat
  by auto

lemma to_ipv4_mapped_iff: "to_ipv4_mapped x = Some a \<longleftrightarrow> x = to_ipv6_mapped a"
proof -
  have "to_ipv4_mapped x = Some a \<longleftrightarrow> unat x div 2 ^ 32 = 65535 \<and> unat x mod 2 ^ 32 = unat a"
    using drop_bit_iff [of 32 x "0xFFFF"] by (auto simp: to_ipv4_mapped_def word_unat_eq_iff [of "ucast x"] unsigned_ucast_eq take_bit_eq_mod)
  also have "\<dots> \<longleftrightarrow> unat x = 65535 * 2 ^ 32 + unat a"
    by (rule div_mod_unique) (use unsigned_less [of a, where 'a = nat] in simp)
  finally show ?thesis by (simp add: word_unat_eq_iff unat_to_ipv6_mapped)
qed

text \<open>Two numbers with the same quotient by a smaller power have the same quotient by a larger one.\<close>

lemma div_power_le: "x div 2 ^ k = y div 2 ^ k \<Longrightarrow> k \<le> j \<Longrightarrow> x div 2 ^ j = y div 2 ^ j" for x y :: nat
  by (metis div_mult2_eq le_add_diff_inverse power_add)

lemma mapped_contains:
  assumes "cidr_ok c"
  shows "contains_address \<lparr>cidr_addr = to_ipv6_mapped (cidr_addr c), cidr_mask = 96 + cidr_mask c\<rparr> x \<longleftrightarrow>
    (\<exists>a. x = to_ipv6_mapped a \<and> contains_address c a)"
proof -
  let ?k = "32 - cidr_mask c" and ?b = "cidr_addr c"
  have k: "128 - (96 + cidr_mask c) = ?k" "?k \<le> 32" using assms by (simp_all add: cidr_ok_def)
  have split: "(65535 * 2 ^ 32 + n) div 2 ^ ?k = 65535 * 2 ^ (32 - ?k) + n div 2 ^ ?k" for n :: nat
  proof -
    have "(2::nat) ^ 32 = 2 ^ (32 - ?k) * 2 ^ ?k" using k(2) by (simp flip: power_add)
    then have "65535 * 2 ^ 32 + n = n + 65535 * 2 ^ (32 - ?k) * 2 ^ ?k" by (simp only: mult.assoc add.commute)
    then show ?thesis by (simp only: div_mult_self1 power_not_zero zero_neq_numeral [symmetric] not_False_eq_True)
  qed
  show ?thesis
  proof
    assume "contains_address \<lparr>cidr_addr = to_ipv6_mapped ?b, cidr_mask = 96 + cidr_mask c\<rparr> x"
    then have eq: "unat x div 2 ^ ?k = (65535 * 2 ^ 32 + unat ?b) div 2 ^ ?k"
      by (simp add: contains_address_iff cidr_block_def block_def k unat_to_ipv6_mapped Let_def)
    from div_power_le [OF eq k(2)] have hi: "unat x div 2 ^ 32 = 65535"
      using unsigned_less [of ?b, where 'a = nat] by simp
    define a :: ipv4_addr where "a = of_nat (unat x mod 2 ^ 32)"
    have "unat a = unat x mod 2 ^ 32" by (simp add: a_def unat_of_nat)
    then have ux: "unat x = 65535 * 2 ^ 32 + unat a" using hi div_mult_mod_eq [of "unat x" "2 ^ 32"] by simp
    then have "x = to_ipv6_mapped a" by (simp add: word_unat_eq_iff unat_to_ipv6_mapped)
    moreover have "contains_address c a"
      using eq split [of "unat a"] split [of "unat ?b"] unfolding ux by (simp add: contains_address_iff cidr_block_def block_def Let_def)
    ultimately show "\<exists>a. x = to_ipv6_mapped a \<and> contains_address c a" by blast
  next
    assume "\<exists>a. x = to_ipv6_mapped a \<and> contains_address c a"
    then show "contains_address \<lparr>cidr_addr = to_ipv6_mapped ?b, cidr_mask = 96 + cidr_mask c\<rparr> x"
      using split by (auto simp: contains_address_iff cidr_block_def block_def k unat_to_ipv6_mapped Let_def simp del: power.simps)
  qed
qed

lemma mapped_prefix_contains:
  assumes "cidr_ok c"
  shows "any_contains (Ipv4 c) a \<longleftrightarrow>
    any_contains (Ipv6 \<lparr>cidr_addr = to_ipv6_mapped (cidr_addr c), cidr_mask = 96 + cidr_mask c\<rparr>) a"
proof -
  have inj: "to_ipv6_mapped v = to_ipv6_mapped w \<longleftrightarrow> v = w" for v w
    by (simp add: word_unat_eq_iff unat_to_ipv6_mapped)
  show ?thesis
  proof (cases a)
    case (IpV4 v4)
    then show ?thesis by (simp add: mapped_contains [OF assms] inj)
  next
    case (IpV6 v6)
    show ?thesis
    proof (cases "to_ipv4_mapped v6")
      case None
      then have "v6 \<noteq> to_ipv6_mapped w" for w using to_ipv4_mapped_iff [of v6 w] by auto
      then show ?thesis using None by (simp add: IpV6 mapped_contains [OF assms])
    next
      case (Some v4)
      then show ?thesis by (simp add: IpV6 mapped_contains [OF assms] inj) (simp add: to_ipv4_mapped_iff inj)
    qed
  qed
qed

section \<open>Texts\<close>

definition ipv4_cidr_display :: "ipv4_cidr \<Rightarrow> string" where
  "ipv4_cidr_display c = ipv4_display (cidr_addr c) @ ''/'' @ show_nat (cidr_mask c)"

definition ipv6_cidr_display :: "ipv6_cidr \<Rightarrow> string" where
  "ipv6_cidr_display c = ipv6_display (cidr_addr c) @ ''/'' @ show_nat (cidr_mask c)"

definition ipv4_cidr_from_str :: "string \<Rightarrow> (cidr_error, ipv4_cidr) result" where
  "ipv4_cidr_from_str s =
     (case split_once (CHR ''/'') s of
        None \<Rightarrow> and_then (ok_or InvalidAddress (ipv4_from_str s)) (\<lambda>a. Inr \<lparr>cidr_addr = a, cidr_mask = 32\<rparr>)
      | Some (a, m) \<Rightarrow>
          and_then (ok_or InvalidAddress (ipv4_from_str a)) (\<lambda>a.
          and_then (ok_or InvalidNetmask (parse_unsigned 255 m)) (\<lambda>m. cidr_new a m)))"

definition ipv6_cidr_from_str :: "string \<Rightarrow> (cidr_error, ipv6_cidr) result" where
  "ipv6_cidr_from_str s =
     (case split_once (CHR ''/'') s of
        None \<Rightarrow> and_then (ok_or InvalidAddress (ipv6_from_str s)) (\<lambda>a. Inr \<lparr>cidr_addr = a, cidr_mask = 128\<rparr>)
      | Some (a, m) \<Rightarrow>
          and_then (ok_or InvalidAddress (ipv6_from_str a)) (\<lambda>a.
          and_then (ok_or InvalidNetmask (parse_unsigned 255 m)) (\<lambda>m. cidr_new a m)))"

definition any_display :: "any_cidr \<Rightarrow> string" where
  "any_display c = (case c of Ipv4 ip \<Rightarrow> ipv4_cidr_display ip | Ipv6 ip \<Rightarrow> ipv6_cidr_display ip)"

definition any_from_str :: "string \<Rightarrow> (cidr_error, any_cidr) result" where
  "any_from_str s =
     (case ipv4_cidr_from_str s of
        Inr ip \<Rightarrow> Inr (Ipv4 ip)
      | Inl _ \<Rightarrow> and_then (ipv6_cidr_from_str s) (\<lambda>ip. Inr (Ipv6 ip)))"

definition range_from_str :: "(string \<Rightarrow> 'a::len word option) \<Rightarrow> string \<Rightarrow> (ip_range_error, 'a word address_range) result" where
  "range_from_str parse s =
     (case split_once (CHR ''-'') s of
        Some (s1, s2) \<Rightarrow>
          and_then (ok_or InvalidFormat (parse s1)) (\<lambda>start_address.
          and_then (ok_or InvalidFormat (parse s2)) (\<lambda>last_address. range_new start_address last_address))
      | None \<Rightarrow> Inl InvalidFormat)"

definition ip_range_display :: "ip_range \<Rightarrow> string" where
  "ip_range_display r =
     (case r of
        RangeV4 rg \<Rightarrow> ipv4_display (range_start rg) @ ''-'' @ ipv4_display (range_last rg)
      | RangeV6 rg \<Rightarrow> ipv6_display (range_start rg) @ ''-'' @ ipv6_display (range_last rg))"

definition ip_range_from_str :: "string \<Rightarrow> (ip_range_error, ip_range) result" where
  "ip_range_from_str s =
     (case range_from_str ipv4_from_str s of
        Inr rg \<Rightarrow> Inr (RangeV4 rg)
      | Inl _ \<Rightarrow>
          (case range_from_str ipv6_from_str s of
             Inr rg \<Rightarrow> Inr (RangeV6 rg)
           | Inl _ \<Rightarrow> Inl InvalidFormat))"

text \<open>The loop over the pieces of a list; \<open>None\<close> is a panic in the conversion of a range.\<close>

fun from_str_pieces :: "string list \<Rightarrow> (ip_range_error, any_cidr list) result option" where
  "from_str_pieces [] = Some (Inr [])"
| "from_str_pieces (p # ps) =
     (let s = trim p
      in if s = [] then from_str_pieces ps
         else
           (case any_from_str s of
              Inr c \<Rightarrow> map_option (\<lambda>r. and_then r (\<lambda>cs. Inr (c # cs))) (from_str_pieces ps)
            | Inl _ \<Rightarrow>
                (case ip_range_from_str s of
                   Inl _ \<Rightarrow> Some (Inl InvalidFormat)
                 | Inr rg \<Rightarrow>
                     (case ip_range_to_cidrs rg of
                        None \<Rightarrow> None
                      | Some cs \<Rightarrow> map_option (\<lambda>r. and_then r (\<lambda>cs'. Inr (cs @ cs'))) (from_str_pieces ps)))))"

definition from_str_list :: "string \<Rightarrow> (ip_range_error, any_cidr list) result option" where
  "from_str_list s = from_str_pieces (split_on (CHR '','') s)"

section \<open>The characters of an address\<close>

definition addr_char :: "char \<Rightarrow> bool" where
  "addr_char c \<longleftrightarrow> c = CHR ''.'' \<or> c = CHR '':'' \<or> to_digit 16 c \<noteq> None"

lemma not_addr_char [simp]:
  "\<not> addr_char (CHR ''/'')" "\<not> addr_char (CHR ''-'')" "\<not> addr_char (CHR '','')"
  by (simp_all add: addr_char_def to_digit_def)

lemma addr_char_plain: "addr_char c \<Longrightarrow> plain_byte c"
  by (auto simp: addr_char_def plain_byte_def to_digit_def Let_def split: if_splits option.splits)

definition leaves :: "(string \<Rightarrow> ('b \<times> string) option) \<Rightarrow> bool" where
  "leaves f \<longleftrightarrow> (\<forall>s v r. f s = Some (v, r) \<longrightarrow> (\<exists>p. s = p @ r \<and> list_all addr_char p))"

lemma leavesD: "leaves f \<Longrightarrow> f s = Some (v, r) \<Longrightarrow> \<exists>p. s = p @ r \<and> list_all addr_char p"
  by (auto simp: leaves_def)

lemma to_digit_addr_char: "to_digit b c = Some d \<Longrightarrow> b \<le> 16 \<Longrightarrow> addr_char c"
  by (auto simp: addr_char_def to_digit_def Let_def split: option.splits if_splits)

lemma read_digits_leaves:
  "read_digits b m count acc s = Some (n, v, r) \<Longrightarrow> b \<le> 16 \<Longrightarrow> \<exists>p. s = p @ r \<and> list_all addr_char p"
proof (induction s arbitrary: count acc)
  case (Cons c s)
  then show ?case
    by (auto split: option.splits if_splits dest: to_digit_addr_char intro: exI [of _ "[]"])
      (metis append_Cons list.pred_inject(2) to_digit_addr_char)
qed simp

lemma read_number_leaves: "b \<le> 16 \<Longrightarrow> leaves (read_number b m z k)"
  by (auto simp: leaves_def read_number_def split: option.splits if_splits dest: read_digits_leaves)

lemma read_separator_leaves: "leaves inner \<Longrightarrow> addr_char c \<Longrightarrow> leaves (read_separator c i inner)"
  unfolding leaves_def read_separator_def
  by (auto simp: strip_prefix_char_iff split: option.splits if_splits) (metis append_Cons list.pred_inject(2))

lemma read_octets_leaves: "leaves (read_octets i n)"
proof (induction n arbitrary: i)
  case (Suc n)
  show ?case
    unfolding leaves_def
  proof (intro allI impI)
    fix s v r assume "read_octets i (Suc n) s = Some (v, r)"
    then obtain d s1 os where step: "read_separator (CHR ''.'') i (read_number 10 3 False 255) s = Some (d, s1)"
      "read_octets (Suc i) n s1 = Some (os, r)" by (auto split: option.splits)
    have "leaves (read_separator (CHR ''.'') i (read_number 10 3 False 255))"
      by (intro read_separator_leaves read_number_leaves) (simp_all add: addr_char_def)
    from leavesD [OF this step(1)] leavesD [OF Suc step(2)]
    show "\<exists>p. s = p @ r \<and> list_all addr_char p" by (metis append.assoc list_all_append)
  qed
qed (simp add: leaves_def)

lemma read_groups_leaves: "read_groups limit i s = (gs, v4, r) \<Longrightarrow> \<exists>p. s = p @ r \<and> list_all addr_char p"
proof (induction limit i s arbitrary: gs v4 r rule: read_groups.induct)
  case (1 limit i s)
  have colon: "addr_char (CHR '':'')" by (simp add: addr_char_def)
  note sep = leavesD [OF read_separator_leaves [OF _ colon]]
  show ?case
  proof (cases "i < limit")
    case False
    then show ?thesis using 1(2) by (simp add: read_groups.simps [of limit i s])
  next
    case True
    show ?thesis
    proof (cases "if i + 1 < limit then read_separator (CHR '':'') i read_ipv4_addr s else None")
      case (Some p)
      then obtain os rest where "read_separator (CHR '':'') i read_ipv4_addr s = Some (os, rest)" "p = (os, rest)"
        by (cases p) (auto split: if_splits)
      with Some 1(2) True have "read_separator (CHR '':'') i read_ipv4_addr s = Some (os, r)"
        by (simp add: read_groups.simps [of limit i s])
      then show ?thesis by (rule sep [rotated]) (simp add: read_ipv4_addr_def [abs_def] read_octets_leaves)
    next
      case None
      show ?thesis
      proof (cases "read_separator (CHR '':'') i (read_number 16 4 True 65535) s")
        case None2: None
        with None True 1(2) have "r = s" by (subst (asm) read_groups.simps) simp
        then show ?thesis by simp
      next
        case (Some p)
        then obtain g rest gs' where p: "p = (g, rest)" and rec: "read_groups limit (Suc i) rest = (gs', v4, r)"
          using None True 1(2) by (subst (asm) read_groups.simps) (auto split: prod.splits)
        from 1(1) [OF True None Some p [symmetric] rec] sep [OF read_number_leaves Some [unfolded p]]
        show ?thesis by (metis append.assoc list_all_append numeral_le_iff order_refl)
      qed
    qed
  qed
qed

lemma read_ipv6_leaves: "leaves read_ipv6_addr"
  unfolding leaves_def
proof (intro allI impI)
  fix s v r assume read: "read_ipv6_addr s = Some (v, r)"
  obtain head v4 s1 where head: "read_groups 8 0 s = (head, v4, s1)" by (cases "read_groups 8 0 s")
  from read_groups_leaves [OF head] obtain p where p: "s = p @ s1" "list_all addr_char p" by blast
  show "\<exists>p. s = p @ r \<and> list_all addr_char p"
  proof (cases "length head = 8")
    case True
    with read head p show ?thesis by (auto simp: read_ipv6_addr_def)
  next
    case False
    with read head obtain s2 where s2: "s1 = ''::'' @ s2" and rest: "snd (snd (read_groups (8 - (length head + 1)) 0 s2)) = r"
      by (auto simp: read_ipv6_addr_def strip_prefix_eq_Some split: if_splits option.splits prod.splits)
    obtain tail w where "read_groups (8 - (length head + 1)) 0 s2 = (tail, w, r)"
      using rest by (metis prod.collapse)
    from read_groups_leaves [OF this] obtain q where "s2 = q @ r" "list_all addr_char q" by blast
    with p s2 show ?thesis by (intro exI [of _ "p @ ''::'' @ q"]) (simp add: addr_char_def)
  qed
qed

text \<open>A text with a byte that no address has is no address.\<close>

lemma not_an_address:
  assumes "c \<in> set s" "\<not> addr_char c"
  shows "ipv4_from_str s = None \<and> ipv6_from_str s = None"
proof -
  have "r \<noteq> []" if "leaves f" "f s = Some (v, r)" for f :: "string \<Rightarrow> (nat list \<times> string) option" and v r
    using leavesD [OF that] assms by (auto simp: list_all_iff)
  moreover have "leaves read_ipv4_addr" by (simp add: read_ipv4_addr_def [abs_def] read_octets_leaves)
  ultimately show ?thesis using read_ipv6_leaves
    by (auto simp: ipv4_from_str_def ipv6_from_str_def split: option.splits list.splits)
qed

lemma not_a_cidr: "c \<in> set s \<Longrightarrow> \<not> addr_char c \<Longrightarrow> CHR ''/'' \<notin> set s \<Longrightarrow> \<exists>e. any_from_str s = Inl e"
  using not_an_address [of c s]
  by (simp add: any_from_str_def ipv4_cidr_from_str_def ipv6_cidr_from_str_def split_once_None)

lemma show_nat_addr_char: "list_all addr_char (show_nat n)"
  by (auto simp: list_all_iff show_nat_show_base dest!: show_base_digits) (auto simp: addr_char_def)

lemma show_hex_addr_char: "list_all addr_char (show_base 16 n)"
  by (auto simp: list_all_iff dest!: show_base_digits) (auto simp: addr_char_def)

lemma ipv4_display_addr_char: "list_all addr_char (ipv4_display a)"
proof -
  have "list_all addr_char (join ''.'' (map show_nat os))" for os
    using show_nat_addr_char
    by (cases os) (simp_all only: join_dots list_all_append, auto simp: list_all_iff addr_char_def [of "CHR ''.''"])
  then show ?thesis by (simp add: ipv4_display_def)
qed

lemma ipv6_display_addr_char: "list_all addr_char (ipv6_display a)"
proof -
  have "list_all addr_char (fmt_subslice gs)" for gs
    using show_hex_addr_char by (cases gs) (auto simp: fmt_subslice_def list_all_iff addr_char_def [of "CHR '':''"])
  moreover have "list_all addr_char ''::ffff:''" by (simp add: addr_char_def to_digit_def)
  ultimately show ?thesis
    by (auto simp: ipv6_display_def ipv4_display_addr_char addr_char_def [of "CHR '':''"] split: option.splits prod.splits)
qed

section \<open>Reading back what was printed\<close>

lemma ipv6_display_not_ipv4: "ipv4_from_str (ipv6_display a) = None"
proof -
  have "read_ipv4_addr (fmt_subslice gs @ s) = None" if "s = [] \<or> hd s = CHR '':''" for gs s
  proof (cases gs)
    case Nil
    then show ?thesis using that by (simp add: fmt_subslice_def read_ipv4_colon)
  next
    case (Cons g gs')
    have "concat (map (\<lambda>s. CHR '':'' # show_base 16 s) gs') @ s = [] \<or>
      hd (concat (map (\<lambda>s. CHR '':'' # show_base 16 s) gs') @ s) = CHR '':''"
      using that by (cases gs') auto
    from group_not_ipv4 [OF this, of g] show ?thesis by (simp add: fmt_subslice_def Cons)
  qed
  from this [of "[]"] this [of "''::'' @ t" for t]
  have "read_ipv4_addr (ipv6_display a) = None"
    by (auto simp: ipv6_display_def read_ipv4_colon split: option.splits prod.splits)
  then show ?thesis by (simp add: ipv4_from_str_def)
qed

fun any_ok :: "any_cidr \<Rightarrow> bool" where
  "any_ok (Ipv4 c) = cidr_ok c"
| "any_ok (Ipv6 c) = cidr_ok c"

fun ip_range_ok :: "ip_range \<Rightarrow> bool" where
  "ip_range_ok (RangeV4 r) = (range_start r \<le> range_last r)"
| "ip_range_ok (RangeV6 r) = (range_start r \<le> range_last r)"

lemma addr_text_split:
  assumes "list_all addr_char a" "\<not> addr_char c"
  shows "split_once c (a @ c # t) = Some (a, t)" and "split_once c a = None"
  using assms by (auto simp: list_all_iff split_once_append split_once_None)

lemmas v4_split = addr_text_split [OF ipv4_display_addr_char]
lemmas v6_split = addr_text_split [OF ipv6_display_addr_char]

lemma display_chars:
  "c \<in> set (ipv4_display a) \<Longrightarrow> addr_char c" "c \<in> set (ipv6_display b) \<Longrightarrow> addr_char c" "c \<in> set (show_nat n) \<Longrightarrow> addr_char c"
  using ipv4_display_addr_char ipv6_display_addr_char show_nat_addr_char by (auto simp: list_all_iff)

lemma any_from_str_display: "any_ok c \<Longrightarrow> any_from_str (any_display c) = Inr c"
proof (cases c)
  case (Ipv4 ip)
  assume "any_ok c"
  then have "cidr_mask ip \<le> 32" using Ipv4 by (simp add: cidr_ok_def)
  then show ?thesis
    by (simp add: Ipv4 any_from_str_def any_display_def ipv4_cidr_from_str_def ipv4_cidr_display_def v4_split str_simps cidr_new_def)
next
  case (Ipv6 ip)
  assume "any_ok c"
  then have "cidr_mask ip \<le> 128" using Ipv6 by (simp add: cidr_ok_def)
  then show ?thesis
    by (simp add: Ipv6 any_from_str_def any_display_def ipv4_cidr_from_str_def ipv6_cidr_from_str_def ipv6_cidr_display_def
        v6_split str_simps cidr_new_def ipv6_display_not_ipv4)
qed

lemma ip_range_from_str_display: "ip_range_ok r \<Longrightarrow> ip_range_from_str (ip_range_display r) = Inr r"
  by (cases r)
     (simp_all add: ip_range_from_str_def ip_range_display_def range_from_str_def v4_split v6_split str_simps range_new_def
       ipv6_display_not_ipv4 not_less)

lemma range_is_no_cidr: "\<exists>e. any_from_str (ip_range_display r) = Inl e"
proof (rule not_a_cidr)
  show "CHR ''-'' \<in> set (ip_range_display r)" by (cases r) (simp_all add: ip_range_display_def)
  show "CHR ''/'' \<notin> set (ip_range_display r)"
    by (cases r) (auto simp: ip_range_display_def dest!: display_chars)
qed simp

section \<open>Lists\<close>

text \<open>What a list may hold: prefixes and ranges, with their texts and the addresses they stand for.\<close>

datatype ip_item = ItemCidr any_cidr | ItemRange ip_range

fun item_ok :: "ip_item \<Rightarrow> bool" where
  "item_ok (ItemCidr c) = any_ok c"
| "item_ok (ItemRange r) = ip_range_ok r"

fun item_text :: "ip_item \<Rightarrow> string" where
  "item_text (ItemCidr c) = any_display c"
| "item_text (ItemRange r) = ip_range_display r"

fun own_addresses :: "any_cidr \<Rightarrow> ip_addr set" where
  "own_addresses (Ipv4 c) = IpV4 ` addresses c"
| "own_addresses (Ipv6 c) = IpV6 ` addresses c"

fun item_addresses :: "ip_item \<Rightarrow> ip_addr set" where
  "item_addresses (ItemCidr c) = own_addresses c"
| "item_addresses (ItemRange (RangeV4 r)) = IpV4 ` {range_start r..range_last r}"
| "item_addresses (ItemRange (RangeV6 r)) = IpV6 ` {range_start r..range_last r}"

lemma to_cidrs_covers:
  assumes "range_start r \<le> range_last r"
  shows "\<exists>cs. to_cidrs r = Some cs \<and> \<Union> (addresses ` set cs) = {range_start r..range_last r}"
  using to_cidrs_spec [OF assms] by (auto simp: addresses_cover)

lemma ip_range_to_cidrs_covers:
  assumes "ip_range_ok r"
  shows "\<exists>cs. ip_range_to_cidrs r = Some cs \<and> \<Union> (own_addresses ` set cs) = item_addresses (ItemRange r)"
proof (cases r)
  case (RangeV4 rg)
  then obtain cs where cs: "to_cidrs rg = Some cs" "\<Union> (addresses ` set cs) = {range_start rg..range_last rg}"
    using assms to_cidrs_covers [of rg] by auto
  have "\<Union> (own_addresses ` set (map Ipv4 cs)) = IpV4 ` \<Union> (addresses ` set cs)" by auto
  then show ?thesis using cs by (simp add: ip_range_to_cidrs_def RangeV4)
next
  case (RangeV6 rg)
  then obtain cs where cs: "to_cidrs rg = Some cs" "\<Union> (addresses ` set cs) = {range_start rg..range_last rg}"
    using assms to_cidrs_covers [of rg] by auto
  have "\<Union> (own_addresses ` set (map Ipv6 cs)) = IpV6 ` \<Union> (addresses ` set cs)" by auto
  then show ?thesis using cs by (simp add: ip_range_to_cidrs_def RangeV6)
qed

lemma item_text_chars:
  assumes "c \<in> set (item_text i)"
  shows "addr_char c \<or> c = CHR ''/'' \<or> c = CHR ''-''"
proof (cases i)
  case (ItemCidr d)
  then show ?thesis using assms
    by (cases d) (auto simp: any_display_def ipv4_cidr_display_def ipv6_cidr_display_def dest: display_chars)
next
  case (ItemRange r)
  then show ?thesis using assms by (cases r) (auto simp: ip_range_display_def dest: display_chars)
qed

lemma item_text_not_Nil: "item_text i \<noteq> []"
proof (cases i)
  case (ItemCidr d)
  then show ?thesis by (cases d) (auto simp: any_display_def ipv4_cidr_display_def ipv6_cidr_display_def)
next
  case (ItemRange r)
  then show ?thesis by (cases r) (auto simp: ip_range_display_def)
qed

lemma trim_item_text: "trim (item_text i) = item_text i"
proof (rule trim_plain_all)
  have "plain_byte (CHR ''/'')" "plain_byte (CHR ''-'')" by (simp_all add: plain_byte_def)
  then show "plain_byte c" if "c \<in> set (item_text i)" for c
    using item_text_chars [OF that] addr_char_plain by auto
qed

lemma pieces_of_items:
  assumes "list_all item_ok items"
  shows "\<exists>cs. from_str_pieces (map item_text items) = Some (Inr cs) \<and>
    \<Union> (own_addresses ` set cs) = \<Union> (item_addresses ` set items) \<and>
    (list_all (\<lambda>i. \<exists>c. i = ItemCidr c) items \<longrightarrow> map ItemCidr cs = items)"
  using assms
proof (induction items)
  case (Cons i items)
  then obtain cs where cs: "from_str_pieces (map item_text items) = Some (Inr cs)"
    "\<Union> (own_addresses ` set cs) = \<Union> (item_addresses ` set items)"
    "list_all (\<lambda>i. \<exists>c. i = ItemCidr c) items \<longrightarrow> map ItemCidr cs = items" by auto
  show ?case
  proof (cases i)
    case (ItemCidr c)
    then have "any_from_str (item_text i) = Inr c" using Cons.prems any_from_str_display by simp
    then show ?thesis using cs ItemCidr trim_item_text [of i] item_text_not_Nil [of i]
      by (intro exI [of _ "c # cs"]) (simp add: Let_def)
  next
    case (ItemRange r)
    have "ip_range_ok r" using Cons.prems ItemRange by simp
    from ip_range_to_cidrs_covers [OF this] obtain rs where rs: "ip_range_to_cidrs r = Some rs"
      "\<Union> (own_addresses ` set rs) = item_addresses (ItemRange r)" by blast
    obtain e where e: "any_from_str (item_text i) = Inl e" using range_is_no_cidr [of r] ItemRange by auto
    have "ip_range_from_str (item_text i) = Inr r" using ip_range_from_str_display \<open>ip_range_ok r\<close> ItemRange by simp
    then show ?thesis using cs e rs ItemRange trim_item_text [of i] item_text_not_Nil [of i]
      by (intro exI [of _ "rs @ cs"]) (simp add: Let_def)
  qed
qed simp

text \<open>C34: A list of prefixes and ranges, written with commas between their texts, reads back without error or panic as prefixes that
  together have exactly the addresses of the list; a list of prefixes reads back as itself.\<close>

theorem address_list_roundtrip:
  assumes "list_all item_ok items"
  shows "\<exists>cs. from_str_list (join '','' (map item_text items)) = Some (Inr cs) \<and>
    \<Union> (own_addresses ` set cs) = \<Union> (item_addresses ` set items) \<and>
    (list_all (\<lambda>i. \<exists>c. i = ItemCidr c) items \<longrightarrow> map ItemCidr cs = items)"
proof (cases items)
  case Nil
  have "trim [] = []" by (rule trim_plain_all) simp
  with Nil show ?thesis by (simp add: from_str_list_def)
next
  case (Cons i more)
  have "CHR '','' \<notin> set p" if "p \<in> set (map item_text items)" for p
    using that item_text_chars [of "CHR '',''"] by auto
  then have "split_on (CHR '','') (join '','' (map item_text items)) = map item_text items"
    using Cons by (intro split_on_join) auto
  then show ?thesis using pieces_of_items [OF assms] by (simp add: from_str_list_def)
qed

theorem address_list_roundtrip_witness:
  "\<exists>cs. from_str_list (join '','' (map item_text
       [ItemCidr (Ipv4 \<lparr>cidr_addr = 0x0A000000, cidr_mask = 8\<rparr>), ItemRange (RangeV6 \<lparr>range_start = 1, range_last = 5\<rparr>)])) = Some (Inr cs) \<and>
     \<Union> (own_addresses ` set cs) = IpV4 ` addresses \<lparr>cidr_addr = 0x0A000000, cidr_mask = 8\<rparr> \<union> IpV6 ` {1..5}"
  using address_list_roundtrip [of "[ItemCidr (Ipv4 \<lparr>cidr_addr = 0x0A000000, cidr_mask = 8\<rparr>), ItemRange (RangeV6 \<lparr>range_start = 1, range_last = 5\<rparr>)]"]
  by (simp add: cidr_ok_def del: from_str_pieces.simps)

end
