(* ===== verification/F64.thy ===== *)
theory F64
  imports Schema Rust_Text
begin

text \<open>
  The arithmetic of \<open>f64\<close> on the values of \<^typ>\<open>f64\<close>: the exact rational result, rounded to the nearest number with 53
  significant bits, ties to even, with gradual underflow. The sign of a zero is not represented.
\<close>

definition pow2 :: "int \<Rightarrow> rat" where
  "pow2 i = (if 0 \<le> i then 2 ^ nat i else 1 / 2 ^ nat (- i))"

definition rat_exponent :: "rat \<Rightarrow> int" where
  "rat_exponent a =
     (case quotient_of a of
        (p, q) \<Rightarrow>
          let e = int (ilog2 (nat p)) - int (ilog2 (nat q))
          in if pow2 e \<le> a then e else e - 1)"

definition round_half_even :: "rat \<Rightarrow> int" where
  "round_half_even r =
     (let f = \<lfloor>r\<rfloor>; d = r - of_int f
      in if d < 1 / 2 then f else if d > 1 / 2 then f + 1 else if even f then f else f + 1)"

definition f64_round :: "rat \<Rightarrow> f64" where
  "f64_round q =
     (if q = 0 then Finite 0
      else
        (let a = \<bar>q\<bar>;
             u = max (rat_exponent a - 52) (- 1074);
             m = of_int (round_half_even (a / pow2 u)) * pow2 u
         in if m \<ge> pow2 1024 then Infinity (q < 0) else Finite (sgn q * m)))"

fun f64_add :: "f64 \<Rightarrow> f64 \<Rightarrow> f64" where
  "f64_add NaN _ = NaN"
| "f64_add _ NaN = NaN"
| "f64_add (Infinity a) (Infinity b) = (if a = b then Infinity a else NaN)"
| "f64_add (Infinity a) (Finite _) = Infinity a"
| "f64_add (Finite _) (Infinity b) = Infinity b"
| "f64_add (Finite x) (Finite y) = f64_round (x + y)"

fun f64_neg :: "f64 \<Rightarrow> f64" where
  "f64_neg NaN = NaN"
| "f64_neg (Infinity a) = Infinity (\<not> a)"
| "f64_neg (Finite x) = Finite (- x)"

definition f64_sub :: "f64 \<Rightarrow> f64 \<Rightarrow> f64" where
  "f64_sub x y = f64_add x (f64_neg y)"

fun f64_mul :: "f64 \<Rightarrow> f64 \<Rightarrow> f64" where
  "f64_mul NaN _ = NaN"
| "f64_mul _ NaN = NaN"
| "f64_mul (Infinity a) (Infinity b) = Infinity (a \<noteq> b)"
| "f64_mul (Infinity a) (Finite y) = (if y = 0 then NaN else Infinity (a \<noteq> (y < 0)))"
| "f64_mul (Finite x) (Infinity b) = (if x = 0 then NaN else Infinity ((x < 0) \<noteq> b))"
| "f64_mul (Finite x) (Finite y) = f64_round (x * y)"

fun f64_div :: "f64 \<Rightarrow> f64 \<Rightarrow> f64" where
  "f64_div NaN _ = NaN"
| "f64_div _ NaN = NaN"
| "f64_div (Infinity a) (Infinity b) = NaN"
| "f64_div (Infinity a) (Finite y) = Infinity (a \<noteq> (y < 0))"
| "f64_div (Finite x) (Infinity b) = Finite 0"
| "f64_div (Finite x) (Finite y) =
     (if y = 0 then (if x = 0 then NaN else Infinity (x < 0)) else f64_round (x / y))"

definition f64_le :: "f64 \<Rightarrow> f64 \<Rightarrow> bool" where
  "f64_le x y = (f64_less x y \<or> x = y \<and> x \<noteq> NaN)"

definition f64_of_nat :: "nat \<Rightarrow> f64" where
  "f64_of_nat n = f64_round (of_nat n)"

text \<open>The saturating cast to \<open>u64\<close>.\<close>

definition as_u64 :: "f64 \<Rightarrow> nat" where
  "as_u64 f =
     (case f of
        NaN \<Rightarrow> 0
      | Infinity neg \<Rightarrow> if neg then 0 else 2 ^ 64 - 1
      | Finite x \<Rightarrow> min (nat \<lfloor>x\<rfloor>) (2 ^ 64 - 1))"

lemma as_u64_mono: "f64_le x y \<Longrightarrow> as_u64 x \<le> as_u64 y"
proof -
  assume le: "f64_le x y"
  have "min (nat \<lfloor>a\<rfloor>) m \<le> min (nat \<lfloor>b\<rfloor>) m" if "a \<le> b" for a b :: rat and m
    using nat_mono [OF floor_mono [OF that]] by simp
  with le show ?thesis by (cases x; cases y) (auto simp: f64_le_def as_u64_def)
qed

lemma f64_not_le: "x \<noteq> NaN \<Longrightarrow> y \<noteq> NaN \<Longrightarrow> \<not> f64_le x y \<longleftrightarrow> f64_less y x"
  by (cases x; cases y) (auto simp: f64_le_def)

lemma as_u64_bound: "as_u64 x < 2 ^ 64"
  by (cases x) (auto simp: as_u64_def)

end
