(* ===== verification/Rrd.thy ===== *)
theory Rrd
  imports F64
begin

text \<open>
  The round robin database of \<open>proxmox-rrd/src/rrd.rs\<close>: a data source that checks and derives the values, and archives
  that keep one aggregated value per time slot in a ring of fixed length. Times in seconds (\<open>u64\<close>) are natural
  numbers; they do not overflow while a time plus the span of an archive stays below \<open>2 ^ 64\<close>. A division by a zero resolution or
  a zero length is a panic, \<open>None\<close>.
\<close>

section \<open>The data source\<close>

datatype data_source_type = Gauge | Derive | Counter

datatype aggregation_fn = Average | Maximum | Minimum | Last

record data_source =
  dst :: data_source_type
  source_time :: f64
  last_value :: f64

record entry =
  entry_start :: nat
  entry_resolution :: nat
  entry_data :: "f64 option list"

definition entry_get :: "entry \<Rightarrow> nat \<Rightarrow> f64 option" where
  "entry_get e i = (if i < length (entry_data e) then entry_data e ! i else None)"

definition data_source_new :: "data_source_type \<Rightarrow> data_source" where
  "data_source_new d = \<lparr>dst = d, source_time = Finite 0, last_value = NaN\<rparr>"

text \<open>The value to store, or the reason to drop the sample; a counter that went backwards is still remembered.\<close>

definition source_new_value :: "data_source \<Rightarrow> f64 \<Rightarrow> f64 \<Rightarrow> data_source \<times> (string, f64) result" where
  "source_new_value s time v =
     (if f64_less time (Finite 0) then (s, Inl ''got negative time'')
      else if f64_le time (source_time s) then (s, Inl ''time in past'')
      else if v = NaN then (s, Inl ''new value is NAN'')
      else
        (let is_counter = (dst s = Counter)
         in if is_counter \<or> dst s = Derive then
              (let time_diff = f64_sub time (source_time s)
               in if last_value s = NaN then (s\<lparr>last_value := v\<rparr>, Inr (f64_div (Finite 0) time_diff))
                  else if is_counter \<and> f64_less v (Finite 0) then (s, Inl ''got negative value for counter'')
                  else if is_counter \<and> f64_less v (last_value s)
                  then (s\<lparr>last_value := v\<rparr>, Inl ''counter overflow/reset detected'')
                  else (s\<lparr>last_value := v\<rparr>, Inr (f64_div (f64_sub v (last_value s)) time_diff)))
            else (s\<lparr>last_value := v\<rparr>, Inr v)))"

section \<open>Archives\<close>

record archive =
  resolution :: nat
  cf :: aggregation_fn
  last_count :: nat
  rra_data :: "f64 list"

definition archive_new :: "aggregation_fn \<Rightarrow> nat \<Rightarrow> nat \<Rightarrow> archive" where
  "archive_new c reso points = \<lparr>resolution = reso, cf = c, last_count = 0, rra_data = replicate points NaN\<rparr>"

definition slot_end_time :: "archive \<Rightarrow> nat \<Rightarrow> nat" where
  "slot_end_time a time = resolution a * (time div resolution a + 1)"

definition slot_start_time :: "archive \<Rightarrow> nat \<Rightarrow> nat" where
  "slot_start_time a time = resolution a * (time div resolution a)"

definition slot :: "archive \<Rightarrow> nat \<Rightarrow> nat option" where
  "slot a time =
     (if resolution a = 0 \<or> rra_data a = [] then None
      else Some ((time div resolution a) mod length (rra_data a)))"

text \<open>The ring index after this one.\<close>

definition next_index :: "nat \<Rightarrow> nat \<Rightarrow> nat" where
  "next_index n i = (if i + 1 \<ge> n then 0 else i + 1)"

fun insert_loop :: "nat \<Rightarrow> f64 option list \<Rightarrow> f64 list \<Rightarrow> f64 list" where
  "insert_loop i [] ds = ds"
| "insert_loop i (v # vs) ds =
     insert_loop (next_index (length ds) i) vs (case v of None \<Rightarrow> ds | Some x \<Rightarrow> ds[i := x])"

definition insert_data :: "archive \<Rightarrow> nat \<Rightarrow> nat \<Rightarrow> f64 option list \<Rightarrow> (string, archive) result option" where
  "insert_data a start reso vs =
     (if reso \<noteq> resolution a then Some (Inl ''insert_data failed: got wrong resolution'')
      else case slot a start of
             None \<Rightarrow> None
           | Some i \<Rightarrow> Some (Inr (a\<lparr>rra_data := insert_loop i vs (rra_data a)\<rparr>)))"

fun clear_loop :: "nat \<Rightarrow> nat \<Rightarrow> nat \<Rightarrow> nat \<Rightarrow> nat \<Rightarrow> f64 list \<Rightarrow> f64 list" where
  "clear_loop 0 reso min_time t i ds = ds"
| "clear_loop (Suc n) reso min_time t i ds =
     (let t' = t + reso; i' = next_index (length ds) i
      in if t' < min_time then clear_loop n reso min_time t' i' (ds[i' := NaN]) else ds)"

definition delete_old_slots :: "archive \<Rightarrow> f64 \<Rightarrow> f64 \<Rightarrow> archive option" where
  "delete_old_slots a time last_update =
     (let epoch = as_u64 time;
          last_up = as_u64 last_update;
          reso = resolution a;
          num_entries = length (rra_data a);
          min_time = slot_end_time a (epoch - num_entries * reso);
          t = last_up - num_entries * reso
      in case slot a t of
           None \<Rightarrow> None
         | Some i \<Rightarrow> Some (a\<lparr>rra_data := clear_loop num_entries reso min_time t i (rra_data a)\<rparr>))"

definition aggregate :: "aggregation_fn \<Rightarrow> f64 \<Rightarrow> nat \<Rightarrow> f64 \<Rightarrow> f64" where
  "aggregate c last_v count v =
     (case c of
        Maximum \<Rightarrow> if f64_less v last_v then last_v else v
      | Minimum \<Rightarrow> if f64_less last_v v then last_v else v
      | Last \<Rightarrow> v
      | Average \<Rightarrow>
          (let new_count = min (count + 1) (2 ^ 64 - 1)
           in f64_add (f64_div (f64_mul last_v (f64_of_nat count)) (f64_of_nat new_count))
                (f64_div v (f64_of_nat new_count))))"

text \<open>Subtraction of \<open>u64\<close> values, which wraps around.\<close>

definition sub_u64 :: "nat \<Rightarrow> nat \<Rightarrow> nat" where
  "sub_u64 a b = (a + 2 ^ 64 - b) mod 2 ^ 64"

definition archive_new_value :: "archive \<Rightarrow> f64 \<Rightarrow> f64 \<Rightarrow> f64 \<Rightarrow> archive option" where
  "archive_new_value a time last_update v =
     (let epoch = as_u64 time;
          last_up = as_u64 last_update
      in case (slot a epoch, slot a last_up) of
           (Some i, Some last_i) \<Rightarrow>
             (let count = (if sub_u64 epoch last_up > resolution a \<or> i \<noteq> last_i then 0 else last_count a);
                  last_v = rra_data a ! i;
                  count = (if last_v = NaN then 0 else count)
              in Some (if count = 0 then a\<lparr>rra_data := (rra_data a)[i := v], last_count := 1\<rparr>
                       else a\<lparr>rra_data := (rra_data a)[i := aggregate (cf a) last_v count v],
                              last_count := min (count + 1) (2 ^ 64 - 1)\<rparr>))
         | _ \<Rightarrow> None)"

fun extract_loop :: "nat \<Rightarrow> nat \<Rightarrow> nat \<Rightarrow> nat \<Rightarrow> nat \<Rightarrow> nat \<Rightarrow> nat \<Rightarrow> f64 list \<Rightarrow> f64 option list" where
  "extract_loop 0 reso rrd_start rrd_end end_time t i ds = []"
| "extract_loop (Suc n) reso rrd_start rrd_end end_time t i ds =
     (if t > end_time then []
      else
        (if t < rrd_start \<or> t \<ge> rrd_end then None
         else if ds ! i = NaN then None else Some (ds ! i))
        # extract_loop n reso rrd_start rrd_end end_time (t + reso) (next_index (length ds) i) ds)"

definition archive_extract :: "archive \<Rightarrow> nat \<Rightarrow> nat \<Rightarrow> f64 \<Rightarrow> entry option" where
  "archive_extract a start end_time last_update =
     (let last_up = as_u64 last_update;
          reso = resolution a;
          num_entries = length (rra_data a);
          rrd_end = slot_end_time a last_up;
          rrd_start = rrd_end - reso * num_entries
      in case slot a start of
           None \<Rightarrow> None
         | Some i \<Rightarrow>
             Some \<lparr>entry_start = start, entry_resolution = reso,
                   entry_data = extract_loop num_entries reso rrd_start rrd_end end_time start i (rra_data a)\<rparr>)"

section \<open>The database\<close>

record database =
  source :: data_source
  rra_list :: "archive list"

definition database_new :: "data_source_type \<Rightarrow> archive list \<Rightarrow> database" where
  "database_new d rras = \<lparr>source = data_source_new d, rra_list = rras\<rparr>"

definition archive_update :: "f64 \<Rightarrow> f64 \<Rightarrow> f64 \<Rightarrow> archive \<Rightarrow> archive option" where
  "archive_update time last_update v a =
     (case delete_old_slots a time last_update of
        None \<Rightarrow> None
      | Some a' \<Rightarrow> archive_new_value a' time last_update v)"

fun update_all :: "('a \<Rightarrow> 'a option) \<Rightarrow> 'a list \<Rightarrow> 'a list option" where
  "update_all f [] = Some []"
| "update_all f (x # xs) =
     (case f x of None \<Rightarrow> None | Some y \<Rightarrow> map_option ((#) y) (update_all f xs))"

definition database_update :: "database \<Rightarrow> f64 \<Rightarrow> f64 \<Rightarrow> database option" where
  "database_update db time v =
     (case source_new_value (source db) time v of
        (s, Inl e) \<Rightarrow> Some (db\<lparr>source := s\<rparr>)
      | (s, Inr x) \<Rightarrow>
          map_option (\<lambda>rras. \<lparr>source = s\<lparr>source_time := time\<rparr>, rra_list = rras\<rparr>)
            (update_all (archive_update time (source_time s) x) (rra_list db)))"

fun select_rra :: "aggregation_fn \<Rightarrow> nat \<Rightarrow> archive option \<Rightarrow> archive list \<Rightarrow> archive option" where
  "select_rra c reso r [] = r"
| "select_rra c reso r (item # items) =
     (if cf item \<noteq> c then select_rra c reso r items
      else if resolution item > reso then select_rra c reso r items
      else select_rra c reso
             (case r of
                Some current \<Rightarrow> if resolution item > resolution current then Some item else r
              | None \<Rightarrow> Some item) items)"

definition database_extract ::
  "nat \<Rightarrow> database \<Rightarrow> aggregation_fn \<Rightarrow> nat \<Rightarrow> nat option \<Rightarrow> nat option \<Rightarrow> (string, entry) result option" where
  "database_extract now db c reso start end_time =
     (case select_rra c reso None (rra_list db) of
        Some rra \<Rightarrow>
          (let e = (case end_time of Some e \<Rightarrow> e | None \<Rightarrow> now);
               s = (case start of Some s \<Rightarrow> s | None \<Rightarrow> e - 10 * resolution rra)
           in map_option Inr (archive_extract rra s e (source_time (source db))))
      | None \<Rightarrow> Some (Inl ''unable to find RRA suitable''))"

section \<open>The ring\<close>

lemma wrap_sub: "b \<le> a \<Longrightarrow> a < N \<Longrightarrow> (a + N - b) mod N = a - b" for a b N :: nat
proof -
  assume "b \<le> a" "a < N"
  moreover from this have "a + N - b = (a - b) + N" by simp
  ultimately show ?thesis by (metis mod_add_self2 mod_less less_imp_diff_less)
qed

lemma sub_u64_ge: "b \<le> a \<Longrightarrow> a < 2 ^ 64 \<Longrightarrow> sub_u64 a b = a - b"
  unfolding sub_u64_def by (rule wrap_sub)

lemma next_index_mod:
  assumes "0 < n"
  shows "next_index n (s mod n) = Suc s mod n"
proof -
  have "s mod n < n" using assms by simp
  then show ?thesis by (auto simp: next_index_def mod_Suc)
qed

lemma length_clear_loop [simp]: "length (clear_loop m reso mt t i ds) = length ds"
  by (induction m arbitrary: t i ds) (simp_all add: Let_def)

lemma div_add_resolution: "0 < reso \<Longrightarrow> (t + reso) div reso = Suc (t div reso)" for t reso :: nat
  by simp

lemma less_slot_iff: "0 < reso \<Longrightarrow> t < reso * m \<longleftrightarrow> t div reso < m" for t reso m :: nat
  by (simp add: div_less_iff_less_mult mult.commute)

text \<open>The loop clears the slots after the given one, up to the first that is still to be kept.\<close>

lemma clear_loop_nth:
  assumes "0 < reso" "ds \<noteq> []" "p < length ds"
  shows "clear_loop m reso (reso * M) t ((t div reso) mod length ds) ds ! p =
    (if \<exists>i \<in> {1..m}. t div reso + i < M \<and> p = (t div reso + i) mod length ds then NaN else ds ! p)"
  using assms
proof (induction m arbitrary: t ds)
  case (Suc m)
  let ?s = "t div reso" and ?n = "length ds"
  have n: "0 < ?n" using Suc.prems by simp
  have idx: "next_index ?n (?s mod ?n) = Suc ?s mod ?n" using n by (rule next_index_mod)
  have slot: "(t + reso) div reso = Suc ?s" using Suc.prems(1) by simp
  have lt: "t + reso < reso * M \<longleftrightarrow> Suc ?s < M" using less_slot_iff [OF Suc.prems(1)] slot by metis
  have split: "(\<exists>i \<in> {1..Suc m}. P (?s + i)) \<longleftrightarrow> P (Suc ?s) \<or> (\<exists>i \<in> {1..m}. P (Suc ?s + i))" for P
  proof -
    have "{1..Suc m} = insert 1 (Suc ` {1..m})" by (simp add: image_Suc_atLeastAtMost atLeastAtMost_insertL)
    then show ?thesis by (simp only: bex_simps) simp
  qed
  show ?case
  proof (cases "Suc ?s < M")
    case False
    then have "\<not> (\<exists>i \<in> {1..Suc m}. ?s + i < M \<and> p = (?s + i) mod ?n)" by auto
    then show ?thesis using False lt by (simp add: Let_def idx)
  next
    case True
    let ?ds = "ds[Suc ?s mod ?n := NaN]"
    have "clear_loop (Suc m) reso (reso * M) t (?s mod ?n) ds ! p =
        clear_loop m reso (reso * M) (t + reso) (((t + reso) div reso) mod length ?ds) ?ds ! p"
      using True lt by (simp add: Let_def idx slot)
    also have "\<dots> = (if \<exists>i \<in> {1..m}. Suc ?s + i < M \<and> p = (Suc ?s + i) mod ?n then NaN else ?ds ! p)"
      using Suc.IH [of ?ds "t + reso"] Suc.prems by (simp add: slot)
    also have "\<dots> = (if (Suc ?s < M \<and> p = Suc ?s mod ?n) \<or> (\<exists>i \<in> {1..m}. Suc ?s + i < M \<and> p = (Suc ?s + i) mod ?n)
        then NaN else ds ! p)"
      using True Suc.prems(3) by (auto simp: nth_list_update)
    finally show ?thesis using split [of "\<lambda>x. x < M \<and> p = x mod ?n"] by simp
  qed
qed simp

section \<open>What an archive stands for\<close>

text \<open>
  The specification keeps every accepted sample with its second and value. The value of a slot is the aggregate of the
  samples that fall into it, starting over when it is not a number.
\<close>

definition slot_step :: "aggregation_fn \<Rightarrow> f64 \<Rightarrow> f64 \<times> nat \<Rightarrow> f64 \<times> nat" where
  "slot_step c v = (\<lambda>(x, k). if k = 0 \<or> x = NaN then (v, 1) else (aggregate c x k v, min (k + 1) (2 ^ 64 - 1)))"

definition slot_fold :: "aggregation_fn \<Rightarrow> f64 list \<Rightarrow> f64 \<times> nat" where
  "slot_fold c vs = fold (slot_step c) vs (NaN, 0)"

definition in_slot :: "nat \<Rightarrow> (nat \<times> f64) list \<Rightarrow> nat \<Rightarrow> f64 list" where
  "in_slot reso hist k = map snd (filter (\<lambda>(t, v). t div reso = k) hist)"

definition last_epoch :: "(nat \<times> f64) list \<Rightarrow> nat" where
  "last_epoch hist = (if hist = [] then 0 else fst (last hist))"

lemma slot_fold_snoc [simp]: "slot_fold c (vs @ [v]) = slot_step c v (slot_fold c vs)"
  by (simp add: slot_fold_def)

lemma slot_fold_Nil [simp]: "slot_fold c [] = (NaN, 0)"
  by (simp add: slot_fold_def)

lemma in_slot_snoc: "in_slot reso (hist @ [(t, v)]) k = in_slot reso hist k @ (if t div reso = k then [v] else [])"
  by (simp add: in_slot_def)

text \<open>
  The invariant: the ring holds the values of the slots of its window, which ends with the slot of the last sample, and
  the counter is that of the last slot.
\<close>

definition window :: "nat \<Rightarrow> nat \<Rightarrow> nat \<Rightarrow> bool" where
  "window n l k \<longleftrightarrow> k \<le> l \<and> l < k + n"

definition archive_inv :: "(nat \<times> f64) list \<Rightarrow> archive \<Rightarrow> bool" where
  "archive_inv hist a \<longleftrightarrow>
     0 < resolution a \<and> rra_data a \<noteq> [] \<and> sorted (map fst hist) \<and>
     (if hist = [] then \<forall>x \<in> set (rra_data a). x = NaN
      else length (rra_data a) * resolution a \<le> last_epoch hist \<and>
        last_count a = snd (slot_fold (cf a) (in_slot (resolution a) hist (last_epoch hist div resolution a))) \<and>
        (\<forall>k. window (length (rra_data a)) (last_epoch hist div resolution a) k \<longrightarrow>
           rra_data a ! (k mod length (rra_data a)) = fst (slot_fold (cf a) (in_slot (resolution a) hist k))))"

lemma archive_inv_new: "0 < reso \<Longrightarrow> 0 < points \<Longrightarrow> archive_inv [] (archive_new c reso points)"
  by (simp add: archive_inv_def archive_new_def)

lemma window_step:
  assumes "window n e k" "k \<le> l" "l \<le> e"
  shows "window n l k"
  using assms by (auto simp: window_def)

text \<open>Two slots of one window do not share a place in the ring.\<close>

lemma window_inj:
  assumes "window n l j" "window n l k" "j mod n = k mod n"
  shows "j = k"
proof -
  have "j = k" if "j \<le> k" "j mod n = k mod n" "k < j + n" for j k
  proof -
    have "n dvd k - j" using that(1) that(2) [symmetric] by (simp add: mod_eq_dvd_iff_nat)
    moreover have "k - j < n" using that(3) that(1) by linarith
    ultimately have "k - j = 0" by (metis dvd_imp_le not_less neq0_conv)
    with that(1) show ?thesis by simp
  qed
  from this [of j k] this [of k j] show ?thesis using assms unfolding window_def by (metis le_less_trans nat_le_linear)
qed

lemma sub_slots:
  fixes x n r :: nat
  assumes "0 < r"
  shows "(x - n * r) div r = x div r - n"
proof (cases "n * r \<le> x")
  case True
  then obtain y where "x = n * r + y" using le_Suc_ex by blast
  then show ?thesis using assms by simp
next
  case False
  then have "x div r < n" using assms by (simp add: div_less_iff_less_mult)
  with False show ?thesis by simp
qed

lemma window_rep:
  fixes n l k :: nat
  assumes "0 < n" "n \<le> l" "l < k"
  shows "\<exists>i \<in> {1..n}. l - n + i + n \<le> k \<and> k mod n = (l - n + i) mod n"
proof -
  define d where "d = k - (l - n) - 1"
  define i where "i = Suc (d mod n)"
  have k: "k = l - n + Suc d" using assms by (simp add: d_def)
  have "i \<in> {1..n}" using assms(1) by (auto simp: i_def Suc_leI)
  moreover have mod: "k mod n = (l - n + i) mod n" unfolding k i_def by (metis add_Suc_right mod_Suc_eq mod_add_right_eq)
  moreover have "l - n + i + n \<le> k"
  proof -
    have "n \<le> d" using assms by (simp add: d_def)
    then have "1 \<le> d div n" using assms(1) by (simp add: Suc_le_eq div_greater_zero_iff)
    then have "n \<le> d div n * n" by simp
    then have "d mod n + n \<le> d" using div_mult_mod_eq [of d n] by linarith
    then show ?thesis unfolding k i_def by simp
  qed
  ultimately show ?thesis by blast
qed

lemma in_slot_after:
  assumes "sorted (map fst hist)" "last_epoch hist div reso < k"
  shows "in_slot reso hist k = []"
proof -
  have "t \<le> last_epoch hist" if "(t, v) \<in> set hist" for t v
    using that assms(1) by (cases hist rule: rev_cases) (force simp: last_epoch_def sorted_append)+
  then show ?thesis using assms(2) by (auto simp: in_slot_def filter_empty_conv) (metis div_le_mono leD)
qed

lemma delete_old_slots_spec:
  assumes "archive_inv hist a" "as_u64 last_update = last_epoch hist" "last_epoch hist \<le> as_u64 time"
    "length (rra_data a) * resolution a \<le> as_u64 time"
  shows "\<exists>ds. delete_old_slots a time last_update = Some (a\<lparr>rra_data := ds\<rparr>) \<and> length ds = length (rra_data a) \<and>
    (\<forall>k. window (length (rra_data a)) (as_u64 time div resolution a) k \<longrightarrow>
       ds ! (k mod length (rra_data a)) = fst (slot_fold (cf a) (in_slot (resolution a) hist k)))"
proof -
  let ?n = "length (rra_data a)" and ?r = "resolution a"
  let ?E = "as_u64 time div ?r" and ?t = "last_epoch hist - ?n * ?r"
  define ds where "ds = clear_loop ?n ?r (?r * (?E - ?n + 1)) ?t (?t div ?r mod ?n) (rra_data a)"
  have r: "0 < ?r" "0 < ?n" "rra_data a \<noteq> []" and sorted: "sorted (map fst hist)" using assms(1) by (auto simp: archive_inv_def)
  have "(as_u64 time - ?n * ?r) div ?r = ?E - ?n" using r(1) by (rule sub_slots)
  then have del: "delete_old_slots a time last_update = Some (a\<lparr>rra_data := ds\<rparr>)"
    using r assms(2) by (simp add: delete_old_slots_def Let_def slot_def slot_end_time_def ds_def)
  have nth: "ds ! p = (if \<exists>i \<in> {1..?n}. ?t div ?r + i < ?E - ?n + 1 \<and> p = (?t div ?r + i) mod ?n then NaN else rra_data a ! p)"
    if "p < ?n" for p unfolding ds_def by (rule clear_loop_nth [OF r(1) r(3) that])
  have "ds ! (k mod ?n) = fst (slot_fold (cf a) (in_slot ?r hist k))" if win: "window ?n ?E k" for k
  proof (cases "hist = []")
    case True
    then have "rra_data a ! (k mod ?n) = NaN" using assms(1) r by (simp add: archive_inv_def)
    with nth [OF mod_less_divisor [OF r(2)], of k] have "ds ! (k mod ?n) = NaN" by metis
    then show ?thesis using True by (simp add: in_slot_def)
  next
    case False
    let ?L = "last_epoch hist div ?r"
    have L: "?n * ?r \<le> last_epoch hist"
      and ring: "\<And>k. window ?n ?L k \<Longrightarrow> rra_data a ! (k mod ?n) = fst (slot_fold (cf a) (in_slot ?r hist k))"
      using assms(1) False by (auto simp: archive_inv_def)
    have tL: "?t div ?r = ?L - ?n" using r(1) by (rule sub_slots)
    have nL: "?n \<le> ?L" using L r(1) by (simp add: less_eq_div_iff_mult_less_eq)
    have LE: "?L \<le> ?E" using assms(3) by (rule div_le_mono)
    show ?thesis
    proof (cases "k \<le> ?L")
      case True
      then have winL: "window ?n ?L k" using window_step [OF win True LE] by simp
      have "\<not> (\<exists>i \<in> {1..?n}. ?L - ?n + i < ?E - ?n + 1 \<and> k mod ?n = (?L - ?n + i) mod ?n)"
      proof
        assume "\<exists>i \<in> {1..?n}. ?L - ?n + i < ?E - ?n + 1 \<and> k mod ?n = (?L - ?n + i) mod ?n"
        then obtain i where i: "1 \<le> i" "i \<le> ?n" "?L - ?n + i < ?E - ?n + 1" "k mod ?n = (?L - ?n + i) mod ?n" by auto
        have "window ?n ?L (?L - ?n + i)" using i(1,2) nL by (simp add: window_def)
        from window_inj [OF winL this i(4)] have "k + ?n \<le> ?E" using i(3) nL LE by linarith
        with win show False by (simp add: window_def)
      qed
      with nth [OF mod_less_divisor [OF r(2)], of k] tL have "ds ! (k mod ?n) = rra_data a ! (k mod ?n)" by metis
      then show ?thesis using ring [OF winL] by simp
    next
      case False
      then obtain i where i: "i \<in> {1..?n}" "?L - ?n + i + ?n \<le> k" "k mod ?n = (?L - ?n + i) mod ?n"
        using window_rep [OF r(2) nL, of k] by auto
      have "?L - ?n + i < ?E - ?n + 1" using i(2) win unfolding window_def by linarith
      with nth [OF mod_less_divisor [OF r(2)], of k] tL i(1,3) have "ds ! (k mod ?n) = NaN" by metis
      moreover have "in_slot ?r hist k = []" using sorted False by (intro in_slot_after) simp_all
      ultimately show ?thesis by simp
    qed
  qed
  moreover have "length ds = ?n" by (simp add: ds_def)
  ultimately show ?thesis using del by auto
qed

lemma archive_update_inv:
  assumes inv: "archive_inv hist a" and last: "as_u64 last_update = last_epoch hist" "last_epoch hist \<le> as_u64 time"
    and span: "length (rra_data a) * resolution a \<le> as_u64 time"
  shows "\<exists>a'. archive_update time last_update v a = Some a' \<and> archive_inv (hist @ [(as_u64 time, v)]) a' \<and>
    resolution a' = resolution a \<and> cf a' = cf a \<and> length (rra_data a') = length (rra_data a)"
proof -
  let ?n = "length (rra_data a)" and ?r = "resolution a" and ?e = "as_u64 time"
  let ?E = "?e div ?r" and ?L = "last_epoch hist div ?r" and ?hist = "hist @ [(?e, v)]"
  have r: "0 < ?r" "0 < ?n" and sorted: "sorted (map fst hist)" using inv by (auto simp: archive_inv_def)
  obtain ds where del: "delete_old_slots a time last_update = Some (a\<lparr>rra_data := ds\<rparr>)" and len: "length ds = ?n"
    and ds: "\<And>k. window ?n ?E k \<Longrightarrow> ds ! (k mod ?n) = fst (slot_fold (cf a) (in_slot ?r hist k))"
    using delete_old_slots_spec [OF inv last span] by auto
  let ?i = "?E mod ?n"
  have winE: "window ?n ?E ?E" using r(2) by (simp add: window_def)
  obtain x c where fold: "slot_fold (cf a) (in_slot ?r hist ?E) = (x, c)" by fastforce
  have x: "ds ! ?i = x" using ds [OF winE] fold by simp
  define count where "count = (if ds ! ?i = NaN then 0
      else if ?e - last_epoch hist > ?r \<or> ?i \<noteq> ?L mod ?n then 0 else last_count a)"
  have count: "count = (if x = NaN then 0 else c)"
  proof (cases "?E = ?L \<and> hist \<noteq> []")
    case True
    then have "last_count a = c" using inv fold by (simp add: archive_inv_def)
    moreover have "?e - last_epoch hist \<le> ?r"
    proof -
      have "?e mod ?r < ?r" using r(1) by simp
      moreover have "?e = ?E * ?r + ?e mod ?r" "last_epoch hist = ?L * ?r + last_epoch hist mod ?r" by simp_all
      moreover have "?E * ?r = ?L * ?r" using True by simp
      ultimately show ?thesis by linarith
    qed
    ultimately show ?thesis using True x by (simp add: count_def)
  next
    case False
    have "?L \<le> ?E" using last(2) by (rule div_le_mono)
    then have "in_slot ?r hist ?E = []"
      using False in_slot_after [OF sorted, of ?r ?E] by (cases "hist = []") (auto simp: in_slot_def)
    then show ?thesis using fold x by (simp add: count_def)
  qed
  define a' where "a' = (if count = 0 then a\<lparr>rra_data := ds[?i := v], last_count := 1\<rparr>
      else a\<lparr>rra_data := ds[?i := aggregate (cf a) (ds ! ?i) count v], last_count := min (count + 1) (2 ^ 64 - 1)\<rparr>)"
  have ne: "ds \<noteq> []" using len r(2) by auto
  have upd: "archive_update time last_update v a = Some a'"
    using r ne sub_u64_ge [OF last(2) as_u64_bound]
    by (simp add: archive_update_def del archive_new_value_def slot_def last(1) len a'_def count_def Let_def)
  have step: "slot_fold (cf a) (in_slot ?r ?hist ?E) = (rra_data a' ! ?i, last_count a')"
  proof -
    have "?i < length ds" using r(2) len by simp
    then show ?thesis by (simp add: in_slot_snoc fold slot_step_def a'_def count x)
  qed
  have keep: "resolution a' = ?r" "cf a' = cf a" "length (rra_data a') = ?n"
    by (simp_all add: a'_def len)
  have other: "rra_data a' ! (k mod ?n) = ds ! (k mod ?n)" if "window ?n ?E k" "k \<noteq> ?E" for k
  proof -
    have "?i \<noteq> k mod ?n" using window_inj [OF that(1) winE] that(2) by auto
    then show ?thesis by (simp add: a'_def)
  qed
  have "rra_data a' ! (k mod ?n) = fst (slot_fold (cf a) (in_slot ?r ?hist k))" if "window ?n ?E k" for k
    using ds [OF that] other [OF that] step by (cases "k = ?E") (simp_all add: in_slot_snoc)
  moreover have "sorted (map fst ?hist)"
    using sorted last(2) by (cases hist rule: rev_cases) (auto simp: sorted_append last_epoch_def dest: order_trans)
  moreover have "last_epoch ?hist = ?e" by (simp add: last_epoch_def)
  ultimately have "archive_inv ?hist a'"
    using r keep step span by (auto simp: archive_inv_def)
  then show ?thesis using upd keep by auto
qed

lemma extract_loop_nth:
  assumes "0 < reso" "ds \<noteq> []" "i < m" "t + i * reso \<le> e"
  shows "i < length (extract_loop m reso (reso * lo) (reso * hi) e t ((t div reso) mod length ds) ds) \<and>
    extract_loop m reso (reso * lo) (reso * hi) e t ((t div reso) mod length ds) ds ! i =
      (let k = t div reso + i in if lo \<le> k \<and> k < hi \<and> ds ! (k mod length ds) \<noteq> NaN then Some (ds ! (k mod length ds)) else None)"
  using assms
proof (induction m arbitrary: t i)
  case (Suc m)
  let ?s = "t div reso" and ?n = "length ds"
  have slot: "(t + reso) div reso = Suc ?s" using Suc.prems(1) by simp
  have idx: "next_index ?n (?s mod ?n) = (t + reso) div reso mod ?n"
    unfolding slot using Suc.prems(2) by (intro next_index_mod) simp
  have lt: "t < reso * lo \<longleftrightarrow> ?s < lo" "reso * hi \<le> t \<longleftrightarrow> hi \<le> ?s"
    using less_slot_iff [OF Suc.prems(1), of t] by (simp_all flip: not_less)
  show ?case
  proof (cases i)
    case 0
    then show ?thesis using Suc.prems lt by (simp add: Let_def)
  next
    case (Suc j)
    then have "j < m" "t + reso + j * reso \<le> e" "t \<le> e" using Suc.prems by simp_all
    then show ?thesis using Suc.IH [of j "t + reso"] Suc.prems Suc by (simp add: idx slot Let_def)
  qed
qed simp

text \<open>The value an archive shows for a slot: nothing outside of its window, and nothing for a slot without samples.\<close>

definition slot_value :: "aggregation_fn \<Rightarrow> nat \<Rightarrow> nat \<Rightarrow> (nat \<times> f64) list \<Rightarrow> nat \<Rightarrow> f64 option" where
  "slot_value c reso n hist k =
     (let x = fst (slot_fold c (in_slot reso hist k))
      in if window n (last_epoch hist div reso) k \<and> x \<noteq> NaN then Some x else None)"

lemma archive_extract_spec:
  assumes inv: "archive_inv hist a" and last: "as_u64 last_update = last_epoch hist"
  shows "\<exists>en. archive_extract a start e last_update = Some en \<and> entry_start en = start \<and>
    entry_resolution en = resolution a \<and>
    (\<forall>i < length (rra_data a). start + i * resolution a \<le> e \<longrightarrow>
       entry_get en i = slot_value (cf a) (resolution a) (length (rra_data a)) hist (start div resolution a + i))"
proof -
  let ?n = "length (rra_data a)" and ?r = "resolution a" and ?L = "last_epoch hist div resolution a"
  have r: "0 < ?r" "rra_data a \<noteq> []" using inv by (auto simp: archive_inv_def)
  have ring: "rra_data a ! (k mod ?n) = fst (slot_fold (cf a) (in_slot ?r hist k))" if "window ?n ?L k" for k
    using inv that r by (cases "hist = []") (auto simp: archive_inv_def in_slot_def)
  let ?es = "extract_loop ?n ?r (?r * (?L + 1 - ?n)) (?r * (?L + 1)) e start (start div ?r mod ?n) (rra_data a)"
  have ex: "archive_extract a start e last_update = Some \<lparr>entry_start = start, entry_resolution = ?r, entry_data = ?es\<rparr>"
    using r by (simp add: archive_extract_def slot_def slot_end_time_def last Let_def right_diff_distrib')
  have "entry_get \<lparr>entry_start = start, entry_resolution = ?r, entry_data = ?es\<rparr> i =
      slot_value (cf a) ?r ?n hist (start div ?r + i)" if "i < ?n" "start + i * ?r \<le> e" for i
  proof -
    let ?k = "start div ?r + i"
    have "entry_get \<lparr>entry_start = start, entry_resolution = ?r, entry_data = ?es\<rparr> i =
      (if ?L + 1 - ?n \<le> ?k \<and> ?k < ?L + 1 \<and> rra_data a ! (?k mod ?n) \<noteq> NaN then Some (rra_data a ! (?k mod ?n)) else None)"
      using extract_loop_nth [OF r that, of "?L + 1 - ?n" "?L + 1"] by (simp add: entry_get_def Let_def)
    moreover have "?L + 1 - ?n \<le> ?k \<and> ?k < ?L + 1 \<longleftrightarrow> window ?n ?L ?k" by (auto simp: window_def)
    ultimately show ?thesis using ring [of ?k] by (auto simp: slot_value_def Let_def)
  qed
  then show ?thesis using ex by simp
qed

section \<open>Sequences of updates\<close>

text \<open>The samples the data source accepts, with the values it derives.\<close>

fun history :: "data_source \<Rightarrow> (f64 \<times> f64) list \<Rightarrow> (nat \<times> f64) list" where
  "history s [] = []"
| "history s ((t, v) # samples) =
     (case source_new_value s t v of
        (s', Inl _) \<Rightarrow> history s' samples
      | (s', Inr x) \<Rightarrow> (as_u64 t, x) # history (s'\<lparr>source_time := t\<rparr>) samples)"

fun update_seq :: "database \<Rightarrow> (f64 \<times> f64) list \<Rightarrow> database option" where
  "update_seq db [] = Some db"
| "update_seq db ((t, v) # samples) =
     (case database_update db t v of None \<Rightarrow> None | Some db' \<Rightarrow> update_seq db' samples)"

lemma source_new_value_time: "source_new_value s t v = (s', r) \<Longrightarrow> source_time s' = source_time s"
  by (auto simp: source_new_value_def Let_def split: if_splits)

lemma source_new_value_later:
  "source_new_value s t v = (s', Inr x) \<Longrightarrow> t \<noteq> NaN \<Longrightarrow> source_time s \<noteq> NaN \<Longrightarrow> as_u64 (source_time s) \<le> as_u64 t"
proof -
  assume "source_new_value s t v = (s', Inr x)" and nan: "t \<noteq> NaN" "source_time s \<noteq> NaN"
  then have "\<not> f64_le t (source_time s)" by (auto simp: source_new_value_def split: if_splits)
  then have "f64_less (source_time s) t" using nan f64_not_le by blast
  then show ?thesis by (intro as_u64_mono) (simp add: f64_le_def)
qed

definition database_inv :: "(nat \<times> f64) list \<Rightarrow> database \<Rightarrow> bool" where
  "database_inv hist db \<longleftrightarrow>
     source_time (source db) \<noteq> NaN \<and> as_u64 (source_time (source db)) = last_epoch hist \<and>
     (\<forall>a \<in> set (rra_list db). archive_inv hist a)"

definition shape :: "archive \<Rightarrow> aggregation_fn \<times> nat \<times> nat" where
  "shape a = (cf a, resolution a, length (rra_data a))"

definition covers :: "archive list \<Rightarrow> nat \<Rightarrow> bool" where
  "covers rras e \<longleftrightarrow> list_all (\<lambda>a. length (rra_data a) * resolution a \<le> e) rras"

lemma covers_shape: "map shape as = map shape bs \<Longrightarrow> covers as e = covers bs e"
proof -
  have "covers as e = list_all (\<lambda>(c, r, n). n * r \<le> e) (map shape as)" for as
    by (auto simp: covers_def list_all_iff shape_def)
  then show "map shape as = map shape bs \<Longrightarrow> covers as e = covers bs e" by simp
qed

lemma update_all_inv:
  assumes "\<forall>a \<in> set rras. archive_inv hist a" "as_u64 lu = last_epoch hist" "last_epoch hist \<le> as_u64 t"
    and "covers rras (as_u64 t)"
  shows "\<exists>rras'. update_all (archive_update t lu x) rras = Some rras' \<and>
    (\<forall>a \<in> set rras'. archive_inv (hist @ [(as_u64 t, x)]) a) \<and> map shape rras' = map shape rras"
  using assms
proof (induction rras)
  case (Cons a rras)
  from archive_update_inv [of hist a lu t x] Cons.prems obtain a' where a': "archive_update t lu x a = Some a'"
    "archive_inv (hist @ [(as_u64 t, x)]) a'" "shape a' = shape a" by (auto simp: covers_def shape_def)
  from Cons obtain rras' where "update_all (archive_update t lu x) rras = Some rras'"
    "\<forall>a \<in> set rras'. archive_inv (hist @ [(as_u64 t, x)]) a" "map shape rras' = map shape rras"
    by (auto simp: covers_def)
  with a' show ?case by simp
qed simp

lemma database_update_inv:
  assumes inv: "database_inv hist db" and nan: "t \<noteq> NaN"
    and cov: "is_ok (snd (source_new_value (source db) t v)) \<longrightarrow> covers (rra_list db) (as_u64 t)"
  shows "\<exists>db'. database_update db t v = Some db' \<and> map shape (rra_list db') = map shape (rra_list db) \<and>
    (case source_new_value (source db) t v of
       (s, Inl _) \<Rightarrow> source db' = s \<and> database_inv hist db'
     | (s, Inr x) \<Rightarrow> source db' = s\<lparr>source_time := t\<rparr> \<and> database_inv (hist @ [(as_u64 t, x)]) db')"
proof -
  obtain s r where src: "source_new_value (source db) t v = (s, r)" by fastforce
  have time: "source_time s = source_time (source db)" using source_new_value_time [OF src] .
  show ?thesis
  proof (cases r)
    case (Inl e)
    then show ?thesis using inv src time by (simp add: database_update_def database_inv_def)
  next
    case (Inr x)
    have later: "last_epoch hist \<le> as_u64 t"
      using source_new_value_later [OF src [unfolded Inr] nan] inv by (simp add: database_inv_def)
    obtain rras where "update_all (archive_update t (source_time s) x) (rra_list db) = Some rras"
      "\<forall>a \<in> set rras. archive_inv (hist @ [(as_u64 t, x)]) a" "map shape rras = map shape (rra_list db)"
      using update_all_inv [OF _ _ later, of "rra_list db" "source_time s" x] inv time cov
      by (auto simp: database_inv_def src Inr)
    then show ?thesis using src Inr nan by (simp add: database_update_def database_inv_def last_epoch_def)
  qed
qed

lemma update_seq_inv:
  assumes "database_inv hist db" "list_all (\<lambda>(t, v). t \<noteq> NaN) samples"
    and "list_all (\<lambda>(e, v). covers (rra_list db) e) (history (source db) samples)"
  shows "\<exists>db'. update_seq db samples = Some db' \<and> map shape (rra_list db') = map shape (rra_list db) \<and>
    database_inv (hist @ history (source db) samples) db'"
  using assms
proof (induction samples arbitrary: db hist)
  case (Cons sample samples)
  obtain t v where sample: "sample = (t, v)" by (cases sample)
  obtain s r where src: "source_new_value (source db) t v = (s, r)" by fastforce
  have cov: "is_ok (snd (source_new_value (source db) t v)) \<longrightarrow> covers (rra_list db) (as_u64 t)"
    using Cons.prems(3) by (cases r) (simp_all add: sample src)
  have nan: "t \<noteq> NaN" using Cons.prems(2) by (simp add: sample)
  from database_update_inv [OF Cons.prems(1) nan cov]
  obtain db1 where db1: "database_update db t v = Some db1" "map shape (rra_list db1) = map shape (rra_list db)"
    and inv: "case (s, r) of (s, Inl _) \<Rightarrow> source db1 = s \<and> database_inv hist db1
       | (s, Inr x) \<Rightarrow> source db1 = s\<lparr>source_time := t\<rparr> \<and> database_inv (hist @ [(as_u64 t, x)]) db1"
    by (auto simp: sample src)
  show ?case
  proof (cases r)
    case (Inl e)
    then show ?thesis
      using Cons.IH [of hist db1] Cons.prems(2,3) inv db1 covers_shape [OF db1(2)] by (simp add: sample src)
  next
    case (Inr x)
    then show ?thesis
      using Cons.IH [of "hist @ [(as_u64 t, x)]" db1] Cons.prems(2,3) inv db1 covers_shape [OF db1(2)] by (simp add: sample src)
  qed
qed simp

lemma select_rra_sound:
  "select_rra c reso r as = Some a \<Longrightarrow> (r = Some a \<or> a \<in> set as \<and> cf a = c \<and> resolution a \<le> reso)"
  by (induction as arbitrary: r) (fastforce split: if_splits option.splits)+

section \<open>What the aggregates mean\<close>

lemma slot_fold_pos: "vs \<noteq> [] \<Longrightarrow> 0 < snd (slot_fold c vs)"
  by (cases vs rule: rev_cases) (auto simp: slot_step_def split: prod.splits)

text \<open>The last, largest or smallest of the samples of a slot.\<close>

lemma slot_fold_meaning:
  assumes "vs \<noteq> []" "list_all (\<lambda>v. v \<noteq> NaN) vs"
  shows "fst (slot_fold Last vs) = last vs"
    and "fst (slot_fold Maximum vs) \<in> set vs \<and> list_all (\<lambda>v. \<not> f64_less (fst (slot_fold Maximum vs)) v) vs"
    and "fst (slot_fold Minimum vs) \<in> set vs \<and> list_all (\<lambda>v. \<not> f64_less v (fst (slot_fold Minimum vs))) vs"
proof -
  have irr: "\<not> f64_less v v" for v by (cases v) auto
  have trans: "\<not> f64_less v u" if "\<not> f64_less x u" "\<not> f64_less v x" "x \<noteq> NaN" for u v x
    using that by (cases u; cases v; cases x) auto
  have asym: "f64_less v x \<Longrightarrow> \<not> f64_less x v" for v x by (cases v; cases x) auto
  show "fst (slot_fold Last vs) = last vs"
    using assms
  proof (induction vs rule: rev_induct)
    case (snoc v vs)
    then show ?case by (cases "slot_fold Last vs") (auto simp: slot_step_def aggregate_def)
  qed simp
  show "fst (slot_fold Maximum vs) \<in> set vs \<and> list_all (\<lambda>v. \<not> f64_less (fst (slot_fold Maximum vs)) v) vs"
    using assms
  proof (induction vs rule: rev_induct)
    case (snoc v vs)
    obtain x k where fold: "slot_fold Maximum vs = (x, k)" by fastforce
    show ?case
    proof (cases "vs = []")
      case True
      then show ?thesis by (simp add: slot_fold_def slot_step_def irr)
    next
      case False
      then have k: "k \<noteq> 0" using slot_fold_pos [OF False, of Maximum] fold by simp
      have x: "x \<in> set vs" "list_all (\<lambda>v. \<not> f64_less x v) vs" using snoc False fold by auto
      then have nan: "x \<noteq> NaN" using snoc.prems(2) by (auto simp: list_all_iff)
      have "fst (slot_fold Maximum (vs @ [v])) = (if f64_less v x then x else v)"
        using k nan fold by (simp add: slot_step_def aggregate_def)
      moreover have "list_all (\<lambda>u. \<not> f64_less v u) vs" if "\<not> f64_less v x"
        using x(2) that nan trans unfolding list_all_iff by blast
      ultimately show ?thesis using x asym [of v x] irr [of v] by simp
    qed
  qed simp
  show "fst (slot_fold Minimum vs) \<in> set vs \<and> list_all (\<lambda>v. \<not> f64_less v (fst (slot_fold Minimum vs))) vs"
    using assms
  proof (induction vs rule: rev_induct)
    case (snoc v vs)
    obtain x k where fold: "slot_fold Minimum vs = (x, k)" by fastforce
    show ?case
    proof (cases "vs = []")
      case True
      then show ?thesis by (simp add: slot_fold_def slot_step_def irr)
    next
      case False
      then have k: "k \<noteq> 0" using slot_fold_pos [OF False, of Minimum] fold by simp
      have x: "x \<in> set vs" "list_all (\<lambda>v. \<not> f64_less v x) vs" using snoc False fold by auto
      then have nan: "x \<noteq> NaN" using snoc.prems(2) by (auto simp: list_all_iff)
      have "fst (slot_fold Minimum (vs @ [v])) = (if f64_less x v then x else v)"
        using k nan fold by (simp add: slot_step_def aggregate_def)
      moreover have "list_all (\<lambda>u. \<not> f64_less u v) vs" if "\<not> f64_less x v"
        using x(2) that nan trans unfolding list_all_iff by blast
      ultimately show ?thesis using x asym [of x v] irr [of v] by simp
    qed
  qed simp
qed

section \<open>Properties\<close>

definition new_archives :: "(aggregation_fn \<times> nat \<times> nat) list \<Rightarrow> archive list" where
  "new_archives specs = map (\<lambda>(c, reso, points). archive_new c reso points) specs"



text \<open>
  Without that condition an old value can come back: the loop that clears the ring begins after slot 0 when the last update
  is earlier than the span of the archive, so the value of second 30 is shown for the slot of second 300, which has no
  sample.
\<close>

lemma early_sample_comes_back:
  "map_option (map_sum id entry_data)
     (case update_seq (database_new Gauge (new_archives [(Maximum, 60, 5)])) [(Finite 30, Finite 7), (Finite 361, Finite 1)] of
        None \<Rightarrow> None
      | Some db \<Rightarrow> database_extract 0 db Maximum 60 (Some 300) (Some 300)) = Some (Inr [Some (Finite 7)])"
proof -
  note eval = database_update_def source_new_value_def f64_le_def as_u64_def archive_update_def delete_old_slots_def slot_def
    slot_end_time_def next_index_def archive_new_value_def sub_u64_def aggregate_def
  have replicate5: "replicate 5 NaN = [NaN, NaN, NaN, NaN, NaN]" by (simp add: numeral_eq_Suc)
  have new: "database_new Gauge (new_archives [(Maximum, 60, 5)]) =
      \<lparr>source = \<lparr>dst = Gauge, source_time = Finite 0, last_value = NaN\<rparr>,
       rra_list = [\<lparr>resolution = 60, cf = Maximum, last_count = 0, rra_data = [NaN, NaN, NaN, NaN, NaN]\<rparr>]\<rparr>"
    by (simp add: database_new_def new_archives_def archive_new_def data_source_new_def replicate5)
  have step1: "database_update \<lparr>source = \<lparr>dst = Gauge, source_time = Finite 0, last_value = NaN\<rparr>,
       rra_list = [\<lparr>resolution = 60, cf = Maximum, last_count = 0, rra_data = [NaN, NaN, NaN, NaN, NaN]\<rparr>]\<rparr> (Finite 30) (Finite 7) =
     Some \<lparr>source = \<lparr>dst = Gauge, source_time = Finite 30, last_value = Finite 7\<rparr>,
       rra_list = [\<lparr>resolution = 60, cf = Maximum, last_count = Suc 0, rra_data = [Finite 7, NaN, NaN, NaN, NaN]\<rparr>]\<rparr>"
    by (simp add: eval)
  have step2: "database_update \<lparr>source = \<lparr>dst = Gauge, source_time = Finite 30, last_value = Finite 7\<rparr>,
       rra_list = [\<lparr>resolution = 60, cf = Maximum, last_count = Suc 0, rra_data = [Finite 7, NaN, NaN, NaN, NaN]\<rparr>]\<rparr> (Finite 361) (Finite 1) =
     Some \<lparr>source = \<lparr>dst = Gauge, source_time = Finite 361, last_value = Finite 1\<rparr>,
       rra_list = [\<lparr>resolution = 60, cf = Maximum, last_count = Suc 0, rra_data = [Finite 7, Finite 1, NaN, NaN, NaN]\<rparr>]\<rparr>"
    by (simp add: eval)
  show ?thesis
    by (simp add: new step1 step2) (simp add: database_extract_def archive_extract_def slot_def slot_end_time_def as_u64_def)
qed

text \<open>A time that is not a number passes the checks of the data source, and then every later time does.\<close>

lemma nan_time_disables_check:
  assumes "v \<noteq> NaN" "w \<noteq> NaN" "\<not> f64_less t (Finite 0)"
  shows "\<exists>s'. source_new_value (data_source_new Gauge) NaN v = (s', Inr v) \<and>
    is_ok (snd (source_new_value (s'\<lparr>source_time := NaN\<rparr>) t w))"
  using assms by (cases t) (simp_all add: source_new_value_def data_source_new_def f64_le_def)

end
