(* ===== verification/Deb_Version.thy ===== *)
theory Deb_Version
  imports Rust_Text
begin

text \<open>
  Debian version numbers, \<open>proxmox-deb-version/src/lib.rs\<close>. The crate works on characters, so a text is here the list of
  its code points.
\<close>

type_synonym chars = "nat list"

section \<open>Versions\<close>

datatype ordering = Less | Equal | Greater

datatype parse_error = Empty | MissingUpstream | InvalidEpoch

record version =
  epoch :: nat
  upstream :: chars
  revision :: "chars option"

definition parse_epoch :: "chars \<Rightarrow> nat option" where
  "parse_epoch s = (if list_all (\<lambda>c. c < 128) s then parse_unsigned (2 ^ 32 - 1) (map char_of s) else None)"

definition split_revision :: "chars \<Rightarrow> chars \<times> chars option" where
  "split_revision rest =
     (case rposition (\<lambda>c. c = 45) rest of
        Some i \<Rightarrow> (take i rest, Some (drop (i + 1) rest))
      | None \<Rightarrow> (rest, None))"

definition parse_version_parts :: "chars \<Rightarrow> (parse_error, version) result" where
  "parse_version_parts s =
     (if s = [] then Inl Empty
      else
        and_then
          (case split_once 58 s of
             Some (e, r) \<Rightarrow> and_then (ok_or InvalidEpoch (parse_epoch e)) (\<lambda>e. Inr (e, r))
           | None \<Rightarrow> Inr (0, s))
          (\<lambda>(e, rest).
             let (u, rev) = split_revision rest
             in if u = [] then Inl MissingUpstream
                else Inr \<lparr>epoch = e, upstream = u, revision = rev\<rparr>))"

definition text_of :: "string \<Rightarrow> chars" where
  "text_of s = map of_char s"

definition version_display :: "version \<Rightarrow> chars" where
  "version_display v =
     (if epoch v > 0 then text_of (show_nat (epoch v)) @ [58] else []) @ upstream v @
     (case revision v of Some r \<Rightarrow> 45 # r | None \<Rightarrow> [])"

section \<open>Comparison\<close>

definition cmp :: "'a::linorder \<Rightarrow> 'a \<Rightarrow> ordering" where
  "cmp x y = (if x < y then Less else if x = y then Equal else Greater)"

definition is_digit :: "nat \<Rightarrow> bool" where
  "is_digit c = (48 \<le> c \<and> c \<le> 57)"

definition is_alphabetic :: "nat \<Rightarrow> bool" where
  "is_alphabetic c = (65 \<le> c \<and> c \<le> 90 \<or> 97 \<le> c \<and> c \<le> 122)"

definition order_char :: "nat \<Rightarrow> int" where
  "order_char c = (if c = 126 then - 1 else if is_alphabetic c then int c else int c + 256)"

text \<open>\<open>Peekable::next_if\<close> with the test for a character that is not a digit.\<close>

definition next_non_digit :: "chars \<Rightarrow> nat option \<times> chars" where
  "next_non_digit s = (case s of c # s' \<Rightarrow> if is_digit c then (None, s) else (Some c, s') | [] \<Rightarrow> (None, s))"

function compare_non_digits :: "chars \<Rightarrow> chars \<Rightarrow> ordering \<times> chars \<times> chars" where
  "compare_non_digits a b =
     (case (next_non_digit a, next_non_digit b) of
        ((None, a'), (None, b')) \<Rightarrow> (Equal, a', b')
      | ((Some ca, a'), (Some cb, b')) \<Rightarrow>
          (let ord = cmp (order_char ca) (order_char cb)
           in if ord \<noteq> Equal then (ord, a', b') else compare_non_digits a' b')
      | ((Some ca, a'), (None, b')) \<Rightarrow> (cmp (order_char ca) 0, a', b')
      | ((None, a'), (Some cb, b')) \<Rightarrow> (cmp 0 (order_char cb), a', b'))"
  by pat_completeness auto
termination
  by (relation "measure (\<lambda>(a, b). length a)") (auto simp: next_non_digit_def split: list.splits if_splits)

declare compare_non_digits.simps [simp del]

definition skip_zeros :: "chars \<Rightarrow> chars" where
  "skip_zeros s = dropWhile (\<lambda>c. c = 48) s"

fun digits_loop :: "ordering \<Rightarrow> chars \<Rightarrow> chars \<Rightarrow> ordering \<times> chars \<times> chars" where
  "digits_loop first_diff a b =
     (case (a, b) of
        (ca # a', cb # b') \<Rightarrow>
          if is_digit ca \<and> is_digit cb then digits_loop (if first_diff = Equal then cmp ca cb else first_diff) a' b'
          else if is_digit ca then (Greater, a, b)
          else if is_digit cb then (Less, a, b)
          else (first_diff, a, b)
      | (ca # a', []) \<Rightarrow> if is_digit ca then (Greater, a, b) else (first_diff, a, b)
      | ([], cb # b') \<Rightarrow> if is_digit cb then (Less, a, b) else (first_diff, a, b)
      | ([], []) \<Rightarrow> (first_diff, a, b))"

declare digits_loop.simps [simp del]

definition compare_digits :: "chars \<Rightarrow> chars \<Rightarrow> ordering \<times> chars \<times> chars" where
  "compare_digits a b = digits_loop Equal (skip_zeros a) (skip_zeros b)"

text \<open>The runs a text begins with, and what follows them.\<close>

abbreviation run_of :: "(nat \<Rightarrow> bool) \<Rightarrow> chars \<Rightarrow> chars" where
  "run_of \<equiv> takeWhile"

abbreviation after :: "(nat \<Rightarrow> bool) \<Rightarrow> chars \<Rightarrow> chars" where
  "after \<equiv> dropWhile"

lemma cmp_simps [simp]: "cmp x x = Equal" "cmp x y = Equal \<longleftrightarrow> x = y" "x < y \<Longrightarrow> cmp x y = Less" "y < x \<Longrightarrow> cmp x y = Greater"
  by (auto simp: cmp_def)

lemma order_char_nonzero [simp]: "order_char c \<noteq> 0" "order_char c = 0 \<longleftrightarrow> False"
  by (auto simp: order_char_def is_alphabetic_def)

lemma compare_non_digits_code:
  "compare_non_digits [] [] = (Equal, [], [])"
  "compare_non_digits (c # a) [] = (if is_digit c then (Equal, c # a, []) else (cmp (order_char c) 0, a, []))"
  "compare_non_digits [] (d # b) = (if is_digit d then (Equal, [], d # b) else (cmp 0 (order_char d), [], b))"
  "compare_non_digits (c # a) (d # b) =
     (if is_digit c \<and> is_digit d then (Equal, c # a, d # b)
      else if is_digit d then (cmp (order_char c) 0, a, d # b)
      else if is_digit c then (cmp 0 (order_char d), c # a, b)
      else if order_char c = order_char d then compare_non_digits a b
      else (cmp (order_char c) (order_char d), a, b))"
  by (subst compare_non_digits.simps, simp add: next_non_digit_def)+

lemma compare_non_digits_rest:
  "compare_non_digits a b = (Equal, a', b') \<Longrightarrow>
     a' = after (\<lambda>c. \<not> is_digit c) a \<and> b' = after (\<lambda>c. \<not> is_digit c) b"
proof (induction a arbitrary: b)
  case Nil
  then show ?case by (cases b) (auto simp: compare_non_digits_code split: if_splits)
next
  case (Cons c a)
  then show ?case by (cases b) (auto simp: compare_non_digits_code split: if_splits)
qed

lemma digits_loop_code:
  "digits_loop fd [] [] = (fd, [], [])"
  "digits_loop fd (c # a) [] = (if is_digit c then (Greater, c # a, []) else (fd, c # a, []))"
  "digits_loop fd [] (d # b) = (if is_digit d then (Less, [], d # b) else (fd, [], d # b))"
  "digits_loop fd (c # a) (d # b) =
     (if is_digit c \<and> is_digit d then digits_loop (if fd = Equal then cmp c d else fd) a b
      else if is_digit c then (Greater, c # a, d # b)
      else if is_digit d then (Less, c # a, d # b)
      else (fd, c # a, d # b))"
  by (subst digits_loop.simps, simp)+

lemma digits_loop_rest: "digits_loop fd a b = (Equal, a', b') \<Longrightarrow> a' = after is_digit a \<and> b' = after is_digit b"
proof (induction a arbitrary: b fd)
  case Nil
  then show ?case by (cases b) (auto simp: digits_loop_code split: if_splits)
next
  case (Cons c a)
  then show ?case by (cases b) (auto simp: digits_loop_code split: if_splits)
qed

lemma after_skip_zeros: "after is_digit (skip_zeros s) = after is_digit s"
  by (induction s) (auto simp: skip_zeros_def is_digit_def)

lemma compare_digits_rest: "compare_digits a b = (Equal, a', b') \<Longrightarrow> a' = after is_digit a \<and> b' = after is_digit b"
  using digits_loop_rest [of Equal "skip_zeros a" "skip_zeros b"] by (simp add: compare_digits_def after_skip_zeros)

definition chunks_left :: "chars \<Rightarrow> chars" where
  "chunks_left s = after is_digit (after (\<lambda>c. \<not> is_digit c) s)"

lemma chunks_left_shorter: "s \<noteq> [] \<Longrightarrow> length (chunks_left s) < length s"
proof (cases s)
  case (Cons c s')
  have "length (chunks_left s) \<le> length s'"
    using length_dropWhile_le [of is_digit "after (\<lambda>c. \<not> is_digit c) s'"] length_dropWhile_le [of "\<lambda>c. \<not> is_digit c" s']
      length_dropWhile_le [of is_digit s'] by (cases "is_digit c") (auto simp: Cons chunks_left_def)
  then show ?thesis by (simp add: Cons)
qed simp

lemma chunks_left_le: "length (chunks_left s) \<le> length s"
  using chunks_left_shorter [of s] by (cases s) (auto simp: chunks_left_def)

lemma cmp_step_shorter:
  assumes "compare_non_digits a b = (Equal, a1, b1)" "compare_digits a1 b1 = (Equal, a2, b2)" "a \<noteq> [] \<or> b \<noteq> []"
  shows "length a2 + length b2 < length a + length b"
proof -
  have "a2 = chunks_left a" "b2 = chunks_left b"
    using compare_digits_rest [OF assms(2)] compare_non_digits_rest [OF assms(1)] by (simp_all add: chunks_left_def)
  with assms(3) chunks_left_le [of a] chunks_left_le [of b] chunks_left_shorter [of a] chunks_left_shorter [of b]
  show ?thesis by (metis add_le_less_mono add_less_le_mono)
qed

function debian_cmp_str :: "chars \<Rightarrow> chars \<Rightarrow> ordering" where
  "debian_cmp_str a b =
     (if a \<noteq> [] \<or> b \<noteq> [] then
        (case compare_non_digits a b of
           (diff, a1, b1) \<Rightarrow>
             if diff \<noteq> Equal then diff
             else
               (case compare_digits a1 b1 of
                  (diff, a2, b2) \<Rightarrow> if diff \<noteq> Equal then diff else debian_cmp_str a2 b2))
      else Equal)"
  by pat_completeness auto
termination
  by (relation "measure (\<lambda>(a, b). length a + length b)") (auto simp: eq_commute [of "(_, _)"] dest: cmp_step_shorter)

declare debian_cmp_str.simps [simp del]

definition then_with :: "ordering \<Rightarrow> ordering \<Rightarrow> ordering" where
  "then_with a b = (if a = Equal then b else a)"

definition cmp_version_parts :: "version \<Rightarrow> version \<Rightarrow> ordering" where
  "cmp_version_parts a b =
     then_with (cmp (epoch a) (epoch b))
       (then_with (debian_cmp_str (upstream a) (upstream b))
         (case (revision a, revision b) of
            (Some a_rev, Some b_rev) \<Rightarrow> debian_cmp_str a_rev b_rev
          | (Some _, None) \<Rightarrow> Greater
          | (None, Some _) \<Rightarrow> Less
          | (None, None) \<Rightarrow> Equal))"

definition cmp_versions :: "chars \<Rightarrow> chars \<Rightarrow> (parse_error, ordering) result" where
  "cmp_versions a b =
     and_then (parse_version_parts a) (\<lambda>va. and_then (parse_version_parts b) (\<lambda>vb. Inr (cmp_version_parts va vb)))"

section \<open>The order the comparison decides\<close>

text \<open>
  The specification: a text is the list of its runs, the characters of a run without digits by their order and a zero at its
  end, a run of digits as its number. Lists are compared lexicographically, the shorter one continued with
  zeros.
\<close>

definition run_value :: "chars \<Rightarrow> nat" where
  "run_value ds = foldl (\<lambda>n c. n * 10 + (c - 48)) 0 ds"

function key :: "chars \<Rightarrow> int list" where
  "key s =
     (if s = [] then []
      else map order_char (run_of (\<lambda>c. \<not> is_digit c) s) @ 0 #
           int (run_value (run_of is_digit (after (\<lambda>c. \<not> is_digit c) s))) # key (chunks_left s))"
  by pat_completeness auto
termination by (relation "measure length") (auto simp: chunks_left_shorter)

declare key.simps [simp del]

fun pad_cmp :: "int list \<Rightarrow> int list \<Rightarrow> ordering" where
  "pad_cmp [] [] = Equal"
| "pad_cmp (x # xs) [] = then_with (cmp x 0) (pad_cmp xs [])"
| "pad_cmp [] (y # ys) = then_with (cmp 0 y) (pad_cmp [] ys)"
| "pad_cmp (x # xs) (y # ys) = then_with (cmp x y) (pad_cmp xs ys)"

lemma then_with_simps [simp]: "then_with Equal b = b" "then_with Less b = Less" "then_with Greater b = Greater"
  by (simp_all add: then_with_def)

lemma then_with_assoc: "then_with (then_with a b) c = then_with a (then_with b c)"
  by (cases a) simp_all

text \<open>A text always begins with the two runs, which may be empty.\<close>

definition key_runs :: "chars \<Rightarrow> int list" where
  "key_runs s = map order_char (run_of (\<lambda>c. \<not> is_digit c) s) @ 0 #
     int (run_value (run_of is_digit (after (\<lambda>c. \<not> is_digit c) s))) # key (chunks_left s)"

lemma pad_cmp_zero: "pad_cmp [0] ys = pad_cmp [] ys" "pad_cmp xs [0] = pad_cmp xs []"
  by (cases ys; simp) (cases xs; simp)

lemma pad_cmp_zeros: "pad_cmp [0, 0] ys = pad_cmp [] ys" "pad_cmp xs [0, 0] = pad_cmp xs []"
  by (cases ys; simp add: pad_cmp_zero) (cases xs; simp add: pad_cmp_zero)

lemma key_runs_eq: "pad_cmp (key a) (key b) = pad_cmp (key_runs a) (key_runs b)"
proof -
  have "key s = (if s = [] then [] else key_runs s)" for s
    by (subst key.simps) (simp add: key_runs_def)
  moreover have "key_runs [] = [0, 0]"
    by (simp add: key_runs_def run_value_def chunks_left_def key.simps)
  ultimately show ?thesis by (simp add: pad_cmp_zeros)
qed

lemma compare_non_digits_key:
  "pad_cmp (map order_char (run_of (\<lambda>c. \<not> is_digit c) a) @ 0 # xs) (map order_char (run_of (\<lambda>c. \<not> is_digit c) b) @ 0 # ys) =
     then_with (fst (compare_non_digits a b)) (pad_cmp xs ys)"
proof (induction a arbitrary: b)
  case Nil
  then show ?case by (cases b) (auto simp: compare_non_digits_code then_with_def)
next
  case (Cons c a)
  then show ?case by (cases b) (auto simp: compare_non_digits_code then_with_def)
qed

text \<open>Digits: more of them make the larger number when none leads with zero, otherwise the first difference decides.\<close>

abbreviation value_from :: "nat \<Rightarrow> chars \<Rightarrow> nat" where
  "value_from \<equiv> foldl (\<lambda>n c. n * 10 + (c - 48))"

lemma value_step:
  fixes x y c d :: nat
  assumes "is_digit c" "is_digit d"
  shows "cmp (x * 10 + (c - 48)) (y * 10 + (d - 48)) = then_with (cmp x y) (cmp c d)"
  using assms by (auto simp: is_digit_def cmp_def then_with_def)

lemma digits_loop_value:
  "fst (digits_loop (cmp x y) a b) =
    (let A = run_of is_digit a; B = run_of is_digit b
     in if length A = length B then cmp (value_from x A) (value_from y B)
        else if length A < length B then Less else Greater)"
proof (induction a arbitrary: b x y)
  case Nil
  then show ?case by (cases b) (auto simp: digits_loop_code)
next
  case (Cons c a)
  note IH = Cons.IH
  show ?case
  proof (cases b)
    case Nil
    then show ?thesis by (auto simp: digits_loop_code)
  next
    case (Cons d b')
    show ?thesis
    proof (cases "is_digit c \<and> is_digit d")
      case False
      then show ?thesis by (auto simp: Cons digits_loop_code)
    next
      case True
      then have fd: "(if cmp x y = Equal then cmp c d else cmp x y) = cmp (x * 10 + (c - 48)) (y * 10 + (d - 48))"
        using value_step [of c d x y] by (simp add: then_with_def)
      have "fst (digits_loop (cmp x y) (c # a) b) = fst (digits_loop (cmp (x * 10 + (c - 48)) (y * 10 + (d - 48))) a b')"
        using True by (simp only: Cons digits_loop_code fd) simp
      then show ?thesis
        using IH [of "x * 10 + (c - 48)" "y * 10 + (d - 48)" b'] True by (simp add: Cons Let_def)
    qed
  qed
qed

lemma value_from_bounds:
  assumes "list_all is_digit A"
  shows "n * 10 ^ length A \<le> value_from n A \<and> value_from n A < (n + 1) * 10 ^ length A"
  using assms
proof (induction A arbitrary: n)
  case (Cons c A)
  have "c \<le> 57" using Cons.prems by (simp add: is_digit_def)
  then have c: "c - 48 \<le> 9" by simp
  have lo: "n * 10 ^ length (c # A) \<le> (n * 10 + (c - 48)) * 10 ^ length A" by (simp add: algebra_simps)
  have hi: "(n * 10 + (c - 48) + 1) * 10 ^ length A \<le> (n + 1) * 10 ^ length (c # A)"
  proof -
    have "n * 10 + (c - 48) + 1 \<le> (n + 1) * 10" using c by simp
    then have "(n * 10 + (c - 48) + 1) * 10 ^ length A \<le> (n + 1) * 10 * 10 ^ length A" by (rule mult_le_mono1)
    moreover have "(n + 1) * 10 * 10 ^ length A = (n + 1) * 10 ^ length (c # A)" by (simp add: algebra_simps)
    ultimately show ?thesis by (rule ord_le_eq_trans)
  qed
  have "list_all is_digit A" using Cons.prems by simp
  note IH = Cons.IH [OF this, of "n * 10 + (c - 48)"]
  show ?case unfolding foldl_Cons
    using le_trans [OF lo conjunct1 [OF IH]] less_le_trans [OF conjunct2 [OF IH] hi] by (rule conjI)
qed simp

lemma run_value_skip_zeros: "run_value (run_of is_digit (skip_zeros s)) = run_value (run_of is_digit s)"
  by (induction s) (auto simp: run_value_def skip_zeros_def is_digit_def)

lemma longer_is_larger:
  assumes "list_all is_digit A" "list_all is_digit B" "length A < length B" "hd B \<noteq> 48"
  shows "run_value A < run_value B"
proof -
  obtain d B' where B: "B = d # B'" using assms(3) by (cases B) auto
  have d: "1 \<le> d - 48" using assms(2,4) by (auto simp: B is_digit_def)
  have "run_value A < 10 ^ length A" using value_from_bounds [OF assms(1), of 0] by (simp add: run_value_def)
  also have "\<dots> \<le> 10 ^ length B'" using assms(3) by (intro power_increasing) (simp_all add: B)
  also have "\<dots> \<le> (d - 48) * 10 ^ length B'" using d by simp
  also have "\<dots> \<le> run_value B" using value_from_bounds [of B' "d - 48"] assms(2) by (simp add: run_value_def B)
  finally show ?thesis .
qed

lemma compare_digits_value: "fst (compare_digits a b) = cmp (run_value (run_of is_digit a)) (run_value (run_of is_digit b))"
proof -
  let ?A = "run_of is_digit (skip_zeros a)" and ?B = "run_of is_digit (skip_zeros b)"
  have hd: "run_of is_digit (skip_zeros s) \<noteq> [] \<Longrightarrow> hd (run_of is_digit (skip_zeros s)) \<noteq> 48" for s
  proof -
    assume "run_of is_digit (skip_zeros s) \<noteq> []"
    moreover from this obtain c t where ct: "skip_zeros s = c # t" by (cases "skip_zeros s") auto
    moreover have "dropWhile (\<lambda>c. c = 48) s \<noteq> []" using ct unfolding skip_zeros_def by simp
    from hd_dropWhile [OF this] have "c \<noteq> 48" using ct unfolding skip_zeros_def by simp
    ultimately show ?thesis by (auto split: if_splits)
  qed
  have digits: "list_all is_digit (run_of is_digit s)" for s
    by (auto simp: list_all_iff dest: set_takeWhileD)
  have "fst (compare_digits a b) = cmp (run_value ?A) (run_value ?B)"
  proof -
    consider "length ?A = length ?B" | "length ?A < length ?B" | "length ?B < length ?A" by linarith
    then show ?thesis
    proof cases
      case 1
      then show ?thesis
        using digits_loop_value [of "0::nat" 0 "skip_zeros a" "skip_zeros b"] by (simp add: compare_digits_def Let_def run_value_def)
    next
      case 2
      then have "?B \<noteq> []" by (metis list.size(3) not_less_zero)
      from 2 hd [OF this] have "run_value ?A < run_value ?B" by (intro longer_is_larger digits)
      then show ?thesis
        using digits_loop_value [of "0::nat" 0 "skip_zeros a" "skip_zeros b"] 2 by (simp add: compare_digits_def Let_def)
    next
      case 3
      then have "?A \<noteq> []" by (metis list.size(3) not_less_zero)
      from 3 hd [OF this] have "run_value ?B < run_value ?A" by (intro longer_is_larger digits)
      then show ?thesis
        using digits_loop_value [of "0::nat" 0 "skip_zeros a" "skip_zeros b"] 3 by (simp add: compare_digits_def Let_def)
    qed
  qed
  then show ?thesis by (simp add: run_value_skip_zeros)
qed

lemma debian_cmp_str_key: "debian_cmp_str a b = pad_cmp (key a) (key b)"
proof (induction a b rule: debian_cmp_str.induct)
  case (1 a b)
  obtain d1 a1 b1 where nd: "compare_non_digits a b = (d1, a1, b1)" by (metis prod_cases3)
  obtain d2 a2 b2 where dg: "compare_digits a1 b1 = (d2, a2, b2)" by (metis prod_cases3)
  show ?case
  proof (cases "a = [] \<and> b = []")
    case True
    then show ?thesis by (simp add: debian_cmp_str.simps [of "[]" "[]"] key.simps)
  next
    case False
    let ?na = "after (\<lambda>c. \<not> is_digit c) a" and ?nb = "after (\<lambda>c. \<not> is_digit c) b"
    have keys: "pad_cmp (key a) (key b) = then_with d1 (then_with
        (cmp (int (run_value (run_of is_digit ?na))) (int (run_value (run_of is_digit ?nb))))
        (pad_cmp (key (chunks_left a)) (key (chunks_left b))))"
      unfolding key_runs_eq [of a b] key_runs_def compare_non_digits_key by (simp add: nd)
    show ?thesis
    proof (cases "d1 = Equal")
      case True
      then have rest: "a1 = ?na" "b1 = ?nb" using compare_non_digits_rest [of a b a1 b1] nd by auto
      have d2: "d2 = cmp (int (run_value (run_of is_digit ?na))) (int (run_value (run_of is_digit ?nb)))"
        using compare_digits_value [of a1 b1] dg rest by (simp add: cmp_def)
      show ?thesis
      proof (cases "d2 = Equal")
        case True2: True
        then have "a2 = chunks_left a" "b2 = chunks_left b"
          using compare_digits_rest [of a1 b1 a2 b2] dg rest by (auto simp: chunks_left_def)
        then show ?thesis using 1 [OF _ nd [symmetric] refl _ dg [symmetric] refl] False True True2 keys d2
          by (subst debian_cmp_str.simps) (auto simp: nd dg)
      next
        case False2: False
        then show ?thesis using True False keys d2
          by (subst debian_cmp_str.simps) (auto simp: nd dg then_with_def)
      qed
    next
      case False2: False
      then show ?thesis using False keys by (subst debian_cmp_str.simps) (auto simp: nd then_with_def)
    qed
  qed
qed

fun flip :: "ordering \<Rightarrow> ordering" where
  "flip Less = Greater"
| "flip Equal = Equal"
| "flip Greater = Less"

lemma flip_cmp: "flip (cmp x y) = cmp y x"
  by (auto simp: cmp_def)

lemma flip_then_with: "flip (then_with a b) = then_with (flip a) (flip b)"
  by (cases a) simp_all

lemma pad_cmp_flip: "flip (pad_cmp xs ys) = pad_cmp ys xs"
  by (induction xs ys rule: pad_cmp.induct) (simp_all add: flip_then_with flip_cmp)

lemma pad_cmp_refl: "pad_cmp xs xs = Equal"
  by (induction xs) simp_all

text \<open>Lists compare equal exactly when they agree up to zeros, and the comparison is transitive.\<close>

definition nth_pad :: "int list \<Rightarrow> nat \<Rightarrow> int" where
  "nth_pad xs i = (if i < length xs then xs ! i else 0)"

lemma nth_pad_simps [simp]: "nth_pad [] i = 0" "nth_pad (x # xs) 0 = x" "nth_pad (x # xs) (Suc i) = nth_pad xs i"
  by (simp_all add: nth_pad_def)

definition first_less :: "(nat \<Rightarrow> int) \<Rightarrow> (nat \<Rightarrow> int) \<Rightarrow> bool" where
  "first_less f g \<longleftrightarrow> (\<exists>i. f i < g i \<and> (\<forall>j < i. f j = g j))"

lemma first_less_step: "first_less f g \<longleftrightarrow> f 0 < g 0 \<or> f 0 = g 0 \<and> first_less (\<lambda>i. f (Suc i)) (\<lambda>i. g (Suc i))"
proof -
  have "first_less f g \<longleftrightarrow> f 0 < g 0 \<or> (\<exists>i. f (Suc i) < g (Suc i) \<and> (\<forall>j < Suc i. f j = g j))"
    unfolding first_less_def by (metis not0_implies_Suc not_less_zero)
  then show ?thesis by (auto simp: first_less_def All_less_Suc2)
qed

lemma first_less_trans:
  assumes "first_less f g" "first_less g h"
  shows "first_less f h"
proof -
  obtain i k where i: "f i < g i" "\<forall>j < i. f j = g j" and k: "g k < h k" "\<forall>j < k. g j = h j"
    using assms by (auto simp: first_less_def)
  have "f (min i k) < h (min i k)" using i k by (cases i k rule: linorder_cases) (auto simp: min_def)
  moreover have "\<forall>j < min i k. f j = h j" using i k by simp
  ultimately show ?thesis by (auto simp: first_less_def)
qed

lemma pad_cmp_Less: "pad_cmp xs ys = Less \<longleftrightarrow> first_less (nth_pad xs) (nth_pad ys)"
proof (induction xs ys rule: pad_cmp.induct)
  case 1
  then show ?case by (simp add: first_less_def)
qed (subst first_less_step, simp add: then_with_def cmp_def)+

lemma pad_cmp_Equal: "pad_cmp xs ys = Equal \<longleftrightarrow> nth_pad xs = nth_pad ys"
proof -
  have step: "f = g \<longleftrightarrow> f 0 = g 0 \<and> (\<lambda>i. f (Suc i)) = (\<lambda>i. g (Suc i))" for f g :: "nat \<Rightarrow> int"
    by (metis ext not0_implies_Suc)
  show ?thesis
  proof (induction xs ys rule: pad_cmp.induct)
    case 1
    then show ?case by simp
  qed (subst step, simp add: then_with_def cmp_def)+
qed

section \<open>Comparisons\<close>

text \<open>What a sorting routine relies on: the comparison is a total preorder.\<close>

locale comparison =
  fixes c :: "'v \<Rightarrow> 'v \<Rightarrow> ordering"
  assumes refl: "c x x = Equal"
    and flipped: "c y x = flip (c x y)"
    and chain: "c x y \<noteq> Greater \<Longrightarrow> c y z \<noteq> Greater \<Longrightarrow> c x z = then_with (c x y) (c y z)"
begin

lemma connex: "c x y \<noteq> Greater \<or> c y x \<noteq> Greater"
  using flipped [of y x] by (cases "c x y") auto

lemma le_trans: "c x y \<noteq> Greater \<Longrightarrow> c y z \<noteq> Greater \<Longrightarrow> c x z \<noteq> Greater"
  using chain [of x y z] by (cases "c x y") auto

lemma equal_sym: "c x y = Equal \<longleftrightarrow> c y x = Equal"
  using flipped [of y x] by (cases "c x y") auto

lemma equal_trans: "c x y = Equal \<Longrightarrow> c y z = Equal \<Longrightarrow> c x z = Equal"
  using chain [of x y z] by simp

end

lemma pad_cmp_cong:
  assumes "nth_pad x = nth_pad x'" "nth_pad y = nth_pad y'"
  shows "pad_cmp x y = pad_cmp x' y'"
  using pad_cmp_Less [of x y] pad_cmp_Less [of x' y'] pad_cmp_Equal [of x y] pad_cmp_Equal [of x' y'] assms
  by (cases "pad_cmp x y"; cases "pad_cmp x' y'") auto

lemma pad_cmp_chain:
  assumes "pad_cmp x y \<noteq> Greater" "pad_cmp y z \<noteq> Greater"
  shows "pad_cmp x z = then_with (pad_cmp x y) (pad_cmp y z)"
proof (cases "pad_cmp x y = Less \<and> pad_cmp y z = Less")
  case True
  then have "first_less (nth_pad x) (nth_pad z)" unfolding pad_cmp_Less by (auto intro: first_less_trans)
  with True pad_cmp_Less [of x z] show ?thesis by simp
next
  case False
  then consider "pad_cmp x y = Equal" | "pad_cmp x y = Less" "pad_cmp y z = Equal"
    using assms by (cases "pad_cmp x y"; cases "pad_cmp y z") simp_all
  then show ?thesis
  proof cases
    case 1
    then show ?thesis using pad_cmp_cong [of x y z z] pad_cmp_Equal [of x y] by simp
  next
    case 2
    then show ?thesis using pad_cmp_cong [of x x y z] pad_cmp_Equal [of y z] by simp
  qed
qed

interpretation keys: comparison pad_cmp
  by unfold_locales (rule pad_cmp_refl, rule pad_cmp_flip [symmetric], rule pad_cmp_chain)

lemma comparison_map: "comparison c \<Longrightarrow> comparison (\<lambda>x y. c (f x) (f y))"
  by (rule comparison.intro) (erule comparison.refl, erule comparison.flipped, erule comparison.chain)

lemma comparison_then:
  assumes "comparison c" "comparison d"
  shows "comparison (\<lambda>x y. then_with (c x y) (d x y))"
proof (rule comparison.intro)
  note c = comparison.refl [OF assms(1)] comparison.flipped [OF assms(1)] comparison.chain [OF assms(1)]
  note d = comparison.refl [OF assms(2)] comparison.flipped [OF assms(2)] comparison.chain [OF assms(2)]
  fix x y z
  show "then_with (c x x) (d x x) = Equal" by (simp add: c(1) d(1))
  show "then_with (c y x) (d y x) = flip (then_with (c x y) (d x y))"
    by (simp only: c(2) [of y x] d(2) [of y x] flip_then_with)
  assume le: "then_with (c x y) (d x y) \<noteq> Greater" "then_with (c y z) (d y z) \<noteq> Greater"
  then have "c x y \<noteq> Greater" "c y z \<noteq> Greater" by auto
  then have "c x z = then_with (c x y) (c y z)" by (rule c(3))
  moreover have "c x y = Equal \<Longrightarrow> c y z = Equal \<Longrightarrow> d x z = then_with (d x y) (d y z)"
    using le by (intro d(3)) simp_all
  ultimately show "then_with (c x z) (d x z) = then_with (then_with (c x y) (d x y)) (then_with (c y z) (d y z))"
    using le by (cases "c x y"; cases "c y z"; cases "d x y") simp_all
qed

lemma comparison_cmp: "comparison (cmp :: 'a::linorder \<Rightarrow> 'a \<Rightarrow> ordering)"
  by (rule comparison.intro) (auto simp: flip_cmp cmp_def split: if_splits)

interpretation texts: comparison debian_cmp_str
  using comparison_map [OF keys.comparison_axioms, of key] by (simp add: debian_cmp_str_key [abs_def])

definition revision_cmp :: "chars option \<Rightarrow> chars option \<Rightarrow> ordering" where
  "revision_cmp r s =
     (case (r, s) of
        (Some a_rev, Some b_rev) \<Rightarrow> debian_cmp_str a_rev b_rev
      | (Some _, None) \<Rightarrow> Greater
      | (None, Some _) \<Rightarrow> Less
      | (None, None) \<Rightarrow> Equal)"

lemma comparison_revision: "comparison revision_cmp"
proof (rule comparison.intro)
  fix x y z
  show "revision_cmp x x = Equal" by (cases x) (simp_all add: revision_cmp_def texts.refl)
  show "revision_cmp y x = flip (revision_cmp x y)"
    using texts.flipped [of "the y" "the x"] by (cases x; cases y) (simp_all add: revision_cmp_def)
  assume "revision_cmp x y \<noteq> Greater" "revision_cmp y z \<noteq> Greater"
  then show "revision_cmp x z = then_with (revision_cmp x y) (revision_cmp y z)"
    using texts.chain [of "the x" "the y" "the z"] by (cases x; cases y; cases z) (simp_all add: revision_cmp_def)
qed

lemma cmp_version_parts_revision:
  "cmp_version_parts a b =
     then_with (cmp (epoch a) (epoch b))
       (then_with (debian_cmp_str (upstream a) (upstream b)) (revision_cmp (revision a) (revision b)))"
  by (simp add: cmp_version_parts_def revision_cmp_def)

interpretation versions: comparison cmp_version_parts
  unfolding cmp_version_parts_revision [abs_def]
  by (intro comparison_then comparison_map [OF comparison_cmp] comparison_map [OF texts.comparison_axioms]
      comparison_map [OF comparison_revision])


section \<open>Printing and parsing\<close>

definition version_text :: "version \<Rightarrow> chars" where
  "version_text v = upstream v @ (case revision v of Some r \<Rightarrow> 45 # r | None \<Rightarrow> [])"

definition version_wf :: "version \<Rightarrow> bool" where
  "version_wf v \<longleftrightarrow> epoch v < 2 ^ 32 \<and> upstream v \<noteq> [] \<and>
     (case revision v of Some r \<Rightarrow> 45 \<notin> set r | None \<Rightarrow> 45 \<notin> set (upstream v))"

lemma split_revision_text:
  assumes "split_revision s = (u, r)"
  shows "s = u @ (case r of Some r \<Rightarrow> 45 # r | None \<Rightarrow> [])"
    and "case r of Some r \<Rightarrow> 45 \<notin> set r | None \<Rightarrow> 45 \<notin> set u"
  using assms rposition_split [of "45::nat" s]
  by (auto simp: split_revision_def rposition_None_iff split: option.splits)

lemma split_revision_wf: "version_wf v \<Longrightarrow> split_revision (version_text v) = (upstream v, revision v)"
proof (cases "revision v")
  case None
  assume "version_wf v"
  then show ?thesis by (auto simp: None version_wf_def version_text_def split_revision_def rposition_None_iff split: option.split)
next
  case (Some r)
  assume "version_wf v"
  then have "rposition (\<lambda>c. c = 45) (version_text v) = Some (length (upstream v))"
    unfolding version_text_def Some by (simp add: Some version_wf_def) (rule rposition_append_last, auto)
  then show ?thesis by (simp add: split_revision_def) (simp add: version_text_def Some)
qed

text \<open>What a text is parsed to, with and without an epoch.\<close>

lemma parse_body:
  assumes "(let (u, rev) = split_revision s
      in if u = [] then Inl MissingUpstream else Inr \<lparr>epoch = e, upstream = u, revision = rev\<rparr>) = Inr v" "e < 2 ^ 32"
  shows "version_wf v \<and> epoch v = e \<and> version_text v = s"
  using assms split_revision_text [of s]
  by (auto simp: Let_def version_wf_def version_text_def split: prod.splits if_splits option.splits)

lemma parse_epoch_less: "parse_epoch s = Some e \<Longrightarrow> e < 2 ^ 32"
  by (auto simp: parse_epoch_def parse_unsigned_def split: if_splits option.splits)

lemma parse_version_parts_Inr:
  assumes "parse_version_parts s = Inr v"
  shows "version_wf v \<and>
    (case split_once 58 s of
       Some (e, r) \<Rightarrow> parse_epoch e = Some (epoch v) \<and> version_text v = r
     | None \<Rightarrow> epoch v = 0 \<and> version_text v = s)"
proof (cases "split_once 58 s")
  case None
  with assms have "(let (u, rev) = split_revision s
      in if u = [] then Inl MissingUpstream else Inr \<lparr>epoch = 0, upstream = u, revision = rev\<rparr>) = Inr v"
    by (simp add: parse_version_parts_def split: if_splits)
  from parse_body [OF this] None show ?thesis by simp
next
  case (Some p)
  obtain e t where p: "p = (e, t)" by (cases p)
  obtain n where n: "parse_epoch e = Some n"
    using assms Some p by (cases "parse_epoch e") (simp_all add: parse_version_parts_def ok_or_def split: if_splits)
  have "(let (u, rev) = split_revision t
      in if u = [] then Inl MissingUpstream else Inr \<lparr>epoch = n, upstream = u, revision = rev\<rparr>) = Inr v"
    using assms Some p n by (simp add: parse_version_parts_def ok_or_def split: if_splits)
  from parse_body [OF this parse_epoch_less [OF n]] Some p n show ?thesis by simp
qed

lemma parse_text:
  assumes "version_wf v"
  shows "58 \<notin> set (version_text v) \<Longrightarrow> epoch v = 0 \<Longrightarrow> parse_version_parts (version_text v) = Inr v"
    and "parse_version_parts (text_of (show_nat (epoch v)) @ 58 # version_text v) = Inr v"
proof -
  have wf: "upstream v \<noteq> []" "epoch v \<le> 2 ^ 32 - 1" using assms by (simp_all add: version_wf_def)
  have body: "version_text v \<noteq> []" using wf(1) by (simp add: version_text_def)
  show "58 \<notin> set (version_text v) \<Longrightarrow> epoch v = 0 \<Longrightarrow> parse_version_parts (version_text v) = Inr v"
    using split_revision_wf [OF assms] body wf(1) by (simp add: parse_version_parts_def split_once_None)
  have "58 \<notin> set (text_of (show_nat (epoch v)))" using show_nat_above by (fastforce simp: text_of_def)
  moreover have "parse_epoch (text_of (show_nat (epoch v))) = Some (epoch v)"
  proof -
    have "list_all (\<lambda>c. c < 128) (text_of (show_nat (epoch v)))"
      using show_nat_above by (fastforce simp: text_of_def list_all_iff)
    then show ?thesis using parse_unsigned_show_nat [OF wf(2)] by (simp add: parse_epoch_def text_of_def comp_def)
  qed
  ultimately show "parse_version_parts (text_of (show_nat (epoch v)) @ 58 # version_text v) = Inr v"
    using wf(1) by (simp add: parse_version_parts_def split_once_append split_revision_wf [OF assms] ok_or_def)
qed

lemma version_display_text:
  "version_display v = (if epoch v > 0 then text_of (show_nat (epoch v)) @ 58 # version_text v else version_text v)"
  by (simp add: version_display_def version_text_def)

text \<open>C36: The text printed for a parsed version is parsed to the same version again exactly when the version has an epoch
  above zero or has no colon after its epoch. The epoch zero is not printed, so the version \<open>0:1:2\<close> is printed as
  \<open>1:2\<close>, which is version 2 of epoch 1.
\<close>

theorem version_display_roundtrip:
  assumes "parse_version_parts s = Inr v"
  shows "parse_version_parts (version_display v) = Inr v \<longleftrightarrow> 0 < epoch v \<or> 58 \<notin> set (version_text v)"
proof -
  have wf: "version_wf v" using parse_version_parts_Inr [OF assms] by simp
  have False if colon: "58 \<in> set (version_text v)" and parsed: "parse_version_parts (version_text v) = Inr v"
  proof -
    obtain e r where er: "split_once 58 (version_text v) = Some (e, r)" "version_text v = e @ 58 # r"
      using split_list_first [OF colon] split_once_append by metis
    with parse_version_parts_Inr [OF parsed] have "version_text v = r" by simp
    with er(2) show False by simp
  qed
  then show ?thesis using parse_text [OF wf] by (auto simp: version_display_text)
qed

theorem version_display_roundtrip_witness:
  "parse_version_parts (text_of ''2:1.0-1'') = Inr \<lparr>epoch = 2, upstream = text_of ''1.0'', revision = Some (text_of ''1'')\<rparr> \<and>
   parse_version_parts (version_display \<lparr>epoch = 2, upstream = text_of ''1.0'', revision = Some (text_of ''1'')\<rparr>) =
     Inr \<lparr>epoch = 2, upstream = text_of ''1.0'', revision = Some (text_of ''1'')\<rparr> \<and>
   parse_version_parts (text_of ''0:1:2'') = Inr \<lparr>epoch = 0, upstream = text_of ''1:2'', revision = None\<rparr> \<and>
   parse_version_parts (version_display \<lparr>epoch = 0, upstream = text_of ''1:2'', revision = None\<rparr>) \<noteq>
     Inr \<lparr>epoch = 0, upstream = text_of ''1:2'', revision = None\<rparr>"
proof -
  let ?v = "\<lparr>epoch = 2, upstream = text_of ''1.0'', revision = Some (text_of ''1'')\<rparr>"
  let ?w = "\<lparr>epoch = 0, upstream = text_of ''1:2'', revision = None\<rparr>"
  have v: "parse_version_parts (text_of ''2:1.0-1'') = Inr ?v"
    using parse_text(2) [of ?v] by (simp add: version_wf_def version_text_def text_of_def show_nat.simps [of 2] digit_char_def)
  have w: "parse_version_parts (text_of ''0:1:2'') = Inr ?w"
    using parse_text(2) [of ?w] by (simp add: version_wf_def version_text_def text_of_def show_nat.simps [of 0] digit_char_def)
  have "58 \<in> set (version_text ?w)" by (simp add: version_text_def text_of_def)
  then show ?thesis
    using version_display_roundtrip [OF v] version_display_roundtrip [OF w] v w by (intro conjI) simp_all
qed

text \<open>Versions of the same order need not be equal, and a missing revision is before the revision zero.\<close>

lemma debian_cmp_str_examples:
  "debian_cmp_str (text_of ''1.0'') (text_of ''1.00'') = Equal"
  "debian_cmp_str (text_of ''1.0a'') (text_of ''1.0'') = Greater"
  by code_simp+

lemma equal_order_different_versions:
  "cmp_version_parts \<lparr>epoch = 0, upstream = text_of ''1.0'', revision = None\<rparr>
     \<lparr>epoch = 0, upstream = text_of ''1.00'', revision = None\<rparr> = Equal \<and>
   text_of ''1.0'' \<noteq> text_of ''1.00''"
  by (simp add: cmp_version_parts_def debian_cmp_str_examples) (simp add: text_of_def)

lemma missing_revision_before_zero:
  "cmp_version_parts (v\<lparr>revision := None\<rparr>) (v\<lparr>revision := Some r\<rparr>) = Less"
  by (simp add: cmp_version_parts_def texts.refl)

end
