(* ===== verification/Text_Codec.thy ===== *)
theory Text_Codec
  imports Rust_Text
begin

text \<open>
  The text encodings of third-party crates that tickets and one-time passwords use, as a record of functions, and what their
  documentation promises: percent encoding (\<open>percent_encoding\<close>), base32 and base64.
\<close>

record text_codec =
  pct_encode :: "(char \<Rightarrow> bool) \<Rightarrow> string \<Rightarrow> string"
  pct_decode :: "string \<Rightarrow> string"
  utf8_lossy :: "string \<Rightarrow> string"
  b32_encode :: "string \<Rightarrow> string"
  b32_decode :: "string \<Rightarrow> string option"
  b64_encode :: "string \<Rightarrow> string"
  b64_decode :: "string \<Rightarrow> string option"

section \<open>The documented behaviour\<close>

definition hex_upper :: "nat \<Rightarrow> char" where
  "hex_upper n = char_of (if n < 10 then 48 + n else 55 + n)"

text \<open>Bytes of the set and bytes that are not ASCII become a percent sign with two digits.\<close>

definition percent_byte :: "(char \<Rightarrow> bool) \<Rightarrow> char \<Rightarrow> string" where
  "percent_byte chosen c =
     (if chosen c \<or> 128 \<le> (of_char c :: nat) then [CHR ''%'', hex_upper (of_char c div 16), hex_upper (of_char c mod 16)] else [c])"

definition percent_encoded :: "(char \<Rightarrow> bool) \<Rightarrow> string \<Rightarrow> string" where
  "percent_encoded chosen s = concat (map (percent_byte chosen) s)"

fun percent_decoded :: "string \<Rightarrow> string" where
  "percent_decoded (p # a # b # s) =
     (case (to_digit 16 a, to_digit 16 b) of
        (Some x, Some y) \<Rightarrow> if p = CHR ''%'' then char_of (x * 16 + y) # percent_decoded s else p # percent_decoded (a # b # s)
      | _ \<Rightarrow> p # percent_decoded (a # b # s))"
| "percent_decoded s = s"

definition base_char :: "char \<Rightarrow> bool" where
  "base_char c = (let n = of_char c :: nat in 48 \<le> n \<and> n \<le> 57 \<or> 65 \<le> n \<and> n \<le> 90 \<or> 97 \<le> n \<and> n \<le> 122 \<or> n = 43 \<or> n = 47)"

definition codec_laws :: "text_codec \<Rightarrow> bool" where
  "codec_laws c =
     ((\<forall>chosen s. pct_encode c chosen s = percent_encoded chosen s) \<and> (\<forall>s. pct_decode c s = percent_decoded s) \<and>
      (\<forall>s. (utf8_valid s \<longrightarrow> utf8_lossy c s = s) \<and> utf8_valid (utf8_lossy c s)) \<and>
      (\<forall>s. b32_decode c (b32_encode c s) = Some s \<and> list_all base_char (b32_encode c s)) \<and>
      (\<forall>s. b64_decode c (b64_encode c s) = Some s \<and> list_all base_char (b64_encode c s)))"

lemma codec_lawsD:
  assumes "codec_laws c"
  shows "pct_encode c chosen s = percent_encoded chosen s" "pct_decode c s = percent_decoded s"
    "utf8_valid s \<Longrightarrow> utf8_lossy c s = s" "utf8_valid (utf8_lossy c s)"
    "b32_decode c (b32_encode c s) = Some s" "list_all base_char (b32_encode c s)"
    "b64_decode c (b64_encode c s) = Some s" "list_all base_char (b64_encode c s)"
  using assms by (auto simp: codec_laws_def)

section \<open>Percent encoding\<close>

lemma to_digit_hex_upper [simp]: "n < 16 \<Longrightarrow> to_digit 16 (hex_upper n) = Some n"
  by (simp add: to_digit_def hex_upper_def Let_def)

lemma percent_decoded_byte:
  assumes "c = CHR ''%'' \<Longrightarrow> chosen c"
  shows "percent_decoded (percent_byte chosen c @ s) = c # percent_decoded s"
proof (cases "chosen c \<or> 128 \<le> (of_char c :: nat)")
  case True
  then show ?thesis by (simp add: percent_byte_def)
next
  case False
  then have "c \<noteq> CHR ''%''" using assms by auto
  then have "percent_decoded (c # s) = c # percent_decoded s"
    by (cases "c # s" rule: percent_decoded.cases) (auto split: option.split)
  with False show ?thesis by (simp add: percent_byte_def)
qed

lemma percent_decoded_encoded:
  assumes "CHR ''%'' \<in> set s \<Longrightarrow> chosen CHR ''%''"
  shows "percent_decoded (percent_encoded chosen s) = s"
  using assms
proof (induction s)
  case (Cons c s)
  have "percent_decoded (percent_byte chosen c @ percent_encoded chosen s) = c # percent_decoded (percent_encoded chosen s)"
    using Cons.prems by (intro percent_decoded_byte) auto
  then show ?case using Cons by (auto simp: percent_encoded_def)
qed (simp add: percent_encoded_def)

lemma hex_upper_chars: "n < 16 \<Longrightarrow> base_char (hex_upper n)"
  by (auto simp: hex_upper_def base_char_def Let_def)

lemma percent_encoded_chars:
  "x \<in> set (percent_encoded chosen s) \<Longrightarrow> x = CHR ''%'' \<or> base_char x \<or> x \<in> set s \<and> \<not> chosen x"
proof -
  assume "x \<in> set (percent_encoded chosen s)"
  then obtain c where "c \<in> set s" "x \<in> set (percent_byte chosen c)" by (auto simp: percent_encoded_def)
  then show ?thesis by (auto simp: percent_byte_def hex_upper_chars split: if_splits)
qed

lemma percent_encoded_ascii: "list_all (\<lambda>c. of_char c < (128 :: nat)) (percent_encoded chosen s)"
proof -
  have "of_char (hex_upper n) < (128 :: nat)" if "n < 16" for n using that by (simp add: hex_upper_def)
  then show ?thesis by (auto simp: percent_encoded_def percent_byte_def list_all_iff)
qed

lemma percent_decoded_plain: "CHR ''%'' \<notin> set s \<Longrightarrow> percent_decoded s = s"
  by (induction s rule: percent_decoded.induct) (auto split: option.split)

section \<open>Codecs with these laws\<close>

definition hex_encode :: "string \<Rightarrow> string" where
  "hex_encode s = concat (map (\<lambda>c. [hex_digit (of_char c div 16), hex_digit (of_char c mod 16)]) s)"

fun hex_decode :: "string \<Rightarrow> string option" where
  "hex_decode [] = Some []"
| "hex_decode [_] = None"
| "hex_decode (a # b # s) =
     (case (to_digit 16 a, to_digit 16 b) of
        (Some x, Some y) \<Rightarrow> map_option (\<lambda>t. char_of (x * 16 + y) # t) (hex_decode s)
      | _ \<Rightarrow> None)"

lemma hex_decode_encode [simp]: "hex_decode (hex_encode s) = Some s"
  by (induction s) (simp_all add: hex_encode_def)

lemma hex_encode_chars: "list_all base_char (hex_encode s)"
proof -
  have "base_char (hex_digit n)" if "n < 16" for n using that by (auto simp: hex_digit_def base_char_def Let_def)
  then show ?thesis by (auto simp: hex_encode_def list_all_iff)
qed

definition plain_codec :: text_codec where
  "plain_codec = \<lparr>pct_encode = percent_encoded, pct_decode = percent_decoded, 
     utf8_lossy = (\<lambda>s. if utf8_valid s then s else [CHR 0xEF, CHR 0xBF, CHR 0xBD]),
     b32_encode = hex_encode, b32_decode = hex_decode, b64_encode = hex_encode, b64_decode = hex_decode\<rparr>"

lemma plain_codec_laws: "codec_laws plain_codec"
  by (simp add: codec_laws_def plain_codec_def hex_encode_chars byte_in_def)

end
