(* ===== verification/Totp.thy ===== *)
theory Totp
  imports Text_Codec
begin

text \<open>
  One-time passwords, \<open>proxmox-tfa/src/totp.rs\<close>: the HOTP value of a counter, its comparison with a text, the time window, and
  the \<open>otpauth\<close> URI. The HMAC of openssl is a parameter. A time is a number of nanoseconds since the epoch. A panic is \<open>None\<close>;
  integer operations wrap around as in a release build.
\<close>

section \<open>Values\<close>

datatype algorithm = Sha1 | Sha256 | Sha512

datatype totp_error =
  Generic string | Decode string | BadParameter string | Ssl string | UnsupportedAlgorithm string | UnknownParameter string

definition algorithm_display :: "algorithm \<Rightarrow> string" where
  "algorithm_display a = (case a of Sha1 \<Rightarrow> ''SHA1'' | Sha256 \<Rightarrow> ''SHA256'' | Sha512 \<Rightarrow> ''SHA512'')"

text \<open>No character outside ASCII has a lowercase form among the letters of the three names.\<close>

definition algorithm_from_str :: "string \<Rightarrow> (totp_error, algorithm) result" where
  "algorithm_from_str s =
     (let l = map ascii_lower s
      in if l = ''sha1'' then Inr Sha1 else if l = ''sha256'' then Inr Sha256 else if l = ''sha512'' then Inr Sha512
         else Inl (UnsupportedAlgorithm s))"

record totp =
  secret :: string
  digits :: nat
  algo :: algorithm
  period :: nat
  issuer :: "string option"
  account_name :: "string option"

definition totp_empty :: totp where
  "totp_empty = \<lparr>secret = [], digits = 6, algo = Sha1, period = 30, issuer = None, account_name = None\<rparr>"

text \<open>\<open>TotpBuilder::period\<close> panics for zero.\<close>

definition builder_period :: "nat \<Rightarrow> totp \<Rightarrow> totp option" where
  "builder_period seconds t = (if seconds = 0 then None else Some (t\<lparr>period := seconds\<rparr>))"

record totp_value =
  otp_raw :: nat
  otp_digits :: nat

type_synonym hmac_fun = "algorithm \<Rightarrow> string \<Rightarrow> string \<Rightarrow> (totp_error, string) result"

definition totp_sign :: "hmac_fun \<Rightarrow> totp \<Rightarrow> string \<Rightarrow> (totp_error, totp_value) result" where
  "totp_sign hmac t input =
     and_then (hmac (algo t) (secret t) input)
       (\<lambda>mac.
          if mac = [] then Inl (Generic ''error calculating hmac (too short)'')
          else
            (let offset = of_char (last mac) mod 16
             in if length mac < offset + 4 then Inl (Generic ''error finalizing hmac (too short)'')
                else Inr \<lparr>otp_raw = be_value 256 (map of_char (take 4 (drop offset mac))) mod 2 ^ 31, otp_digits = digits t\<rparr>))"

definition totp_counter :: "hmac_fun \<Rightarrow> totp \<Rightarrow> int \<Rightarrow> (totp_error, totp_value) result" where
  "totp_counter hmac t count = totp_sign hmac t (map char_of (be_digits 256 8 (nat (count mod 2 ^ 64))))"

definition time_to_counter :: "totp \<Rightarrow> int \<Rightarrow> (totp_error, int) result option" where
  "time_to_counter t time =
     (if time < 0 then Some (Inl (Generic ''refusing to create otp value for negative time''))
      else if period t = 0 then None
      else Some (Inr (time div 1000000000 div int (period t))))"

definition totp_value_of :: "totp_value \<Rightarrow> nat option" where
  "totp_value_of v = (let m = 10 ^ otp_digits v mod 2 ^ 32 in if m = 0 then None else Some (otp_raw v mod m))"

definition value_eq_str :: "totp_value \<Rightarrow> string \<Rightarrow> bool option" where
  "value_eq_str v s =
     (if length s \<noteq> otp_digits v then Some False
      else (case parse_unsigned (2 ^ 32 - 1) s of
              None \<Rightarrow> Some False
            | Some n \<Rightarrow> map_option (\<lambda>x. x = n) (totp_value_of v)))"

definition totp_display :: "totp_value \<Rightarrow> string option" where
  "totp_display v =
     map_option (\<lambda>n. replicate (otp_digits v - length (show_nat n)) (CHR ''0'') @ show_nat n) (totp_value_of v)"

fun verify_steps :: "hmac_fun \<Rightarrow> totp \<Rightarrow> string \<Rightarrow> int \<Rightarrow> int list \<Rightarrow> (totp_error, int option) result option" where
  "verify_steps hmac t s count [] = Some (Inr None)"
| "verify_steps hmac t s count (k # ks) =
     (let c = wrap_signed 64 (count + k)
      in case totp_counter hmac t c of
           Inl e \<Rightarrow> Some (Inl e)
         | Inr v \<Rightarrow>
             (case value_eq_str v s of
                None \<Rightarrow> None
              | Some True \<Rightarrow> Some (Inr (Some c))
              | Some False \<Rightarrow> verify_steps hmac t s count ks))"

definition totp_verify :: "hmac_fun \<Rightarrow> totp \<Rightarrow> string \<Rightarrow> int \<Rightarrow> int list \<Rightarrow> (totp_error, int option) result option" where
  "totp_verify hmac t s time steps =
     (case time_to_counter t time of
        None \<Rightarrow> None
      | Some (Inl e) \<Rightarrow> Some (Inl e)
      | Some (Inr count) \<Rightarrow> verify_steps hmac t s (wrap_signed 64 count) steps)"

definition totp_time :: "hmac_fun \<Rightarrow> totp \<Rightarrow> int \<Rightarrow> (totp_error, totp_value) result option" where
  "totp_time hmac t time = map_option (\<lambda>r. and_then r (totp_counter hmac t)) (time_to_counter t time)"

section \<open>Values and their text\<close>

lemma power_ten_vanishes: "(10::nat) ^ d mod 2 ^ 32 = 0 \<longleftrightarrow> 32 \<le> d"
proof
  assume "(10::nat) ^ d mod 2 ^ 32 = 0"
  then have "(2::nat) ^ 32 dvd 2 ^ d * 5 ^ d"
    by (simp add: mod_eq_0_iff_dvd power_mult_distrib [symmetric])
  moreover have "coprime ((2::nat) ^ 32) (5 ^ d)"
    by (subst coprime_power_left_iff, subst coprime_power_right_iff) (simp add: coprime_iff_gcd_eq_1 gcd_non_0_nat)
  ultimately have "(2::nat) ^ 32 dvd 2 ^ d" by (simp add: coprime_dvd_mult_left_iff)
  then show "32 \<le> d" by (simp only: nat_dvd_not_less power_dvd_imp_le)
next
  assume "32 \<le> d"
  then have "(2::nat) ^ 32 dvd 2 ^ d * 5 ^ d" by (intro dvd_mult2 le_imp_power_dvd)
  then show "(10::nat) ^ d mod 2 ^ 32 = 0" by (simp add: mod_eq_0_iff_dvd power_mult_distrib [symmetric])
qed

text \<open>The value of a code panics exactly when the power of ten is zero in 32 bits.\<close>

lemma totp_value_of_panics: "totp_value_of v = None \<longleftrightarrow> 32 \<le> otp_digits v"
  unfolding totp_value_of_def Let_def power_ten_vanishes by simp

lemma totp_value_bound:
  assumes "totp_value_of v = Some n" "otp_raw v < 2 ^ 31"
  shows "n < 10 ^ otp_digits v" "n \<le> 2 ^ 32 - 1"
proof -
  let ?m = "10 ^ otp_digits v mod 2 ^ 32 :: nat"
  have n: "n = otp_raw v mod ?m" "?m \<noteq> 0" using assms(1) by (auto simp: totp_value_of_def Let_def split: if_splits)
  then have "n < ?m" by (metis mod_less_divisor neq0_conv)
  moreover have "?m \<le> 10 ^ otp_digits v" by (rule mod_less_eq_dividend)
  moreover have "n \<le> otp_raw v" using n by simp
  ultimately show "n < 10 ^ otp_digits v" "n \<le> 2 ^ 32 - 1" using assms(2) by simp_all
qed

lemma parse_digits_zeros: "parse_digits 0 (replicate k (CHR ''0'') @ s) = parse_digits 0 s"
  by (induction k) (simp_all add: digit_val_def)

lemma length_show_nat: "n < 10 ^ k \<Longrightarrow> 0 < k \<Longrightarrow> length (show_nat n) \<le> k"
  by (simp add: show_nat_show_base length_show_base)

lemma display_equals:
  assumes "totp_display v = Some s" "otp_raw v < 2 ^ 31" "0 < otp_digits v"
  shows "value_eq_str v s = Some True"
proof -
  obtain n where n: "totp_value_of v = Some n" "s = replicate (otp_digits v - length (show_nat n)) (CHR ''0'') @ show_nat n"
    using assms(1) by (auto simp: totp_display_def)
  have "CHR ''+'' \<notin> set s" using n(2) show_nat_above [of "CHR ''+''" n] by (auto split: if_splits)
  moreover have "parse_nat s = Some n"
    using n(2) by (simp add: parse_nat_def parse_digits_zeros parse_digits_show_nat)
  ultimately have "parse_unsigned (2 ^ 32 - 1) s = Some n"
    using totp_value_bound(2) [OF n(1) assms(2)] by (simp add: parse_unsigned_def strip_prefix_char_None)
  moreover have "length s = otp_digits v"
    using n(2) length_show_nat [OF totp_value_bound(1) [OF n(1) assms(2)] assms(3)] by simp
  ultimately show ?thesis using n(1) by (simp add: value_eq_str_def)
qed

text \<open>The text is compared as a number after its length, so a leading plus sign stands for a digit.\<close>

lemma plus_sign_accepted: "value_eq_str \<lparr>otp_raw = 1012345, otp_digits = 6\<rparr> ''+12345'' = Some True"
  by (simp add: value_eq_str_def totp_value_of_def parse_unsigned_def strip_prefix_char_def parse_nat_def digit_val_def)

lemma totp_sign_raw:
  assumes "totp_sign hmac t s = Inr v"
  shows "otp_raw v < 2 ^ 31" "otp_digits v = digits t"
  using assms by (auto simp: totp_sign_def and_then_eq_Inr Let_def split: if_splits)

section \<open>The time window\<close>

text \<open>The digests of HMAC with SHA-1, SHA-256 and SHA-512 have 20, 32 and 64 bytes.\<close>

definition hmac_ok :: "hmac_fun \<Rightarrow> bool" where
  "hmac_ok hmac = (\<forall>a k d. \<exists>m. hmac a k d = Inr m \<and> length m = (case a of Sha1 \<Rightarrow> 20 | Sha256 \<Rightarrow> 32 | Sha512 \<Rightarrow> 64))"

lemma totp_counter_ok:
  assumes "hmac_ok hmac"
  obtains v where "totp_counter hmac t c = Inr v" "otp_raw v < 2 ^ 31" "otp_digits v = digits t"
proof -
  let ?d = "map char_of (be_digits 256 8 (nat (c mod 2 ^ 64)))"
  obtain m where m: "hmac (algo t) (secret t) ?d = Inr m" "length m \<ge> 20"
  proof -
    obtain m where "hmac (algo t) (secret t) ?d = Inr m"
      "length m = (case algo t of Sha1 \<Rightarrow> 20 | Sha256 \<Rightarrow> 32 | Sha512 \<Rightarrow> 64)"
      using assms unfolding hmac_ok_def by blast
    then show thesis by (intro that) (auto split: algorithm.splits)
  qed
  have "(of_char (last m) :: nat) mod 16 < 16" by simp
  then have "\<exists>v. totp_sign hmac t ?d = Inr v"
    using m by (auto simp: totp_sign_def Let_def simp del: mod_less_divisor)
  then show thesis using that totp_sign_raw unfolding totp_counter_def by metis
qed

lemma value_eq_str_total:
  assumes "otp_digits v < 32"
  obtains b where "value_eq_str v s = Some b"
proof -
  obtain n where "totp_value_of v = Some n" using assms totp_value_of_panics [of v] by fastforce
  then have "value_eq_str v s \<noteq> None" by (auto simp: value_eq_str_def split: option.split)
  then show thesis using that by (cases "value_eq_str v s") simp_all
qed

definition accepts_at :: "hmac_fun \<Rightarrow> totp \<Rightarrow> int \<Rightarrow> string \<Rightarrow> bool" where
  "accepts_at hmac t c s = (case totp_counter hmac t c of Inl _ \<Rightarrow> False | Inr v \<Rightarrow> value_eq_str v s = Some True)"

lemma verify_steps_find:
  assumes "hmac_ok hmac" "digits t < 32"
  shows "verify_steps hmac t s count ks =
    Some (Inr (find (\<lambda>c. accepts_at hmac t c s) (map (\<lambda>k. wrap_signed 64 (count + k)) ks)))"
proof (induction ks)
  case (Cons k ks)
  let ?c = "wrap_signed 64 (count + k)"
  obtain v where v: "totp_counter hmac t ?c = Inr v" "otp_digits v = digits t" using totp_counter_ok [OF assms(1)] by metis
  obtain b where "value_eq_str v s = Some b" using value_eq_str_total v(2) assms(2) by metis
  then show ?case using Cons v(1) by (cases b) (simp_all add: accepts_at_def Let_def)
qed simp

lemma totp_verify_find:
  assumes "hmac_ok hmac" "digits t < 32" "0 < period t" "0 \<le> time"
  shows "totp_verify hmac t s time steps =
    Some (Inr (find (\<lambda>c. accepts_at hmac t c s)
      (map (\<lambda>k. wrap_signed 64 (wrap_signed 64 (time div 1000000000 div int (period t)) + k)) steps)))"
  using assms by (simp add: totp_verify_def time_to_counter_def verify_steps_find)

section \<open>The URI\<close>

definition alphanumeric :: "char \<Rightarrow> bool" where
  "alphanumeric c = (let n = of_char c :: nat in 48 \<le> n \<and> n \<le> 57 \<or> 65 \<le> n \<and> n \<le> 90 \<or> 97 \<le> n \<and> n \<le> 122)"

abbreviation uri_encode :: "text_codec \<Rightarrow> string \<Rightarrow> string" where
  "uri_encode c \<equiv> pct_encode c (\<lambda>b. \<not> alphanumeric b)"

definition to_uri :: "text_codec \<Rightarrow> totp \<Rightarrow> (totp_error, string) result" where
  "to_uri c t =
     (case account_name t of
        None \<Rightarrow> Inl (Generic ''cannot create otpauth uri without an account name'')
      | Some account \<Rightarrow>
          Inr (''otpauth://totp/'' @ (case issuer t of Some i \<Rightarrow> uri_encode c i @ '':'' | None \<Rightarrow> []) @
               uri_encode c account @ ''?secret='' @ b32_encode c (secret t) @
               ''&digits='' @ show_nat (digits t) @ ''&algorithm='' @ algorithm_display (algo t) @
               ''&period='' @ show_nat (period t) @
               (case issuer t of Some i \<Rightarrow> ''&issuer='' @ uri_encode c i | None \<Rightarrow> [])))"

definition quoted_name :: "string \<Rightarrow> string" where
  "quoted_name s = CHR 0x27 # s @ [CHR 0x27]"

definition decode_utf8 :: "string \<Rightarrow> string \<Rightarrow> (totp_error, string) result" where
  "decode_utf8 n s = (if utf8_valid s then Inr s else Inl (BadParameter (''failed to decode value '' @ quoted_name n)))"

definition parse_number :: "nat \<Rightarrow> string \<Rightarrow> string \<Rightarrow> (totp_error, nat) result" where
  "parse_number bound n s =
     and_then (decode_utf8 n s) (\<lambda>s. ok_or (BadParameter (''failed to parse value '' @ quoted_name n)) (parse_unsigned bound s))"

definition apply_param :: "text_codec \<Rightarrow> totp \<Rightarrow> string \<Rightarrow> string \<Rightarrow> (totp_error, totp) result" where
  "apply_param c t key v =
     (if key = ''secret'' then
        if utf8_valid v
        then (case b32_decode c v of
                Some s \<Rightarrow> Inr (t\<lparr>secret := s\<rparr>)
              | None \<Rightarrow> Inl (Generic ''failed to decode otp secret in otpauth url''))
        else Inl (Decode ''failed to decode value'')
      else if key = ''digits'' then and_then (parse_number 255 key v) (\<lambda>n. Inr (t\<lparr>digits := n\<rparr>))
      else if key = ''algorithm'' then
        and_then (decode_utf8 key v)
          (\<lambda>s. case algorithm_from_str s of
                 Inl _ \<Rightarrow> Inl (BadParameter (''failed to parse value '' @ quoted_name key))
               | Inr a \<Rightarrow> Inr (t\<lparr>algo := a\<rparr>))
      else if key = ''period'' then and_then (parse_number (2 ^ 64 - 1) key v) (\<lambda>n. Inr (t\<lparr>period := n\<rparr>))
      else if key = ''issuer'' then Inr (t\<lparr>issuer := Some (utf8_lossy c v)\<rparr>)
      else Inl (UnknownParameter key))"

fun parse_params :: "text_codec \<Rightarrow> totp \<Rightarrow> string list \<Rightarrow> (totp_error, totp) result" where
  "parse_params c t [] = Inr t"
| "parse_params c t (part # parts) =
     (let (k, v) = (case split_once (CHR ''='') part of Some (k, v) \<Rightarrow> (k, Some v) | None \<Rightarrow> (part, None));
          key = pct_decode c k
      in if \<not> utf8_valid key then Inl (Decode ''failed to decode key'')
         else
           (case v of
              None \<Rightarrow> Inl (Generic ''bad value in otpauth uri'')
            | Some v \<Rightarrow> and_then (apply_param c t key (pct_decode c v)) (\<lambda>t. parse_params c t parts)))"

definition uri_account :: "text_codec \<Rightarrow> string \<Rightarrow> totp" where
  "uri_account c account =
     (case split_once (CHR '':'') account of
        Some (i, a) \<Rightarrow> totp_empty\<lparr>issuer := Some (utf8_lossy c (pct_decode c i)), account_name := Some (utf8_lossy c (pct_decode c a))\<rparr>
      | None \<Rightarrow> totp_empty\<lparr>account_name := Some (utf8_lossy c (pct_decode c account))\<rparr>)"

definition totp_from_str :: "text_codec \<Rightarrow> string \<Rightarrow> (totp_error, totp) result" where
  "totp_from_str c uri =
     (if take 15 uri \<noteq> ''otpauth://totp/'' then Inl (Generic ''not an otpauth uri'')
      else
        (case split_once (CHR ''?'') (drop 15 uri) of
           None \<Rightarrow> Inl (Generic (''missing '' @ quoted_name ''?'' @ '' in otp uri''))
         | Some (account, rest) \<Rightarrow>
             and_then (parse_params c (uri_account c account) (split_on (CHR ''&'') rest))
               (\<lambda>t. if secret t = [] then Inl (Generic ''missing secret in otpauth url'') else Inr t)))"

section \<open>Round trip\<close>

definition totp_wf :: "totp \<Rightarrow> bool" where
  "totp_wf t =
     (secret t \<noteq> [] \<and> digits t \<le> 255 \<and> period t \<le> 2 ^ 64 - 1 \<and>
      (case issuer t of None \<Rightarrow> True | Some i \<Rightarrow> utf8_valid i) \<and>
      (case account_name t of None \<Rightarrow> False | Some a \<Rightarrow> utf8_valid a))"

lemma alphanumeric_base: "alphanumeric x \<Longrightarrow> base_char x"
  by (auto simp: alphanumeric_def base_char_def Let_def)

lemma uri_encode_free:
  assumes "codec_laws c" "\<not> base_char x" "x \<noteq> CHR ''%''"
  shows "x \<notin> set (uri_encode c s)"
  using assms percent_encoded_chars alphanumeric_base by (fastforce simp: codec_lawsD)

lemma uri_decode_encode: "codec_laws c \<Longrightarrow> utf8_valid s \<Longrightarrow> utf8_lossy c (pct_decode c (uri_encode c s)) = s"
  by (simp add: codec_lawsD percent_decoded_encoded alphanumeric_def)

lemma base_text_free: "list_all base_char s \<Longrightarrow> \<not> base_char x \<Longrightarrow> x \<notin> set s"
  by (auto simp: list_all_iff)

lemma base_text_utf8: "list_all base_char s \<Longrightarrow> utf8_valid s"
  by (rule utf8_valid_ascii) (auto simp: list_all_iff base_char_def Let_def)

lemma show_nat_base: "list_all base_char (show_nat n)"
  using show_nat_above by (fastforce simp: list_all_iff base_char_def Let_def)

lemma algorithm_from_display [simp]: "algorithm_from_str (algorithm_display a) = Inr a"
  by (cases a; hypsubst; code_simp)

lemma algorithm_display_base: "list_all base_char (algorithm_display a)"
  by (cases a) (simp_all add: algorithm_display_def base_char_def)

lemma separators_not_base [simp]:
  "\<not> base_char CHR ''?''" "\<not> base_char CHR '':''" "\<not> base_char CHR ''&''" "\<not> base_char CHR ''=''" "\<not> base_char CHR ''%''"
  by (simp_all add: base_char_def)

lemma parse_params_Cons:
  assumes "codec_laws c" "list_all base_char k"
  shows "parse_params c t ((k @ CHR ''='' # v) # parts) =
    and_then (apply_param c t k (pct_decode c v)) (\<lambda>t. parse_params c t parts)"
  using assms
  by (simp add: base_text_free split_once_append codec_lawsD percent_decoded_plain base_text_utf8)

lemma pct_decode_base: "codec_laws c \<Longrightarrow> list_all base_char s \<Longrightarrow> pct_decode c s = s"
  by (simp add: codec_lawsD percent_decoded_plain base_text_free)

definition uri_parts :: "text_codec \<Rightarrow> totp \<Rightarrow> string list" where
  "uri_parts c t =
     [''secret'' @ CHR ''='' # b32_encode c (secret t), ''digits'' @ CHR ''='' # show_nat (digits t),
      ''algorithm'' @ CHR ''='' # algorithm_display (algo t), ''period'' @ CHR ''='' # show_nat (period t)] @
     (case issuer t of None \<Rightarrow> [] | Some i \<Rightarrow> [''issuer'' @ CHR ''='' # uri_encode c i])"

lemma parse_uri_parts:
  assumes "codec_laws c" "totp_wf t"
  shows "parse_params c t0 (uri_parts c t) =
    Inr \<lparr>secret = secret t, digits = digits t, algo = algo t, period = period t,
         issuer = (case issuer t of None \<Rightarrow> issuer t0 | Some i \<Rightarrow> Some i), account_name = account_name t0\<rparr>"
proof -
  have keys: "list_all base_char ''secret''" "list_all base_char ''digits''" "list_all base_char ''algorithm''"
    "list_all base_char ''period''" "list_all base_char ''issuer''" by (simp_all add: base_char_def)
  have texts: "utf8_valid (b32_encode c s)" "utf8_valid (show_nat n)" "utf8_valid (algorithm_display a)" for s n a
    by (simp_all add: base_text_utf8 assms(1) codec_lawsD show_nat_base algorithm_display_base)
  have plain: "pct_decode c (b32_encode c s) = b32_encode c s" "pct_decode c (show_nat n) = show_nat n"
    "pct_decode c (algorithm_display a) = algorithm_display a" for s n a
    by (simp_all add: pct_decode_base assms(1) codec_lawsD show_nat_base algorithm_display_base)
  note params = keys [THEN parse_params_Cons [OF assms(1)], unfolded append_Cons append_Nil]
  show ?thesis
    using assms
    by (simp add: uri_parts_def params texts plain apply_param_def parse_number_def decode_utf8_def parse_unsigned_show_nat
        totp_wf_def uri_decode_encode codec_lawsD(5) del: parse_params.simps(2) split: option.splits)
qed

definition uri_label :: "text_codec \<Rightarrow> totp \<Rightarrow> string \<Rightarrow> string" where
  "uri_label c t account = (case issuer t of Some i \<Rightarrow> uri_encode c i @ '':'' | None \<Rightarrow> []) @ uri_encode c account"

lemma to_uri_parts:
  "account_name t = Some a \<Longrightarrow>
   to_uri c t = Inr (''otpauth://totp/'' @ uri_label c t a @ CHR ''?'' # join ''&'' (uri_parts c t))"
  by (simp add: to_uri_def uri_parts_def uri_label_def split: option.split)

lemma uri_parts_free:
  assumes "codec_laws c" "p \<in> set (uri_parts c t)"
  shows "CHR ''&'' \<notin> set p"
proof -
  have "CHR ''&'' \<notin> set (b32_encode c s)" "CHR ''&'' \<notin> set (show_nat n)" "CHR ''&'' \<notin> set (algorithm_display a)"
    "CHR ''&'' \<notin> set (uri_encode c s)" for s n a
    by (simp_all add: base_text_free assms(1) codec_lawsD(6) show_nat_base algorithm_display_base uri_encode_free)
  then show ?thesis using assms(2) by (auto simp: uri_parts_def split: option.splits)
qed

lemma from_str_to_uri:
  assumes "codec_laws c" "totp_wf t"
  shows "\<exists>uri. to_uri c t = Inr uri \<and> totp_from_str c uri = Inr t"
proof -
  obtain a where a: "account_name t = Some a" "utf8_valid a" using assms(2) by (auto simp: totp_wf_def split: option.splits)
  have free: "CHR ''?'' \<notin> set (uri_encode c s)" "CHR '':'' \<notin> set (uri_encode c s)" for s
    using uri_encode_free [OF assms(1)] by simp_all
  have "CHR ''?'' \<notin> set (uri_label c t a)" by (auto simp: uri_label_def free split: option.split)
  moreover have "split_on (CHR ''&'') (join ''&'' (uri_parts c t)) = uri_parts c t"
    by (rule split_on_join) (simp_all add: uri_parts_free [OF assms(1)] uri_parts_def)
  moreover have "split_once (CHR '':'') (uri_label c t a) =
      (case issuer t of None \<Rightarrow> None | Some i \<Rightarrow> Some (uri_encode c i, uri_encode c a))"
    by (auto simp: uri_label_def free split_once_None split_once_append split: option.split)
  moreover have "issuer t = None \<Longrightarrow> uri_label c t a = uri_encode c a" by (simp add: uri_label_def)
  ultimately have "totp_from_str c (''otpauth://totp/'' @ uri_label c t a @ CHR ''?'' # join ''&'' (uri_parts c t)) = Inr t"
    using assms(2) a
    by (cases "issuer t")
      (simp_all add: totp_from_str_def split_once_append parse_uri_parts [OF assms] totp_empty_def uri_account_def
        totp_wf_def uri_decode_encode [OF assms(1)])
  with to_uri_parts [OF a(1)] show ?thesis by simp
qed

lemma parse_unsigned_bound: "parse_unsigned bound s = Some n \<Longrightarrow> n \<le> bound"
  by (auto simp: parse_unsigned_def split: option.splits if_splits)

definition totp_typed :: "totp \<Rightarrow> bool" where
  "totp_typed t =
     (digits t \<le> 255 \<and> period t \<le> 2 ^ 64 - 1 \<and> (case issuer t of None \<Rightarrow> True | Some i \<Rightarrow> utf8_valid i) \<and>
      (case account_name t of None \<Rightarrow> False | Some a \<Rightarrow> utf8_valid a))"

lemma apply_param_typed:
  assumes "codec_laws c" "totp_typed t" "apply_param c t key v = Inr t'"
  shows "totp_typed t'"
  using assms
  by (auto simp: apply_param_def parse_number_def totp_typed_def ok_or_def and_then_eq_Inr codec_lawsD
      dest: parse_unsigned_bound split: if_splits option.splits sum.splits)

lemma parse_params_typed:
  assumes "codec_laws c"
  shows "totp_typed t \<Longrightarrow> parse_params c t parts = Inr t' \<Longrightarrow> totp_typed t'"
  using assms
  by (induction parts arbitrary: t)
    (auto simp: and_then_eq_Inr Let_def split: prod.splits option.splits if_splits dest: apply_param_typed)

lemma uri_account_typed: "codec_laws c \<Longrightarrow> totp_typed (uri_account c account)"
  by (simp add: uri_account_def totp_typed_def totp_empty_def codec_lawsD(4) split: option.split)

lemma from_str_wf:
  assumes "codec_laws c" "totp_from_str c uri = Inr t"
  shows "totp_wf t"
proof -
  obtain account rest where "split_once (CHR ''?'') (drop 15 uri) = Some (account, rest)"
    using assms(2) by (simp add: totp_from_str_def split: if_splits option.splits prod.splits)
  with assms(2) have run: "parse_params c (uri_account c account) (split_on (CHR ''&'') rest) = Inr t" "secret t \<noteq> []"
    by (simp_all add: totp_from_str_def and_then_eq_Inr split: if_splits) blast+
  with parse_params_typed [OF assms(1) uri_account_typed [OF assms(1)]] have "totp_typed t" by blast
  with run(2) show ?thesis by (simp add: totp_typed_def totp_wf_def)
qed

text \<open>C39: A TOTP configuration is written as a URI and read back unchanged: every configuration with a secret, an
  account name and fields of their types, and in particular every configuration that was read from a URI
  of any form.\<close>

theorem totp_uri_roundtrip:
  assumes "codec_laws c" and "totp_wf t \<or> totp_from_str c s = Inr t"
  shows "\<exists>uri. to_uri c t = Inr uri \<and> totp_from_str c uri = Inr t"
  using assms from_str_wf from_str_to_uri by blast

definition sample_totp :: totp where
  "sample_totp = \<lparr>secret = ''12'', digits = 8, algo = Sha256, period = 60, issuer = Some ''A&B'', account_name = Some ''x:y''\<rparr>"

theorem totp_uri_roundtrip_witness: "\<exists>uri. to_uri plain_codec sample_totp = Inr uri \<and> totp_from_str plain_codec uri = Inr sample_totp"
  by (rule totp_uri_roundtrip [OF plain_codec_laws, of _ "[]"]) (simp add: totp_wf_def sample_totp_def byte_in_def)


definition sample_hmac :: hmac_fun where
  "sample_hmac a k d = Inr (replicate (case a of Sha1 \<Rightarrow> 20 | Sha256 \<Rightarrow> 32 | Sha512 \<Rightarrow> 64) (CHR ''7''))"

lemma sample_hmac_ok: "hmac_ok sample_hmac"
  by (simp add: hmac_ok_def sample_hmac_def)


text \<open>
  \<open>TotpBuilder::period\<close> refuses zero, the parser of the URI does not: the check of any code then divides by
  zero. The number of digits is not limited either, and from 32 digits on the power of ten is zero.
\<close>

lemma zero_period_panics: "period t = 0 \<Longrightarrow> 0 \<le> time \<Longrightarrow> totp_verify hmac t s time steps = None"
  by (simp add: totp_verify_def time_to_counter_def)

lemma zero_period_accepted: "\<exists>uri. totp_from_str plain_codec uri = Inr (sample_totp\<lparr>period := 0, digits := 32\<rparr>)"
proof -
  have "totp_wf (sample_totp\<lparr>period := 0, digits := 32\<rparr>)" by (simp add: totp_wf_def sample_totp_def byte_in_def)
  from from_str_to_uri [OF plain_codec_laws this] show ?thesis by blast
qed

lemma many_digits_panic:
  assumes "hmac_ok hmac" "32 \<le> digits t" "0 < period t" "0 \<le> time"
  shows "totp_verify hmac t (replicate (digits t) (CHR ''0'')) time [-1, 0, 1] = None"
proof -
  let ?s = "replicate (digits t) (CHR ''0'')" and ?c = "wrap_signed 64 (wrap_signed 64 (time div 1000000000 div int (period t)) + - 1)"
  obtain v where v: "totp_counter hmac t ?c = Inr v" "otp_digits v = digits t" using totp_counter_ok [OF assms(1)] by metis
  have "digits t \<noteq> 0" using assms(2) by simp
  then have "parse_unsigned (2 ^ 32 - 1) ?s = Some 0"
    using parse_digits_zeros [of "digits t" "[]"]
    by (simp add: parse_unsigned_def strip_prefix_char_None parse_nat_def)
  moreover have "totp_value_of v = None" using v(2) assms(2) by (simp add: totp_value_of_panics)
  ultimately have "value_eq_str v ?s = None" using v(2) by (simp add: value_eq_str_def)
  with v(1) assms(3,4) show ?thesis by (simp add: totp_verify_def time_to_counter_def)
qed

end
