(* ===== verification/Spec2Isabelle.thy ===== *)
theory Spec2Isabelle
  imports Schema_Lookup Property_String Acl_Api Acl_Roundtrip Section_Typed Rate_Limiter Unit_Escape Ip_Api Rrd Deb_Version Totp
begin

text \<open>
  Verification of the Rust workspace of the Proxmox libraries.

  \<^bold>\<open>The program.\<close> The workspace is a set of crates that the Proxmox products share. An API request is matched
  against a \<^emph>\<open>schema\<close> (\<open>proxmox-schema\<close>), which checks and converts parameters; the router asks the \<^emph>\<open>access
  control\<close> (\<open>proxmox-access-control\<close>, with the ids of \<open>proxmox-auth-api\<close>) through the trait \<open>UserInformation\<close>
  whether the caller has the \<^emph>\<open>permission\<close> of the method (\<open>proxmox-router\<close>); users and tokens are kept in
  \<^emph>\<open>section configuration\<close> files (\<open>proxmox-section-config\<close>), which use the schemas again to check their content.

  \<^bold>\<open>Theories.\<close>

  \<^item> \<open>Prelude\<close>: the parts of the Rust standard library the crates use: results, string splitting and
    trimming, integer parsing and printing, binary search.
  \<^item> \<open>Rust_Maps\<close>: \<open>HashMap\<close> as an association list and \<open>BTreeMap\<close> as a sorted one, behind the locale \<open>rust_map\<close>.
  \<^item> \<open>Schema\<close>, \<open>Schema_Verify\<close>, \<open>Schema_Params\<close>, \<open>Schema_Lookup\<close>: \<open>proxmox-schema/src/schema.rs\<close>. The schema
    types, lookup through aliases, \<open>allOf\<close> and \<open>oneOf\<close>, the property iterators, \<open>verify_json\<close>, the parameter
    parser and the renaming of aliases. The lemmas give \<open>verify_json\<close> a declarative reading, show that the
    iterators enumerate the schema, and relate parsing, renaming and verification.
  \<^item> \<open>Property_String\<close>: \<open>property_string.rs\<close> and the serializer of \<open>ser/mod.rs\<close>, with their round trip.
  \<^item> \<open>Auth_Types\<close>: \<open>proxmox-auth-api/src/types.rs\<close>, the parsers and printers of user and authentication ids.
  \<^item> \<open>Acl_Tree\<close>, \<open>Acl_Props\<close>, \<open>Acl_Roles\<close>, \<open>Acl_Below\<close>, \<open>Acl_File\<close>: \<open>proxmox-access-control/src/acl.rs\<close>. The tree
    and its operations; the operations as updates of an abstract table of path, id and role; the
    invariant of reachable trees; roles and privileges at a path; \<open>any_privs_below\<close>; the text form and
    the cached reading of the file.
  \<^item> \<open>Permission\<close>: \<open>proxmox-router/src/permission.rs\<close>, permissions and their check.
  \<^item> \<open>Section_Config\<close>, \<open>Section_Props\<close>, \<open>Section_Typed\<close>: \<open>proxmox-section-config\<close>. The parser as a state machine
    over the lines, the writer, both syntaxes and the typed ordered map.
  \<^item> \<open>User_Info\<close>: \<open>types.rs\<close> and \<open>cached_user_info.rs\<close> of the access control. Users, tokens, the cached user
    information and how it answers the router. The locale \<open>owned_principals\<close> states what the permission
    check relies on for tokens, and is interpreted on the privileges of the ACL tree.
  \<^item> \<open>Acl_Api\<close>: \<open>api/acl.rs\<close>, listing and changing ACL entries.

  \<^bold>\<open>Conventions.\<close> Strings are lists of bytes. A \<open>Result\<close> is a sum, a panic is \<open>None\<close>. Hash maps are read in the
  order of their association list; no theorem depends on that order. Code outside the workspace is a
  parameter: the regular expression engine, float parsing and printing, serde, the hash of configuration
  digests, the clock, and the results of file system calls. Loops are recursions with a termination
  proof; no fuel is used.

  \<^bold>\<open>Not modelled.\<close> System calls, locks and file replacement; asynchronous code, network clients and servers;
  procedural macros; wrappers of third-party libraries (openssl, LDAP, OpenID, compression, S3); plain
  data types without behaviour; documentation generators. The other crates with logic of their own
  are not modelled yet.
\<close>

end
